(* ===== verification/Prelude.thy ===== *)
theory Prelude
  imports Main "HOL-Library.Word" "HOL-Library.Char_ord" "HOL-Library.List_Lexorder"
begin

section \<open>Shared vocabulary of the GrowlerDB development\<close>

text \<open>
  What every component theory uses: the Rust integer types as \<open>int\<close> with their width
  written out, \<open>Result\<close> as a sum type with the \<open>?\<close> operator, \<open>std::cmp::Ordering\<close>,
  and small lemmas on lists and optional values.

  A Rust \<open>String\<close> is a \<^typ>\<open>string\<close>: the list of its UTF-8 bytes, one \<^typ>\<open>char\<close> per
  byte. Its order (from \<open>List_Lexorder\<close> and \<open>Char_ord\<close>) is Rust's byte-wise order.
  A \<open>Vec<u8>\<close> is an \<^typ>\<open>8 word list\<close>, a \<open>u64\<close> hash a \<^typ>\<open>64 word\<close>. An \<open>i64\<close> is an
  \<^typ>\<open>int\<close> kept inside its range by the operations below; \<open>u32\<close>, \<open>usize\<close> and document
  counters are \<^typ>\<open>nat\<close>.
\<close>

type_synonym byte = "8 word"

named_theorems res_simps \<open>unfolding rules for results\<close>

subsection \<open>64-bit signed integers\<close>

definition i64_min :: int where
  "i64_min = - (2 ^ 63)"

definition i64_max :: int where
  "i64_max = 2 ^ 63 - 1"

definition in_i64 :: "int \<Rightarrow> bool" where
  "in_i64 x \<longleftrightarrow> i64_min \<le> x \<and> x \<le> i64_max"

text \<open>Two's-complement wrap-around, which a release build performs on overflow.\<close>

definition wrap_i64 :: "int \<Rightarrow> int" where
  "wrap_i64 x = (x + 2 ^ 63) mod 2 ^ 64 - 2 ^ 63"

text \<open>\<open>i64::checked_mul\<close>.\<close>

definition checked_mul_i64 :: "int \<Rightarrow> int \<Rightarrow> int option" where
  "checked_mul_i64 a b = (if in_i64 (a * b) then Some (a * b) else None)"

lemma wrap_i64_id: "in_i64 x \<Longrightarrow> wrap_i64 x = x"
  by (simp add: wrap_i64_def in_i64_def i64_min_def i64_max_def)

lemma wrap_i64_in_range: "in_i64 (wrap_i64 x)"
proof -
  have "0 \<le> (x + 2 ^ 63) mod 2 ^ 64" and "(x + 2 ^ 63) mod 2 ^ 64 < (2::int) ^ 64"
    by simp_all
  then show ?thesis
    by (simp add: wrap_i64_def in_i64_def i64_min_def i64_max_def)
qed

lemma checked_mul_i64_Some:
  "checked_mul_i64 a b = Some c \<longleftrightarrow> c = a * b \<and> in_i64 (a * b)"
  by (auto simp: checked_mul_i64_def)

subsection \<open>Results and orderings\<close>

text \<open>\<open>Result<T, E>\<close> is \<open>'e + 't\<close>; \<open>res_bind\<close> is the early return of the \<open>?\<close> operator.\<close>

definition res_bind :: "'e + 'a \<Rightarrow> ('a \<Rightarrow> 'e + 'b) \<Rightarrow> 'e + 'b" where
  "res_bind m f = (case m of Inl e \<Rightarrow> Inl e | Inr x \<Rightarrow> f x)"

lemma res_bind_simps [simp, res_simps]:
  "res_bind (Inl e) f = Inl e"
  "res_bind (Inr x) f = f x"
  by (simp_all add: res_bind_def)

lemma res_bind_Inr_iff:
  "res_bind m f = Inr y \<longleftrightarrow> (\<exists>x. m = Inr x \<and> f x = Inr y)"
  by (cases m) auto

lemma res_bind_Inl_iff:
  "res_bind m f = Inl e \<longleftrightarrow> m = Inl e \<or> (\<exists>x. m = Inr x \<and> f x = Inl e)"
  by (cases m) auto

text \<open>A loop over a list that returns early on the first error and collects the results.\<close>

fun res_map :: "('a \<Rightarrow> 'e + 'b) \<Rightarrow> 'a list \<Rightarrow> 'e + 'b list" where
  "res_map f [] = Inr []"
| "res_map f (x # xs) = res_bind (f x) (\<lambda>y. res_bind (res_map f xs) (\<lambda>ys. Inr (y # ys)))"

text \<open>A loop that only checks: the first error, or \<open>()\<close>.\<close>

fun res_all :: "('a \<Rightarrow> 'e + unit) \<Rightarrow> 'a list \<Rightarrow> 'e + unit" where
  "res_all f [] = Inr ()"
| "res_all f (x # xs) = res_bind (f x) (\<lambda>_. res_all f xs)"

lemma res_map_Inr_list_all2:
  "res_map f xs = Inr ys \<longleftrightarrow> list_all2 (\<lambda>x y. f x = Inr y) xs ys"
proof (induction xs arbitrary: ys)
  case Nil
  then show ?case by auto
next
  case (Cons x xs)
  show ?case
    by (cases ys) (auto simp: res_bind_Inr_iff Cons.IH)
qed

lemma res_map_Inr_set:
  "res_map f xs = Inr ys \<Longrightarrow> y \<in> set ys \<Longrightarrow> \<exists>x \<in> set xs. f x = Inr y"
  by (force simp: res_map_Inr_list_all2 list_all2_conv_all_nth in_set_conv_nth)

lemma res_map_Inr_mem: "res_map f xs = Inr ys \<Longrightarrow> x \<in> set xs \<Longrightarrow> \<exists>y \<in> set ys. f x = Inr y"
  by (force simp: res_map_Inr_list_all2 list_all2_conv_all_nth in_set_conv_nth)

lemma res_all_Inr_iff: "res_all f xs = Inr u \<longleftrightarrow> (\<forall>x \<in> set xs. f x = Inr ())"
  by (induction xs) (auto simp: res_bind_Inr_iff)

lemma res_all_Inl:
  "res_all f xs = Inl e \<longleftrightarrow>
     (\<exists>ys x zs. xs = ys @ x # zs \<and> (\<forall>y \<in> set ys. f y = Inr ()) \<and> f x = Inl e)"
proof (induction xs)
  case Nil
  then show ?case by simp
next
  case (Cons a xs)
  show ?case
  proof
    assume h: "res_all f (a # xs) = Inl e"
    show "\<exists>ys x zs. a # xs = ys @ x # zs \<and> (\<forall>y \<in> set ys. f y = Inr ()) \<and> f x = Inl e"
    proof (cases "f a")
      case (Inl e')
      with h have "f a = Inl e" by simp
      then have "a # xs = [] @ a # xs \<and> (\<forall>y \<in> set []. f y = Inr ()) \<and> f a = Inl e"
        by simp
      then show ?thesis by blast
    next
      case (Inr u)
      with h have "res_all f xs = Inl e" by simp
      then obtain ys x zs where "xs = ys @ x # zs" "\<forall>y \<in> set ys. f y = Inr ()" "f x = Inl e"
        using Cons.IH by blast
      with Inr have "a # xs = (a # ys) @ x # zs \<and> (\<forall>y \<in> set (a # ys). f y = Inr ()) \<and> f x = Inl e"
        by simp
      then show ?thesis by blast
    qed
  next
    assume "\<exists>ys x zs. a # xs = ys @ x # zs \<and> (\<forall>y \<in> set ys. f y = Inr ()) \<and> f x = Inl e"
    then obtain ys x zs where *: "a # xs = ys @ x # zs" "\<forall>y \<in> set ys. f y = Inr ()" "f x = Inl e"
      by blast
    then show "res_all f (a # xs) = Inl e"
      by (cases ys) (use Cons.IH in auto)
  qed
qed

text \<open>\<open>std::cmp::Ordering\<close> and the total order of a linearly ordered type.\<close>

datatype ordering = Less | Equal | Greater

definition cmp_of :: "'a::linorder \<Rightarrow> 'a \<Rightarrow> ordering" where
  "cmp_of x y = (if x < y then Less else if x = y then Equal else Greater)"

fun ord_reverse :: "ordering \<Rightarrow> ordering" where
  "ord_reverse Less = Greater"
| "ord_reverse Equal = Equal"
| "ord_reverse Greater = Less"

lemma ord_reverse_reverse [simp]: "ord_reverse (ord_reverse c) = c"
  by (cases c) auto

lemma cmp_of_simps [simp]:
  "cmp_of x y = Less \<longleftrightarrow> x < y"
  "cmp_of x y = Equal \<longleftrightarrow> x = y"
  "cmp_of x y = Greater \<longleftrightarrow> y < x"
  by (auto simp: cmp_of_def)

lemma cmp_of_swap: "cmp_of y x = ord_reverse (cmp_of x y)"
  by (auto simp: cmp_of_def)

subsection \<open>Lists and options\<close>

text \<open>\<open>Iterator::max\<close>/\<open>min\<close> on an optional accumulator, as the zone-map code folds it.\<close>

definition opt_min :: "int option \<Rightarrow> int \<Rightarrow> int" where
  "opt_min o1 x = (case o1 of None \<Rightarrow> x | Some m \<Rightarrow> min m x)"

definition opt_max :: "int option \<Rightarrow> int \<Rightarrow> int" where
  "opt_max o1 x = (case o1 of None \<Rightarrow> x | Some m \<Rightarrow> max m x)"

text \<open>\<open>Iterator::find\<close> is \<^const>\<open>List.find\<close>; \<open>Iterator::position\<close> below.\<close>

fun position :: "('a \<Rightarrow> bool) \<Rightarrow> 'a list \<Rightarrow> nat option" where
  "position p [] = None"
| "position p (x # xs) = (if p x then Some 0 else map_option Suc (position p xs))"

lemma position_Some:
  "position p xs = Some i \<Longrightarrow> i < length xs \<and> p (xs ! i) \<and> (\<forall>j < i. \<not> p (xs ! j))"
proof (induction xs arbitrary: i)
  case Nil
  then show ?case by simp
next
  case (Cons x xs)
  show ?case
  proof (cases "p x")
    case True
    with Cons.prems show ?thesis by simp
  next
    case False
    with Cons.prems obtain k where k: "position p xs = Some k" "i = Suc k" by auto
    from Cons.IH [OF k(1)] False k(2) show ?thesis
      by (auto simp: less_Suc_eq_0_disj)
  qed
qed

lemma position_None: "position p xs = None \<longleftrightarrow> (\<forall>x \<in> set xs. \<not> p x)"
  by (induction xs) auto

lemma find_Some_mem: "List.find p xs = Some x \<Longrightarrow> x \<in> set xs \<and> p x"
  by (auto simp: find_Some_iff)

lemma find_None_all: "List.find p xs = None \<longleftrightarrow> (\<forall>x \<in> set xs. \<not> p x)"
  by (auto simp: find_None_iff)

end
