(* ===== verification/Ordered_Map.thy ===== *)
theory Ordered_Map
  imports Prelude
begin

section \<open>Ordered maps and sets: the model of \<open>BTreeMap\<close> and \<open>BTreeSet\<close>\<close>

text \<open>
  The registry and the windowed write path keep their state in \<open>std::collections::BTreeMap\<close>
  and iterate it in key order. The model is the association list of the entries in
  ascending key order (\<open>bt_ok\<close>), so that iteration is list iteration and every operation
  computes. The locale \<open>ordered_map\<close> is the contract the components use: what a lookup
  returns after each update, and that each update keeps the key order. It is interpreted
  on the model's operations below.
\<close>

type_synonym ('k, 'v) btree = "('k \<times> 'v) list"

definition bt_get :: "('k, 'v) btree \<Rightarrow> 'k \<Rightarrow> 'v option" where
  "bt_get m k = map_of m k"

fun bt_insert :: "'k::linorder \<Rightarrow> 'v \<Rightarrow> ('k, 'v) btree \<Rightarrow> ('k, 'v) btree" where
  "bt_insert k v [] = [(k, v)]"
| "bt_insert k v ((a, b) # m) =
     (if k < a then (k, v) # (a, b) # m
      else if k = a then (k, v) # m
      else (a, b) # bt_insert k v m)"

definition bt_remove :: "'k \<Rightarrow> ('k, 'v) btree \<Rightarrow> ('k, 'v) btree" where
  "bt_remove k m = filter (\<lambda>p. fst p \<noteq> k) m"

definition bt_keys :: "('k, 'v) btree \<Rightarrow> 'k list" where
  "bt_keys m = map fst m"

definition bt_values :: "('k, 'v) btree \<Rightarrow> 'v list" where
  "bt_values m = map snd m"

definition bt_contains :: "('k, 'v) btree \<Rightarrow> 'k \<Rightarrow> bool" where
  "bt_contains m k \<longleftrightarrow> bt_get m k \<noteq> None"

text \<open>\<open>entry(k).or_default()\<close> followed by a mutation of the value.\<close>

definition bt_upsert :: "'k::linorder \<Rightarrow> 'v \<Rightarrow> ('v \<Rightarrow> 'v) \<Rightarrow> ('k, 'v) btree \<Rightarrow> ('k, 'v) btree" where
  "bt_upsert k d f m = bt_insert k (f (case bt_get m k of None \<Rightarrow> d | Some v \<Rightarrow> v)) m"

text \<open>\<open>values_mut\<close> and \<open>retain\<close>.\<close>

definition bt_map_values :: "('v \<Rightarrow> 'w) \<Rightarrow> ('k, 'v) btree \<Rightarrow> ('k, 'w) btree" where
  "bt_map_values f m = map (\<lambda>(k, v). (k, f v)) m"

definition bt_retain :: "('k \<Rightarrow> 'v \<Rightarrow> bool) \<Rightarrow> ('k, 'v) btree \<Rightarrow> ('k, 'v) btree" where
  "bt_retain p m = filter (\<lambda>(k, v). p k v) m"

definition bt_ok :: "('k::linorder, 'v) btree \<Rightarrow> bool" where
  "bt_ok m \<longleftrightarrow> sorted_wrt (<) (map fst m)"

text \<open>A \<open>BTreeSet\<close> is the ascending list of its members.\<close>

type_synonym 'k bset = "'k list"

fun bs_insert :: "'k::linorder \<Rightarrow> 'k bset \<Rightarrow> 'k bset" where
  "bs_insert k [] = [k]"
| "bs_insert k (a # s) = (if k < a then k # a # s else if k = a then a # s else a # bs_insert k s)"

definition bs_remove :: "'k \<Rightarrow> 'k bset \<Rightarrow> 'k bset" where
  "bs_remove k s = filter (\<lambda>x. x \<noteq> k) s"

definition bs_of_list :: "'k::linorder list \<Rightarrow> 'k bset" where
  "bs_of_list xs = fold bs_insert xs []"

definition bs_ok :: "'k::linorder bset \<Rightarrow> bool" where
  "bs_ok s \<longleftrightarrow> sorted_wrt (<) s"

subsection \<open>The contract\<close>

locale ordered_map =
  fixes get :: "'m \<Rightarrow> 'k::linorder \<Rightarrow> 'v option"
    and insert :: "'k \<Rightarrow> 'v \<Rightarrow> 'm \<Rightarrow> 'm"
    and remove :: "'k \<Rightarrow> 'm \<Rightarrow> 'm"
    and keys :: "'m \<Rightarrow> 'k list"
    and ok :: "'m \<Rightarrow> bool"
  assumes get_insert: "get (insert k v m) k' = (if k' = k then Some v else get m k')"
    and get_remove: "get (remove k m) k' = (if k' = k then None else get m k')"
    and ok_insert: "ok m \<Longrightarrow> ok (insert k v m)"
    and ok_remove: "ok m \<Longrightarrow> ok (remove k m)"
    and keys_get: "k \<in> set (keys m) \<longleftrightarrow> get m k \<noteq> None"
    and keys_sorted: "ok m \<Longrightarrow> sorted_wrt (<) (keys m)"
begin

lemma keys_insert: "set (keys (insert k v m)) = set (keys m) \<union> {k}"
  using keys_get get_insert by (auto split: if_splits)

lemma keys_remove: "set (keys (remove k m)) = set (keys m) - {k}"
  using keys_get get_remove by (auto split: if_splits)

lemma get_remove_insert: "get (remove k (insert k v m)) = get (remove k m)"
  by (rule ext) (simp add: get_remove get_insert)

lemma insert_other: "k' \<noteq> k \<Longrightarrow> get (insert k v m) k' = get m k'"
  by (simp add: get_insert)

lemma keys_distinct: "ok m \<Longrightarrow> distinct (keys m)"
  using keys_sorted strict_sorted_iff by blast

end

subsection \<open>The model meets it\<close>

lemma bt_get_insert [simp]:
  "bt_get (bt_insert k v m) k' = (if k' = k then Some v else bt_get m k')"
  by (induction k v m rule: bt_insert.induct) (auto simp: bt_get_def)

lemma bt_get_remove [simp]:
  "bt_get (bt_remove k m) k' = (if k' = k then None else bt_get m k')"
  by (induction m) (auto simp: bt_get_def bt_remove_def)

lemma bt_keys_get: "k \<in> set (bt_keys m) \<longleftrightarrow> bt_get m k \<noteq> None"
  by (induction m) (auto simp: bt_get_def bt_keys_def)

lemma bt_keys_insert: "set (bt_keys (bt_insert k v m)) = Set.insert k (set (bt_keys m))"
  by (induction k v m rule: bt_insert.induct) (auto simp: bt_keys_def)

lemma bt_ok_insert [simp, intro]: "bt_ok m \<Longrightarrow> bt_ok (bt_insert k v m)"
proof (induction k v m rule: bt_insert.induct)
  case (1 k v)
  then show ?case by (simp add: bt_ok_def)
next
  case (2 k v a b m)
  then show ?case
    using bt_keys_insert [of k v m] by (auto simp: bt_ok_def bt_keys_def)
qed

lemma bt_ok_remove [simp, intro]: "bt_ok m \<Longrightarrow> bt_ok (bt_remove k m)"
  by (induction m) (auto simp: bt_ok_def bt_remove_def)

lemma bt_ok_retain [simp, intro]: "bt_ok m \<Longrightarrow> bt_ok (bt_retain p m)"
  by (induction m) (auto simp: bt_ok_def bt_retain_def)

lemma bt_ok_map_values [simp]: "bt_ok (bt_map_values f m) = bt_ok m"
proof -
  have "map fst (bt_map_values f m) = map fst m"
    by (auto simp: bt_map_values_def)
  then show ?thesis by (simp add: bt_ok_def)
qed

lemma bt_ok_Nil [simp]: "bt_ok []"
  by (simp add: bt_ok_def)

lemma bt_get_Nil [simp]: "bt_get [] k = None"
  by (simp add: bt_get_def)

lemma bt_get_map_values [simp]: "bt_get (bt_map_values f m) k = map_option f (bt_get m k)"
  by (induction m) (auto simp: bt_get_def bt_map_values_def)

lemma bt_get_retain:
  "bt_ok m \<Longrightarrow> bt_get (bt_retain p m) k =
     (case bt_get m k of None \<Rightarrow> None | Some v \<Rightarrow> if p k v then Some v else None)"
proof (induction m)
  case Nil
  then show ?case by (simp add: bt_retain_def)
next
  case (Cons e m)
  obtain a b where e: "e = (a, b)" by (cases e)
  have ok: "bt_ok m" and notin: "bt_get m a = None"
  proof -
    from Cons.prems show "bt_ok m" by (simp add: bt_ok_def e)
    have "a \<notin> set (bt_keys m)" using Cons.prems by (auto simp: bt_ok_def bt_keys_def e)
    then show "bt_get m a = None" by (simp add: bt_keys_get)
  qed
  show ?case
    using Cons.IH [OF ok] notin by (auto simp: e bt_retain_def bt_get_def split: option.splits)
qed

lemma bt_get_upsert [simp]:
  "bt_get (bt_upsert k d f m) k' =
     (if k' = k then Some (f (case bt_get m k of None \<Rightarrow> d | Some v \<Rightarrow> v)) else bt_get m k')"
  by (simp add: bt_upsert_def)

lemma bt_ok_upsert [simp, intro]: "bt_ok m \<Longrightarrow> bt_ok (bt_upsert k d f m)"
  by (simp add: bt_upsert_def)

lemma bt_mem_get: "bt_ok m \<Longrightarrow> (k, v) \<in> set m \<longleftrightarrow> bt_get m k = Some v"
  by (simp add: bt_get_def bt_ok_def map_of_eq_Some_iff strict_sorted_iff)

lemma bt_get_mem: "bt_get m k = Some v \<Longrightarrow> (k, v) \<in> set m"
  by (simp add: bt_get_def map_of_SomeD)

lemma bt_insert_mem: "p \<in> set (bt_insert k v m) \<Longrightarrow> p = (k, v) \<or> p \<in> set m"
  by (induction k v m rule: bt_insert.induct) (auto split: if_splits)

lemma bt_contains_iff: "bt_contains m k \<longleftrightarrow> (\<exists>v. bt_get m k = Some v)"
  by (auto simp: bt_contains_def)

interpretation bt: ordered_map bt_get bt_insert bt_remove bt_keys bt_ok
proof unfold_locales
  fix m :: "('a::linorder \<times> 'b) list" and k k' :: 'a and v :: 'b
  show "bt_get (bt_insert k v m) k' = (if k' = k then Some v else bt_get m k')" by simp
  show "bt_get (bt_remove k m) k' = (if k' = k then None else bt_get m k')" by simp
  show "bt_ok m \<Longrightarrow> bt_ok (bt_insert k v m)" by simp
  show "bt_ok m \<Longrightarrow> bt_ok (bt_remove k m)" by simp
  show "k \<in> set (bt_keys m) \<longleftrightarrow> bt_get m k \<noteq> None" by (rule bt_keys_get)
  show "bt_ok m \<Longrightarrow> sorted_wrt (<) (bt_keys m)" by (simp add: bt_ok_def bt_keys_def)
qed

subsection \<open>Ordered sets\<close>

lemma set_bs_insert [simp]: "set (bs_insert k s) = Set.insert k (set s)"
  by (induction k s rule: bs_insert.induct) auto

lemma bs_ok_insert [simp, intro]: "bs_ok s \<Longrightarrow> bs_ok (bs_insert k s)"
  by (induction k s rule: bs_insert.induct) (auto simp: bs_ok_def)

lemma set_bs_remove [simp]: "set (bs_remove k s) = set s - {k}"
  by (auto simp: bs_remove_def)

lemma bs_ok_remove [simp, intro]: "bs_ok s \<Longrightarrow> bs_ok (bs_remove k s)"
  by (simp add: bs_ok_def bs_remove_def sorted_wrt_filter)

lemma fold_bs_insert:
  "set (fold bs_insert xs s) = set xs \<union> set s"
  "bs_ok s \<Longrightarrow> bs_ok (fold bs_insert xs s)"
  by (induction xs arbitrary: s) auto

lemma set_bs_of_list [simp]: "set (bs_of_list xs) = set xs"
  by (simp add: bs_of_list_def fold_bs_insert)

lemma bs_ok_of_list [simp, intro]: "bs_ok (bs_of_list xs)"
  unfolding bs_of_list_def by (rule fold_bs_insert) (simp add: bs_ok_def)

lemma bs_ok_length: "bs_ok s \<Longrightarrow> length s = card (set s)"
  by (metis bs_ok_def distinct_card strict_sorted_iff)

end
