(* ===== verification/Rust_Str.thy ===== *)
theory Rust_Str
  imports Prelude
begin

section \<open>The parts of \<open>str\<close>, integer and float parsing the sources use\<close>

text \<open>
  A \<open>&str\<close> is the list of its UTF-8 bytes (\<^typ>\<open>string\<close>, one \<^typ>\<open>char\<close> per byte). This
  theory defines what the sources call on it: UTF-8 validation (\<open>std::str::from_utf8\<close>),
  iteration by scalar value (\<open>char_indices\<close>), Unicode whitespace, trimming, splitting,
  \<open>parse\<close> for the integer types, for \<open>f32\<close> (decimal to nearest-even binary32) and for
  \<open>IpAddr\<close> (whether it parses), and decimal formatting.
\<close>

subsection \<open>Bytes and UTF-8\<close>

definition byte_of_char :: "char \<Rightarrow> byte" where
  "byte_of_char c = word_of_nat (of_char c)"

definition char_of_byte :: "byte \<Rightarrow> char" where
  "char_of_byte b = char_of (unat b)"

definition as_bytes :: "string \<Rightarrow> byte list" where
  "as_bytes s = map byte_of_char s"

abbreviation ccode :: "char \<Rightarrow> nat" where
  "ccode c \<equiv> of_char c"

definition cont_byte :: "nat \<Rightarrow> bool" where
  "cont_byte b \<longleftrightarrow> 128 \<le> b \<and> b \<le> 191"

text \<open>Well-formed UTF-8 byte sequences (Unicode table 3-7), on byte values.\<close>

fun utf8_seq :: "nat list \<Rightarrow> bool" where
  "utf8_seq [] = True"
| "utf8_seq [a] = (a < 128)"
| "utf8_seq [a, b] =
     (if a < 128 then utf8_seq [b] else 194 \<le> a \<and> a \<le> 223 \<and> cont_byte b)"
| "utf8_seq [a, b, c] =
     (if a < 128 then utf8_seq [b, c]
      else if a \<le> 223 then 194 \<le> a \<and> cont_byte b \<and> utf8_seq [c]
      else (a = 224 \<and> 160 \<le> b \<and> b \<le> 191 \<or> a = 237 \<and> 128 \<le> b \<and> b \<le> 159
            \<or> (225 \<le> a \<and> a \<le> 236 \<or> a = 238 \<or> a = 239) \<and> cont_byte b)
           \<and> cont_byte c)"
| "utf8_seq (a # b # c # d # bs) =
     (if a < 128 then utf8_seq (b # c # d # bs)
      else if a \<le> 223 then 194 \<le> a \<and> cont_byte b \<and> utf8_seq (c # d # bs)
      else if a \<le> 239 then
        (a = 224 \<and> 160 \<le> b \<and> b \<le> 191 \<or> a = 237 \<and> 128 \<le> b \<and> b \<le> 159
         \<or> (225 \<le> a \<and> a \<le> 236 \<or> a = 238 \<or> a = 239) \<and> cont_byte b)
        \<and> cont_byte c \<and> utf8_seq (d # bs)
      else (a = 240 \<and> 144 \<le> b \<and> b \<le> 191 \<or> a = 244 \<and> 128 \<le> b \<and> b \<le> 143
            \<or> 241 \<le> a \<and> a \<le> 243 \<and> cont_byte b)
           \<and> cont_byte c \<and> cont_byte d \<and> utf8_seq bs)"

definition utf8_ok :: "string \<Rightarrow> bool" where
  "utf8_ok s = utf8_seq (map of_char s)"

text \<open>\<open>std::str::from_utf8\<close>: the string with these bytes, or an error.\<close>

definition from_utf8 :: "byte list \<Rightarrow> string option" where
  "from_utf8 bs = (if utf8_seq (map unat bs) then Some (map char_of_byte bs) else None)"

text \<open>The scalar values of a string, each as its own UTF-8 encoding.\<close>

definition utf8_width :: "char \<Rightarrow> nat" where
  "utf8_width c = (if ccode c < 128 then 1 else if ccode c < 224 then 2
                   else if ccode c < 240 then 3 else (4::nat))"

function chars :: "string \<Rightarrow> string list" where
  "chars [] = []"
| "chars (c # cs) = take (utf8_width c) (c # cs) # chars (drop (utf8_width c) (c # cs))"
  by pat_completeness auto
termination
  by (relation "measure length") (auto simp: utf8_width_def)

fun char_indices_from :: "nat \<Rightarrow> string list \<Rightarrow> (nat \<times> string) list" where
  "char_indices_from i [] = []"
| "char_indices_from i (ch # chs) = (i, ch) # char_indices_from (i + length ch) chs"

definition char_indices :: "string \<Rightarrow> (nat \<times> string) list" where
  "char_indices s = char_indices_from 0 (chars s)"

subsection \<open>Character classes\<close>

text \<open>\<open>char::is_whitespace\<close>: the Unicode White\_Space property, by encoding.\<close>

definition is_whitespace :: "string \<Rightarrow> bool" where
  "is_whitespace ch =
     (let cs = map ccode ch in
      (case cs of
         [a] \<Rightarrow> 9 \<le> a \<and> a \<le> 13 \<or> a = 32
       | [a, b] \<Rightarrow> a = 194 \<and> (b = 133 \<or> b = 160)
       | [a, b, c] \<Rightarrow>
           a = 225 \<and> b = 154 \<and> c = 128
           \<or> a = 226 \<and> b = 128 \<and> (128 \<le> c \<and> c \<le> 138 \<or> c = 168 \<or> c = 169 \<or> c = 175)
           \<or> a = 226 \<and> b = 129 \<and> c = 159
           \<or> a = 227 \<and> b = 128 \<and> c = (128::nat)
       | _ \<Rightarrow> False))"

definition is_ascii_digit :: "char \<Rightarrow> bool" where
  "is_ascii_digit c \<longleftrightarrow> 48 \<le> ccode c \<and> ccode c \<le> (57::nat)"

definition is_ascii_alphanumeric :: "char \<Rightarrow> bool" where
  "is_ascii_alphanumeric c \<longleftrightarrow>
     is_ascii_digit c \<or> 65 \<le> ccode c \<and> ccode c \<le> (90::nat) \<or> 97 \<le> ccode c \<and> ccode c \<le> (122::nat)"

definition to_ascii_uppercase :: "string \<Rightarrow> string" where
  "to_ascii_uppercase s =
     map (\<lambda>c. if 97 \<le> ccode c \<and> ccode c \<le> (122::nat) then char_of (ccode c - (32::nat)) else c) s"

definition to_ascii_lowercase :: "string \<Rightarrow> string" where
  "to_ascii_lowercase s =
     map (\<lambda>c. if 65 \<le> ccode c \<and> ccode c \<le> (90::nat) then char_of (ccode c + (32::nat)) else c) s"

subsection \<open>Trimming, searching and splitting\<close>

definition trim :: "string \<Rightarrow> string" where
  "trim s = concat (rev (dropWhile is_whitespace (rev (dropWhile is_whitespace (chars s)))))"

fun split_ws :: "string \<Rightarrow> string list \<Rightarrow> string list" where
  "split_ws w [] = (if w = [] then [] else [w])"
| "split_ws w (ch # chs) =
     (if is_whitespace ch then (if w = [] then split_ws [] chs else w # split_ws [] chs)
      else split_ws (w @ ch) chs)"

definition split_whitespace :: "string \<Rightarrow> string list" where
  "split_whitespace s = split_ws [] (chars s)"

text \<open>\<open>str::find\<close> of an ASCII character and of a substring, \<open>rfind\<close>, \<open>split_once\<close>.\<close>

definition find_char :: "char \<Rightarrow> string \<Rightarrow> nat option" where
  "find_char c s = position (\<lambda>x. x = c) s"

definition rfind_char :: "char \<Rightarrow> string \<Rightarrow> nat option" where
  "rfind_char c s = map_option (\<lambda>i. length s - 1 - i) (position (\<lambda>x. x = c) (rev s))"

definition is_prefix_of :: "string \<Rightarrow> string \<Rightarrow> bool" where
  "is_prefix_of p s \<longleftrightarrow> take (length p) s = p"

definition is_suffix_of :: "string \<Rightarrow> string \<Rightarrow> bool" where
  "is_suffix_of p s \<longleftrightarrow> length p \<le> length s \<and> drop (length s - length p) s = p"

fun find_sub :: "string \<Rightarrow> string \<Rightarrow> nat option" where
  "find_sub p [] = (if p = [] then Some 0 else None)"
| "find_sub p (c # s) = (if is_prefix_of p (c # s) then Some 0 else map_option Suc (find_sub p s))"

definition split_once :: "string \<Rightarrow> string \<Rightarrow> (string \<times> string) option" where
  "split_once p s = map_option (\<lambda>i. (take i s, drop (i + length p) s)) (find_sub p s)"

definition strip_prefix :: "string \<Rightarrow> string \<Rightarrow> string option" where
  "strip_prefix p s = (if is_prefix_of p s then Some (drop (length p) s) else None)"

definition strip_suffix :: "string \<Rightarrow> string \<Rightarrow> string option" where
  "strip_suffix p s = (if is_suffix_of p s then Some (take (length s - length p) s) else None)"

text \<open>\<open>s.split(c)\<close>: always at least one piece.\<close>

fun split_char :: "char \<Rightarrow> string \<Rightarrow> string list" where
  "split_char c [] = [[]]"
| "split_char c (x # s) =
     (if x = c then [] # split_char c s
      else (case split_char c s of [] \<Rightarrow> [[x]] | p # ps \<Rightarrow> (x # p) # ps))"

subsection \<open>Numbers\<close>

definition digit_val :: "char \<Rightarrow> nat" where
  "digit_val c = ccode c - 48"

fun digits_val :: "nat \<Rightarrow> string \<Rightarrow> nat" where
  "digits_val n [] = n"
| "digits_val n (c # cs) = digits_val (10 * n + digit_val c) cs"

text \<open>Digits only, at least one.\<close>

definition parse_digits :: "string \<Rightarrow> nat option" where
  "parse_digits s = (if s \<noteq> [] \<and> list_all is_ascii_digit s then Some (digits_val 0 s) else None)"

definition parse_unsigned :: "nat \<Rightarrow> string \<Rightarrow> nat option" where
  "parse_unsigned bound s =
     (let body = (case s of c # cs \<Rightarrow> if c = CHR ''+'' then cs else s | [] \<Rightarrow> s) in
      case parse_digits body of None \<Rightarrow> None | Some n \<Rightarrow> if n < bound then Some n else None)"

definition parse_u64 :: "string \<Rightarrow> nat option" where "parse_u64 = parse_unsigned (2 ^ 64)"
definition parse_u32 :: "string \<Rightarrow> nat option" where "parse_u32 = parse_unsigned (2 ^ 32)"
definition parse_u8 :: "string \<Rightarrow> nat option" where "parse_u8 = parse_unsigned (2 ^ 8)"

definition parse_i64 :: "string \<Rightarrow> int option" where
  "parse_i64 s =
     (let (neg, body) =
        (case s of c # cs \<Rightarrow> if c = CHR ''-'' then (True, cs)
                            else if c = CHR ''+'' then (False, cs) else (False, s)
                 | [] \<Rightarrow> (False, s)) in
      case parse_digits body of
        None \<Rightarrow> None
      | Some n \<Rightarrow> (let v = (if neg then - int n else int n) in if in_i64 v then Some v else None))"

text \<open>Decimal formatting (\<open>to_string\<close> of an integer).\<close>

fun show_nat :: "nat \<Rightarrow> string" where
  "show_nat n = (if n < 10 then [char_of (48 + n)] else show_nat (n div 10) @ [char_of (48 + n mod 10)])"

declare show_nat.simps [simp del]

definition show_int :: "int \<Rightarrow> string" where
  "show_int i = (if i < 0 then CHR ''-'' # show_nat (nat (- i)) else show_nat (nat i))"

subsection \<open>Bytes and strings round-trip\<close>

lemma of_char_less: "of_char c < (256::nat)"
  using nat_of_char_less_256 by simp

lemma unat_byte_of_char [simp]: "unat (byte_of_char c) = of_char c"
  by (simp add: byte_of_char_def unat_of_nat of_char_less take_bit_eq_mod)

lemma char_of_byte_of_char [simp]: "char_of_byte (byte_of_char c) = c"
  by (simp add: char_of_byte_def)

lemma byte_of_char_of_byte [simp]: "byte_of_char (char_of_byte b) = b"
proof -
  have "unat b < 256" using unsigned_less [of b] by simp
  then have "of_char (char_of (unat b) :: char) = unat b" by simp
  then show ?thesis by (simp add: byte_of_char_def char_of_byte_def)
qed

lemma length_as_bytes [simp]: "length (as_bytes s) = length s"
  by (simp add: as_bytes_def)

lemma from_utf8_as_bytes [simp]: "utf8_ok s \<Longrightarrow> from_utf8 (as_bytes s) = Some s"
  by (simp add: from_utf8_def utf8_ok_def as_bytes_def comp_def)

lemma from_utf8_Some: "from_utf8 bs = Some s \<longleftrightarrow> utf8_ok s \<and> as_bytes s = bs"
proof
  assume h: "from_utf8 bs = Some s"
  then have s: "s = map char_of_byte bs" and v: "utf8_seq (map unat bs)"
    by (auto simp: from_utf8_def split: if_splits)
  have "map (of_char :: char \<Rightarrow> nat) s = map unat bs"
  proof -
    have "\<And>b. of_char (char_of_byte b) = unat b"
      by (metis byte_of_char_of_byte unat_byte_of_char)
    then show ?thesis by (simp add: s)
  qed
  then show "utf8_ok s \<and> as_bytes s = bs"
    using v by (simp add: utf8_ok_def) (simp add: s as_bytes_def comp_def)
next
  assume "utf8_ok s \<and> as_bytes s = bs"
  then show "from_utf8 bs = Some s" by auto
qed

subsection \<open>Decimal rendering is injective\<close>

lemma digits_val_append: "digits_val n (xs @ ys) = digits_val (digits_val n xs) ys"
  by (induction n xs rule: digits_val.induct) auto

lemma digit_char: "d < 10 \<Longrightarrow> is_ascii_digit (char_of (48 + d)) \<and> digit_val (char_of (48 + d)) = d"
  by (simp add: is_ascii_digit_def digit_val_def)

lemma show_nat_digits: "show_nat n \<noteq> [] \<and> list_all is_ascii_digit (show_nat n) \<and> digits_val 0 (show_nat n) = n"
proof (induction n rule: show_nat.induct)
  case (1 n)
  show ?case
  proof (cases "n < 10")
    case True
    then show ?thesis using digit_char [of n] by (simp add: show_nat.simps)
  next
    case False
    then show ?thesis
      using 1 digit_char [of "n mod 10"]
      by (subst (1 2 3) show_nat.simps) (simp add: digits_val_append)
  qed
qed

lemma parse_digits_show_nat [simp]: "parse_digits (show_nat n) = Some n"
  by (simp add: parse_digits_def show_nat_digits)

lemma show_nat_inject [simp]: "show_nat m = show_nat n \<longleftrightarrow> m = n"
  by (metis parse_digits_show_nat option.inject)

lemma show_int_inject [simp]: "show_int a = show_int b \<longleftrightarrow> a = b"
proof -
  have d: "show_nat n \<noteq> CHR ''-'' # cs" for n cs
  proof
    assume "show_nat n = CHR ''-'' # cs"
    then show False using show_nat_digits [of n] by (simp add: is_ascii_digit_def)
  qed
  show ?thesis by (auto simp: show_int_def d d [symmetric] dest: sym)
qed

end
