(* ===== verification/Durable.thy ===== *)
theory Durable
  imports Rust_Str
begin

text \<open>
  Models \<open>growlerdb-core/src/durable.rs\<close>: the crash-safe replacement of a file (\<open>write\<close>) and the variant that
  keeps the previous contents beside it (\<open>write_keeping_prev\<close>). The file system is the directory the file
  lives in: inodes with their contents, the inodes whose contents were synced, and every state the
  directory had since it was last synced. After a crash the directory is one of those states and an
  inode that was not synced holds anything (\<open>crash\<close>). Every system call may fail; a run is the list of
  states it goes through with its result, so that a crash can be placed between any two calls.
\<close>

subsection \<open>The file system\<close>

type_synonym inode = nat

type_synonym directory = "string \<rightharpoonup> inode"

record fs =
  fs_data :: "inode \<Rightarrow> byte list"
  fs_synced :: "inode list"
  fs_next :: inode
  fs_dirs :: "directory list"

text \<open>The directory as a running process sees it: the newest of its states.\<close>

definition fs_dir :: "fs \<Rightarrow> directory" where
  "fs_dir s = hd (fs_dirs s)"

definition read_file :: "fs \<Rightarrow> string \<Rightarrow> byte list option" where
  "read_file s n = map_option (fs_data s) (fs_dir s n)"

definition create_file :: "string \<Rightarrow> fs \<Rightarrow> fs \<times> inode" where
  "create_file n s =
     (case fs_dir s n of
        Some i \<Rightarrow> (s\<lparr>fs_data := (fs_data s)(i := []), fs_synced := removeAll i (fs_synced s)\<rparr>, i)
      | None \<Rightarrow>
          (s\<lparr>fs_data := (fs_data s)(fs_next s := []), fs_next := fs_next s + 1,
             fs_dirs := (fs_dir s)(n \<mapsto> fs_next s) # fs_dirs s\<rparr>, fs_next s))"

definition append_file :: "inode \<Rightarrow> byte list \<Rightarrow> fs \<Rightarrow> fs" where
  "append_file i bs s =
     s\<lparr>fs_data := (fs_data s)(i := fs_data s i @ bs), fs_synced := removeAll i (fs_synced s)\<rparr>"

definition sync_file :: "inode \<Rightarrow> fs \<Rightarrow> fs" where
  "sync_file i s = s\<lparr>fs_synced := i # fs_synced s\<rparr>"

definition rename_file :: "string \<Rightarrow> string \<Rightarrow> fs \<Rightarrow> fs" where
  "rename_file a b s = s\<lparr>fs_dirs := (fs_dir s)(b := fs_dir s a, a := None) # fs_dirs s\<rparr>"

definition remove_file :: "string \<Rightarrow> fs \<Rightarrow> fs" where
  "remove_file n s = s\<lparr>fs_dirs := (fs_dir s)(n := None) # fs_dirs s\<rparr>"

definition link_file :: "string \<Rightarrow> string \<Rightarrow> fs \<Rightarrow> fs" where
  "link_file a b s = s\<lparr>fs_dirs := (fs_dir s)(b := fs_dir s a) # fs_dirs s\<rparr>"

definition sync_dir :: "fs \<Rightarrow> fs" where
  "sync_dir s = s\<lparr>fs_dirs := [fs_dir s]\<rparr>"

text \<open>A power loss: \<open>pick\<close> says which of the directory's states is on the disk, \<open>junk\<close> what an inode holds that was
  not synced. What is on the disk after it stays there.\<close>

definition crash :: "nat \<Rightarrow> (inode \<Rightarrow> byte list) \<Rightarrow> fs \<Rightarrow> fs" where
  "crash pick junk s =
     s\<lparr>fs_data := (\<lambda>i. if i \<in> set (fs_synced s) then fs_data s i else junk i),
       fs_synced := [0..<fs_next s], fs_dirs := [fs_dirs s ! (pick mod length (fs_dirs s))]\<rparr>"

subsection \<open>Operations\<close>

datatype io_error = ReadFailed | CreateFailed | WriteFailed | SyncFailed | RenameFailed | DirSyncFailed

text \<open>The answers of the system calls of one \<open>write\<close>; \<open>an_write\<close> is \<open>Some k\<close> when the write fails after \<open>k\<close> bytes.\<close>

record write_answers =
  an_create :: bool
  an_write :: "nat option"
  an_sync :: bool
  an_rename :: bool
  an_dir :: bool
  an_unlink :: bool

type_synonym run = "fs list \<times> (io_error + unit)"

definition tmp_name :: "nat \<Rightarrow> nat \<Rightarrow> string \<Rightarrow> string" where
  "tmp_name pid nonce path = ''.'' @ path @ ''.'' @ show_nat pid @ ''.'' @ show_nat nonce @ ''.tmp''"

text \<open>\<open>let _ = remove_file(tmp)\<close>: its result is ignored.\<close>

definition discard_tmp :: "bool \<Rightarrow> string \<Rightarrow> fs \<Rightarrow> fs" where
  "discard_tmp ok tmp s = (if ok \<and> fs_dir s tmp \<noteq> None then remove_file tmp s else s)"

definition durable_write :: "write_answers \<Rightarrow> nat \<Rightarrow> nat \<Rightarrow> string \<Rightarrow> byte list \<Rightarrow> fs \<Rightarrow> run" where
  "durable_write ans pid nonce path bytes s =
     (let tmp = tmp_name pid nonce path; clean = discard_tmp (an_unlink ans) tmp in
      if \<not> an_create ans then ([clean s], Inl CreateFailed)
      else
        let (s1, i) = create_file tmp s in
        case an_write ans of
          Some k \<Rightarrow> (let s2 = append_file i (take k bytes) s1 in ([s1, s2, clean s2], Inl WriteFailed))
        | None \<Rightarrow>
            let s2 = append_file i bytes s1 in
            if \<not> an_sync ans then ([s1, s2, clean s2], Inl SyncFailed)
            else
              let s3 = sync_file i s2 in
              if \<not> an_rename ans then ([s1, s2, s3, clean s3], Inl RenameFailed)
              else
                let s4 = rename_file tmp path s3 in
                if \<not> an_dir ans then ([s1, s2, s3, s4], Inl DirSyncFailed)
                else ([s1, s2, s3, s4, sync_dir s4], Inr ()))"

definition prev_path :: "string \<Rightarrow> string" where
  "prev_path path = path @ ''.prev''"

text \<open>The answers of \<open>write_keeping_prev\<close>: whether the old copy can be removed, whether hard links work, whether
  the current file can be read for the fallback copy, and the answers of that copy's \<open>write\<close>.\<close>

record keep_answers =
  ka_remove :: bool
  ka_link :: bool
  ka_read :: bool
  ka_copy :: write_answers

definition write_keeping_prev ::
    "keep_answers \<Rightarrow> write_answers \<Rightarrow> nat \<Rightarrow> nat \<Rightarrow> string \<Rightarrow> byte list \<Rightarrow> fs \<Rightarrow> run" where
  "write_keeping_prev ka ans pid nonce path bytes s =
     (case read_file s path of
        None \<Rightarrow> durable_write ans pid nonce path bytes s
      | Some current \<Rightarrow>
          let prev = prev_path path; s1 = discard_tmp (ka_remove ka) prev s in
          if ka_link ka \<and> fs_dir s1 prev = None then
            (let s2 = link_file path prev s1; (ts, r) = durable_write ans pid nonce path bytes s2 in (s1 # s2 # ts, r))
          else if ka_read ka then
            (case durable_write (ka_copy ka) pid nonce prev current s1 of
               (ts, Inl e) \<Rightarrow> (s1 # ts, Inl e)
             | (ts, Inr _) \<Rightarrow>
                 (let (us, r) = durable_write ans pid (nonce + 1) path bytes (last ts) in (s1 # ts @ us, r)))
          else
            (let (ts, r) = durable_write ans pid nonce path bytes s1 in (s1 # ts, r)))"

subsection \<open>The invariant of the directory\<close>

definition is_tmp :: "string \<Rightarrow> bool" where
  "is_tmp n \<longleftrightarrow> take 4 (rev n) = ''pmt.''"

text \<open>No other name of \<open>e\<close> shares the inode that a temporary name has in \<open>d\<close>.\<close>

definition private_tmps :: "directory \<Rightarrow> directory \<Rightarrow> bool" where
  "private_tmps d e \<longleftrightarrow> (\<forall>n m i. d n = Some i \<longrightarrow> is_tmp n \<longrightarrow> e m = Some i \<longrightarrow> m = n)"

definition fs_ok :: "fs \<Rightarrow> bool" where
  "fs_ok s \<longleftrightarrow>
     fs_dirs s \<noteq> [] \<and> (\<forall>i \<in> set (fs_synced s). i < fs_next s)
     \<and> (\<forall>d \<in> set (fs_dirs s). private_tmps d d \<and> private_tmps (fs_dir s) d
          \<and> (\<forall>n i. d n = Some i \<longrightarrow> i < fs_next s \<and> (is_tmp n \<or> i \<in> set (fs_synced s))))"

text \<open>What a name can hold after a crash now.\<close>

definition possible :: "fs \<Rightarrow> string \<Rightarrow> byte list option set" where
  "possible s n = (\<lambda>d. map_option (fs_data s) (d n)) ` set (fs_dirs s)"

lemma is_tmp_tmp_name [simp]: "is_tmp (tmp_name pid nonce path)"
  by (simp add: is_tmp_def tmp_name_def)

lemma is_tmp_prev_path [simp]: "\<not> is_tmp (prev_path path)"
  by (simp add: is_tmp_def prev_path_def)

lemma private_tmpsD: "private_tmps d e \<Longrightarrow> d n = Some i \<Longrightarrow> is_tmp n \<Longrightarrow> e m = Some i \<Longrightarrow> m = n"
  by (auto simp: private_tmps_def)

lemma fs_okD:
  assumes "fs_ok s"
  shows "fs_dirs s \<noteq> []" and "fs_dir s \<in> set (fs_dirs s)" and "\<And>i. i \<in> set (fs_synced s) \<Longrightarrow> i < fs_next s"
    and "\<And>d n i. d \<in> set (fs_dirs s) \<Longrightarrow> d n = Some i \<Longrightarrow> i < fs_next s"
    and "\<And>d n i. d \<in> set (fs_dirs s) \<Longrightarrow> d n = Some i \<Longrightarrow> \<not> is_tmp n \<Longrightarrow> i \<in> set (fs_synced s)"
    and "\<And>d. d \<in> set (fs_dirs s) \<Longrightarrow> private_tmps d d"
    and "\<And>d. d \<in> set (fs_dirs s) \<Longrightarrow> private_tmps (fs_dir s) d"
  using assms by (simp_all add: fs_ok_def fs_dir_def) blast

lemma fs_ok_current:
  assumes "fs_ok s" and "fs_dir s n = Some i"
  shows "i < fs_next s" and "is_tmp n \<or> i \<in> set (fs_synced s)"
  using fs_okD(4,5) [OF assms(1) fs_okD(2) [OF assms(1)] assms(2)] by blast+

lemma read_fold: "map_option (fs_data s) (fs_dir s n) = read_file s n"
  by (simp add: read_file_def)

lemma read_possible: "fs_ok s \<Longrightarrow> read_file s n \<in> possible s n"
  by (auto simp: read_file_def possible_def fs_okD(2))

lemma crash_ok:
  assumes "fs_ok s"
  shows "fs_ok (crash pick junk s)"
proof -
  let ?d = "fs_dirs s ! (pick mod length (fs_dirs s))"
  have "?d \<in> set (fs_dirs s)" using fs_okD(1) [OF assms] by simp
  then show ?thesis
    using fs_okD(4,6) [OF assms, of ?d] by (auto simp: fs_ok_def crash_def fs_dir_def)
qed

lemma read_crash:
  assumes "fs_ok s" and "\<not> is_tmp n"
  shows "read_file (crash pick junk s) n \<in> possible s n"
proof -
  let ?d = "fs_dirs s ! (pick mod length (fs_dirs s))"
  have d: "?d \<in> set (fs_dirs s)" using fs_okD(1) [OF assms(1)] by simp
  have "read_file (crash pick junk s) n = map_option (fs_data s) (?d n)"
    using fs_okD(5) [OF assms(1) d _ assms(2)] by (cases "?d n") (auto simp: read_file_def crash_def fs_dir_def)
  with d show ?thesis by (auto simp: possible_def)
qed

subsection \<open>Steps\<close>

text \<open>A step that no name but temporary ones can notice, now or after a crash.\<close>

definition hidden :: "fs \<Rightarrow> fs \<Rightarrow> bool" where
  "hidden s t \<longleftrightarrow>
     fs_ok t \<and> (\<forall>n. \<not> is_tmp n \<longrightarrow> read_file t n = read_file s n \<and> possible t n = possible s n)"

lemma hidden_refl: "fs_ok s \<Longrightarrow> hidden s s"
  by (simp add: hidden_def)

lemma hidden_trans: "hidden s t \<Longrightarrow> hidden t u \<Longrightarrow> hidden s u"
  by (simp add: hidden_def)

lemma push_dir_reads:
  "read_file (s\<lparr>fs_dirs := d # fs_dirs s\<rparr>) n = map_option (fs_data s) (d n)"
  "possible (s\<lparr>fs_dirs := d # fs_dirs s\<rparr>) n = insert (map_option (fs_data s) (d n)) (possible s n)"
  by (simp_all add: read_file_def fs_dir_def possible_def)

lemma push_dir_ok:
  assumes "fs_ok s" and "private_tmps d d" and "\<And>e. e \<in> set (fs_dirs s) \<Longrightarrow> private_tmps d e"
    and "\<And>n i. d n = Some i \<Longrightarrow> i < fs_next s \<and> (is_tmp n \<or> i \<in> set (fs_synced s))"
  shows "fs_ok (s\<lparr>fs_dirs := d # fs_dirs s\<rparr>)"
  using assms by (auto simp: fs_ok_def fs_dir_def)

text \<open>Changing the contents of a temporary file.\<close>

lemma touch_tmp_hidden:
  assumes ok: "fs_ok s" and n: "fs_dir s n = Some i" "is_tmp n"
  shows "hidden s (s\<lparr>fs_data := (fs_data s)(i := bs), fs_synced := removeAll i (fs_synced s)\<rparr>)"
proof -
  have other: "m = n" if "d \<in> set (fs_dirs s)" "d m = Some i" for d m
    using private_tmpsD [OF fs_okD(7) [OF ok that(1)] n that(2)] .
  then have "map_option ((fs_data s)(i := bs)) (d m) = map_option (fs_data s) (d m)"
    if "d \<in> set (fs_dirs s)" "\<not> is_tmp m" for d m
    using that n(2) by (cases "d m") auto
  moreover have "is_tmp m \<or> j \<in> set (removeAll i (fs_synced s))" if "d \<in> set (fs_dirs s)" "d m = Some j" for d m j
    using fs_okD(5) [OF ok that] other [OF that(1)] that(2) n(2) by (cases "j = i") auto
  then have "fs_ok (s\<lparr>fs_data := (fs_data s)(i := bs), fs_synced := removeAll i (fs_synced s)\<rparr>)"
    using fs_okD(1,3,4,6,7) [OF ok] by (simp add: fs_ok_def fs_dir_def)
  ultimately show ?thesis
    using fs_okD(2) [OF ok] by (auto simp: hidden_def read_file_def possible_def fs_dir_def image_iff)
qed

lemma create_tmp:
  assumes ok: "fs_ok s" and n: "is_tmp n" and c: "create_file n s = (t, i)"
  shows "hidden s t" and "fs_dir t n = Some i" and "fs_data t i = []"
proof -
  show "fs_dir t n = Some i" "fs_data t i = []"
    using c by (auto simp: create_file_def fs_dir_def split: option.splits)
  show "hidden s t"
  proof (cases "fs_dir s n")
    case (Some j)
    with c touch_tmp_hidden [OF ok Some n, of "[]"] show ?thesis by (auto simp: create_file_def)
  next
    case None
    let ?d = "(fs_dir s)(n \<mapsto> fs_next s)"
    let ?u = "s\<lparr>fs_data := (fs_data s)(fs_next s := []), fs_next := fs_next s + 1\<rparr>"
    have t: "t = ?u\<lparr>fs_dirs := ?d # fs_dirs ?u\<rparr>" using c None by (auto simp: create_file_def)
    have old: "i < fs_next s" if "d \<in> set (fs_dirs s)" "d m = Some i" for d m i
      using fs_okD(4) [OF ok that] .
    have u: "fs_ok ?u" using ok by (fastforce simp: fs_ok_def fs_dir_def)
    have p: "private_tmps ?d e" if e: "e \<in> insert ?d (set (fs_dirs s))" for e
    proof -
      have "m = n'" if d: "?d n' = Some j" "is_tmp n'" "e m = Some j" for n' m j
      proof (cases "n' = n")
        case True
        with d e old [of e m j] old [OF fs_okD(2) [OF ok], of m j] show ?thesis by (auto split: if_splits)
      next
        case False
        then have j: "fs_dir s n' = Some j" "j < fs_next s" using d old [OF fs_okD(2) [OF ok]] by auto
        then have "\<exists>e' \<in> set (fs_dirs s). e' m = Some j"
          using d(3) e fs_okD(2) [OF ok] by (auto split: if_splits)
        then show ?thesis using private_tmpsD [OF fs_okD(7) [OF ok] j(1) d(2)] by blast
      qed
      then show ?thesis by (auto simp: private_tmps_def)
    qed
    have "fs_ok t" unfolding t
      using u p fs_okD(2,5) [OF ok] old n by (intro push_dir_ok) (auto split: if_splits simp: less_Suc_eq)
    moreover have "map_option ((fs_data s)(fs_next s := [])) (d m) = map_option (fs_data s) (d m)"
      if "d \<in> set (fs_dirs s)" for d m
      using old [OF that] by (cases "d m") auto
    ultimately show ?thesis
      using fs_okD(2) [OF ok] n unfolding t
      by (auto simp: hidden_def push_dir_reads read_file_def possible_def fs_dir_def image_iff)
  qed
qed

lemma append_tmp:
  "fs_ok s \<Longrightarrow> fs_dir s n = Some i \<Longrightarrow> is_tmp n \<Longrightarrow> hidden s (append_file i bs s)"
  unfolding append_file_def by (rule touch_tmp_hidden)

lemma sync_tmp:
  assumes "fs_ok s" and "fs_dir s n = Some i"
  shows "hidden s (sync_file i s)"
  using assms fs_okD(4) [OF assms(1) fs_okD(2) [OF assms(1)] assms(2)]
  by (auto simp: hidden_def sync_file_def fs_ok_def read_file_def possible_def fs_dir_def)

lemma remove_ok:
  assumes "fs_ok s"
  shows "fs_ok (remove_file n s)"
proof -
  let ?d = "(fs_dir s)(n := None)"
  have p: "private_tmps ?d e" if "private_tmps (fs_dir s) e" for e
    using that by (auto simp: private_tmps_def)
  have "private_tmps ?d ?d"
    using p [OF fs_okD(7) [OF assms fs_okD(2) [OF assms]]] by (auto simp: private_tmps_def)
  then show ?thesis unfolding remove_file_def
    using p [OF fs_okD(7) [OF assms]] fs_ok_current [OF assms]
    by (intro push_dir_ok [OF assms]) (auto split: if_splits)
qed

lemma discard_tmp_hidden: "fs_ok s \<Longrightarrow> is_tmp n \<Longrightarrow> hidden s (discard_tmp ok n s)"
  using remove_ok [of s n] read_possible [of s]
  by (auto simp: hidden_def discard_tmp_def remove_file_def push_dir_reads read_fold insert_absorb)

text \<open>The states after a replacement of \<open>path\<close>: visible, or visible and certain to survive.\<close>

definition replaced :: "string \<Rightarrow> byte list \<Rightarrow> fs \<Rightarrow> fs \<Rightarrow> bool" where
  "replaced path bs s t \<longleftrightarrow>
     fs_ok t \<and> (\<forall>n. \<not> is_tmp n \<longrightarrow>
       read_file t n = (if n = path then Some bs else read_file s n)
       \<and> possible t n = (if n = path then insert (Some bs) (possible s n) else possible s n))"

definition settled :: "fs \<Rightarrow> bool" where
  "settled s \<longleftrightarrow> (\<forall>n. \<not> is_tmp n \<longrightarrow> possible s n = {read_file s n})"

definition set_file :: "string \<Rightarrow> byte list \<Rightarrow> fs \<Rightarrow> fs \<Rightarrow> bool" where
  "set_file path bs s t \<longleftrightarrow>
     fs_ok t \<and> settled t
     \<and> (\<forall>n. \<not> is_tmp n \<longrightarrow> read_file t n = (if n = path then Some bs else read_file s n))"

lemma rename_tmp:
  assumes ok: "fs_ok s" and tmp: "fs_dir s tmp = Some i" "is_tmp tmp" and i: "i \<in> set (fs_synced s)"
    and path: "\<not> is_tmp path"
  shows "replaced path (fs_data s i) s (rename_file tmp path s)"
proof -
  let ?d = "(fs_dir s)(path := fs_dir s tmp, tmp := None)"
  have cur: "private_tmps (fs_dir s) e" if "e \<in> set (fs_dirs s)" for e
    using fs_okD(7) [OF ok that] .
  have p: "private_tmps ?d e" if "private_tmps (fs_dir s) e" for e
    using that path by (auto simp: private_tmps_def)
  have alone: "n = tmp" if "fs_dir s n = Some i" for n
    using private_tmpsD [OF cur [OF fs_okD(2) [OF ok]] tmp that] .
  have "private_tmps ?d ?d"
    unfolding private_tmps_def
  proof (intro allI impI)
    fix n m j assume nm: "?d n = Some j" "is_tmp n" "?d m = Some j"
    then have n: "n \<noteq> tmp" "fs_dir s n = Some j" using path by (auto split: if_splits)
    then have "j \<noteq> i" using alone by blast
    then have "fs_dir s m = Some j" using nm(3) tmp by (auto split: if_splits)
    then show "m = n" using private_tmpsD [OF cur [OF fs_okD(2) [OF ok]] n(2) nm(2)] by blast
  qed
  moreover have "j < fs_next s \<and> (is_tmp n \<or> j \<in> set (fs_synced s))" if "?d n = Some j" for n j
    using that tmp i fs_ok_current [OF ok] fs_okD(3) [OF ok i] by (auto split: if_splits)
  ultimately have "fs_ok (rename_file tmp path s)"
    unfolding rename_file_def using p [OF cur] by (intro push_dir_ok [OF ok]) auto
  then show ?thesis
    using tmp path read_possible [OF ok]
    by (auto simp: replaced_def rename_file_def push_dir_reads read_fold insert_absorb)
qed

lemma sync_dir_ok:
  assumes "fs_ok s"
  shows "fs_ok (sync_dir s)"
  using fs_okD(3) [OF assms] fs_okD(7) [OF assms fs_okD(2) [OF assms]] fs_ok_current [OF assms]
  unfolding fs_ok_def [of "sync_dir s"] by (auto simp: sync_dir_def fs_dir_def)

lemma sync_dir_settled: "settled (sync_dir s)" and read_sync_dir: "read_file (sync_dir s) n = read_file s n"
  by (simp_all add: settled_def sync_dir_def read_file_def possible_def fs_dir_def)

lemma sync_dir_replaced: "replaced path bs s t \<Longrightarrow> set_file path bs s (sync_dir t)"
  by (simp add: replaced_def set_file_def sync_dir_ok sync_dir_settled read_sync_dir)

lemma replaced_after_hidden: "hidden s t \<Longrightarrow> replaced path bs t u \<Longrightarrow> replaced path bs s u"
  by (simp add: hidden_def replaced_def)

subsection \<open>A replacement is atomic\<close>

lemma write_cases:
  assumes ok: "fs_ok s" and path: "\<not> is_tmp path"
    and run: "durable_write ans pid nonce path bs s = (ts, r)"
  shows "ts \<noteq> []"
    and "t \<in> set ts \<Longrightarrow> hidden s t \<or> replaced path bs s t \<or> set_file path bs s t"
    and "r = Inr () \<Longrightarrow> set_file path bs s (last ts)"
    and "r = Inl DirSyncFailed \<Longrightarrow> replaced path bs s (last ts)"
    and "r = Inl e \<Longrightarrow> e \<noteq> DirSyncFailed \<Longrightarrow> hidden s (last ts)"
proof -
  let ?tmp = "tmp_name pid nonce path" and ?clean = "discard_tmp (an_unlink ans) (tmp_name pid nonce path)"
  obtain s1 i where c: "create_file ?tmp s = (s1, i)" by force
  note s1 = create_tmp [OF ok is_tmp_tmp_name c]
  have app: "hidden s (append_file i xs s1)" "fs_dir (append_file i xs s1) ?tmp = Some i"
    "fs_data (append_file i xs s1) i = xs" for xs
    using hidden_trans [OF s1(1) append_tmp [OF _ s1(2) is_tmp_tmp_name]] s1
    by (auto simp: hidden_def append_file_def fs_dir_def)
  let ?s2 = "append_file i bs s1"
  let ?s3 = "sync_file i ?s2"
  have s3: "hidden s ?s3" "fs_dir ?s3 ?tmp = Some i" "fs_data ?s3 i = bs" "i \<in> set (fs_synced ?s3)"
    using hidden_trans [OF app(1) sync_tmp [OF _ app(2)]] app(1-3) [of bs]
    by (auto simp: hidden_def sync_file_def fs_dir_def)
  have s4: "replaced path bs s (rename_file ?tmp path ?s3)"
    using replaced_after_hidden [OF s3(1) rename_tmp [OF _ s3(2) is_tmp_tmp_name s3(4) path]] s3
    by (simp add: hidden_def)
  have clean: "hidden s (?clean u)" if "hidden s u" for u
    using hidden_trans [OF that discard_tmp_hidden] that by (simp add: hidden_def)
  note facts = s1(1) app(1) s3(1) s4 sync_dir_replaced [OF s4] clean [OF hidden_refl [OF ok]]
    clean [OF app(1)] clean [OF s3(1)]
  show "ts \<noteq> []"
    and "t \<in> set ts \<Longrightarrow> hidden s t \<or> replaced path bs s t \<or> set_file path bs s t"
    and "r = Inr () \<Longrightarrow> set_file path bs s (last ts)"
    and "r = Inl DirSyncFailed \<Longrightarrow> replaced path bs s (last ts)"
    and "r = Inl e \<Longrightarrow> e \<noteq> DirSyncFailed \<Longrightarrow> hidden s (last ts)"
    using run c facts by (auto simp: durable_write_def Let_def split: if_splits option.splits)
qed

text \<open>What the calls before the replacement do to the path: nothing that a reader or a crash shows.\<close>

definition untouched :: "string \<Rightarrow> fs \<Rightarrow> fs \<Rightarrow> bool" where
  "untouched path s t \<longleftrightarrow>
     fs_ok t \<and> read_file t path = read_file s path \<and> possible t path \<subseteq> possible s path"

definition old_or_new :: "string \<Rightarrow> byte list \<Rightarrow> fs \<Rightarrow> fs \<Rightarrow> bool" where
  "old_or_new path bs s t \<longleftrightarrow>
     fs_ok t \<and> read_file t path \<in> {read_file s path, Some bs}
     \<and> possible t path \<subseteq> insert (Some bs) (possible s path)"

lemma untouched_old_or_new: "untouched path s t \<Longrightarrow> old_or_new path bs s t"
  by (auto simp: untouched_def old_or_new_def)

lemma untouched_refl: "fs_ok s \<Longrightarrow> untouched path s s"
  by (simp add: untouched_def)

lemma untouched_trans: "untouched path s t \<Longrightarrow> untouched path t u \<Longrightarrow> untouched path s u"
  by (auto simp: untouched_def)

lemma untouched_then: "untouched path s t \<Longrightarrow> old_or_new path bs t u \<Longrightarrow> old_or_new path bs s u"
  by (auto simp: untouched_def old_or_new_def)

text \<open>One \<open>write\<close> as its caller sees it, on its own path and on another one.\<close>

lemma write_own:
  assumes "fs_ok s" and "\<not> is_tmp path" and run: "durable_write ans pid nonce path bs s = (ts, r)"
  shows "t \<in> set ts \<Longrightarrow> old_or_new path bs s t"
    and "r = Inr () \<Longrightarrow> settled (last ts) \<and> read_file (last ts) path = Some bs"
    and "r = Inl e \<Longrightarrow> e \<noteq> DirSyncFailed \<Longrightarrow> untouched path s (last ts)"
    and "fs_ok (last ts)"
proof -
  note cases = write_cases [OF assms]
  have one: "old_or_new path bs s t" if "hidden s t \<or> replaced path bs s t \<or> set_file path bs s t" for t
    using that assms(2) by (auto simp: hidden_def replaced_def set_file_def settled_def old_or_new_def)
  show "t \<in> set ts \<Longrightarrow> old_or_new path bs s t" using one cases(2) by blast
  show "fs_ok (last ts)" using one cases(1,2) last_in_set unfolding old_or_new_def by blast
  show "r = Inr () \<Longrightarrow> settled (last ts) \<and> read_file (last ts) path = Some bs"
    using cases(3) assms(2) by (auto simp: set_file_def)
  show "r = Inl e \<Longrightarrow> e \<noteq> DirSyncFailed \<Longrightarrow> untouched path s (last ts)"
    using cases(5) assms(2) by (auto simp: hidden_def untouched_def)
qed

lemma write_other:
  assumes "fs_ok s" and "\<not> is_tmp path" and "\<not> is_tmp q" and "q \<noteq> path"
    and run: "durable_write ans pid nonce path bs s = (ts, r)" and t: "t \<in> set ts"
  shows "untouched q s t"
  using write_cases(2) [OF assms(1,2) run t] assms(3,4) read_possible [OF assms(1)]
  by (auto simp: hidden_def replaced_def set_file_def settled_def untouched_def)

lemma link_ok:
  assumes ok: "fs_ok s" and "\<not> is_tmp a" and "\<not> is_tmp b"
  shows "fs_ok (link_file a b s)"
proof -
  let ?d = "(fs_dir s)(b := fs_dir s a)"
  have cur: "private_tmps (fs_dir s) e" if "e \<in> set (fs_dirs s)" for e
    using fs_okD(7) [OF ok that] .
  have p: "private_tmps ?d e" if "private_tmps (fs_dir s) e" for e
    using that assms(3) by (auto simp: private_tmps_def)
  have "private_tmps ?d ?d"
    using p [OF cur [OF fs_okD(2) [OF ok]]] assms(2,3) unfolding private_tmps_def
    by (metis fun_upd_apply)
  moreover have "j < fs_next s \<and> (is_tmp n \<or> j \<in> set (fs_synced s))" if "?d n = Some j" for n j
    using that fs_ok_current [OF ok, of n j] fs_ok_current [OF ok, of a j] assms(2) by (auto split: if_splits)
  ultimately show ?thesis unfolding link_file_def
    using p [OF cur] by (intro push_dir_ok [OF ok]) auto
qed

lemma link_untouched:
  assumes "fs_ok s" and "\<not> is_tmp a" and "\<not> is_tmp b" and "a \<noteq> b"
  shows "untouched a s (link_file a b s)" and "read_file (link_file a b s) b = read_file s a"
  using link_ok [OF assms(1-3)] read_possible [OF assms(1)] assms(4)
  by (auto simp: untouched_def link_file_def push_dir_reads read_fold)

lemma discard_untouched:
  assumes "fs_ok s" and "a \<noteq> b"
  shows "untouched a s (discard_tmp ok b s)"
  using remove_ok [OF assms(1)] read_possible [OF assms(1)] assms
  by (auto simp: untouched_def discard_tmp_def remove_file_def push_dir_reads read_fold)

lemma prev_path_neq [simp]: "prev_path path \<noteq> path" "path \<noteq> prev_path path"
  by (simp_all add: prev_path_def)

lemma keep_cases:
  assumes ok: "fs_ok s" and path: "\<not> is_tmp path"
    and run: "write_keeping_prev ka ans pid nonce path bs s = (ts, r)"
  obtains (direct) u us nonce' where "untouched path s u" "durable_write ans pid nonce' path bs u = (us, r)"
      "set ts \<subseteq> {t. untouched path s t} \<union> set us" "us \<noteq> []" "last ts = last us" "ts \<noteq> []"
      "\<And>old. read_file s path = Some old \<Longrightarrow> ka_read ka \<or> ka_remove ka \<and> ka_link ka
         \<Longrightarrow> read_file u (prev_path path) = Some old"
  | (copy_failed) e where "r = Inl e" "\<forall>t \<in> set ts. untouched path s t" "ts \<noteq> []"
proof (cases "read_file s path")
  case None
  then show ?thesis
    using direct [of s nonce ts] run ok untouched_refl write_cases(1) [OF ok path] by (auto simp: write_keeping_prev_def)
next
  case (Some old)
  let ?prev = "prev_path path"
  let ?s1 = "discard_tmp (ka_remove ka) ?prev s"
  have s1: "untouched path s ?s1" by (rule discard_untouched [OF ok prev_path_neq(2)])
  then have ok1: "fs_ok ?s1" and old1: "read_file ?s1 path = Some old" using Some by (simp_all add: untouched_def)
  consider (link) "ka_link ka \<and> fs_dir ?s1 ?prev = None"
    | (copy) "\<not> (ka_link ka \<and> fs_dir ?s1 ?prev = None)" "ka_read ka"
    | (none) "\<not> (ka_link ka \<and> fs_dir ?s1 ?prev = None)" "\<not> ka_read ka" by blast
  then show ?thesis
  proof cases
    case link
    let ?s2 = "link_file path ?prev ?s1"
    note l = link_untouched [OF ok1 path is_tmp_prev_path prev_path_neq(2)]
    have s2: "untouched path s ?s2" using untouched_trans [OF s1 l(1)] .
    obtain us where us: "durable_write ans pid nonce path bs ?s2 = (us, r)" "ts = ?s1 # ?s2 # us"
      using run Some link by (auto simp: write_keeping_prev_def Let_def split: prod.splits)
    have "us \<noteq> []" using write_cases(1) [OF _ path us(1)] s2 by (simp add: untouched_def)
    then show ?thesis
      using direct [OF s2 us(1)] us(2) s1 s2 l(2) old1 Some by auto
  next
    case copy
    obtain vs q where vs: "durable_write (ka_copy ka) pid nonce ?prev old ?s1 = (vs, q)" by force
    note w = write_own [OF ok1 is_tmp_prev_path vs]
    have ne: "vs \<noteq> []" using write_cases(1) [OF ok1 is_tmp_prev_path vs] .
    have v: "untouched path s v" if "v \<in> set vs" for v
      using untouched_trans [OF s1 write_other [OF ok1 is_tmp_prev_path path prev_path_neq(2) vs that]] .
    show ?thesis
    proof (cases q)
      case (Inl e)
      then show ?thesis
        using copy_failed [of e] run Some copy vs s1 v by (auto simp: write_keeping_prev_def Let_def)
    next
      case (Inr x)
      obtain us where us: "durable_write ans pid (nonce + 1) path bs (last vs) = (us, r)" "ts = ?s1 # vs @ us"
        using run Some copy vs Inr by (auto simp: write_keeping_prev_def Let_def split: prod.splits)
      have lv: "untouched path s (last vs)" using v ne by simp
      have "us \<noteq> []" using write_cases(1) [OF _ path us(1)] lv by (simp add: untouched_def)
      then show ?thesis
        using direct [OF lv us(1)] us(2) s1 v w(2) Inr Some by auto
    qed
  next
    case none
    obtain us where us: "durable_write ans pid nonce path bs ?s1 = (us, r)" "ts = ?s1 # us"
      using run Some none by (auto simp: write_keeping_prev_def Let_def split: prod.splits)
    have "us \<noteq> []" using write_cases(1) [OF ok1 path us(1)] .
    moreover have "\<not> (ka_remove ka \<and> ka_link ka)"
      using none by (auto simp: discard_tmp_def remove_file_def fs_dir_def split: if_splits)
    ultimately show ?thesis
      using direct [OF s1 us(1)] us(2) s1 none by auto
  qed
qed

text \<open>The contract of \<open>write_keeping_prev\<close> towards its callers.\<close>

lemma keep_own:
  assumes ok: "fs_ok s" and path: "\<not> is_tmp path"
    and run: "write_keeping_prev ka ans pid nonce path bs s = (ts, r)"
  shows "ts \<noteq> []" and "t \<in> set ts \<Longrightarrow> old_or_new path bs s t"
    and "r = Inr () \<Longrightarrow> settled (last ts) \<and> read_file (last ts) path = Some bs"
    and "r = Inl e \<Longrightarrow> e \<noteq> DirSyncFailed \<Longrightarrow> untouched path s (last ts)"
    and "r = Inr () \<Longrightarrow> read_file s path = Some old \<Longrightarrow> ka_read ka \<or> ka_remove ka \<and> ka_link ka
           \<Longrightarrow> read_file (last ts) (prev_path path) = Some old"
proof -
  have "ts \<noteq> [] \<and> (t \<in> set ts \<longrightarrow> old_or_new path bs s t)
    \<and> (r = Inr () \<longrightarrow> settled (last ts) \<and> read_file (last ts) path = Some bs)
    \<and> (r = Inl e \<longrightarrow> e \<noteq> DirSyncFailed \<longrightarrow> untouched path s (last ts))
    \<and> (r = Inr () \<longrightarrow> read_file s path = Some old \<longrightarrow> ka_read ka \<or> ka_remove ka \<and> ka_link ka
        \<longrightarrow> read_file (last ts) (prev_path path) = Some old)"
    using ok path run
  proof (cases rule: keep_cases)
    case (direct u us nonce')
    then have u: "fs_ok u" by (simp add: untouched_def)
    note w = write_own [OF u path direct(2)]
    have "old_or_new path bs s t" if "t \<in> set ts"
      using that direct(3) untouched_old_or_new untouched_then [OF direct(1) w(1)] by blast
    moreover have "read_file (last us) (prev_path path) = read_file u (prev_path path)"
      using write_other [OF u path is_tmp_prev_path prev_path_neq(1) direct(2)] direct(4) by (simp add: untouched_def)
    ultimately show ?thesis
      using direct(4-7) w(2,3) untouched_trans [OF direct(1)] by auto
  next
    case (copy_failed e')
    then show ?thesis using untouched_old_or_new by auto
  qed
  then show "ts \<noteq> []" and "t \<in> set ts \<Longrightarrow> old_or_new path bs s t"
    and "r = Inr () \<Longrightarrow> settled (last ts) \<and> read_file (last ts) path = Some bs"
    and "r = Inl e \<Longrightarrow> e \<noteq> DirSyncFailed \<Longrightarrow> untouched path s (last ts)"
    and "r = Inr () \<Longrightarrow> read_file s path = Some old \<Longrightarrow> ka_read ka \<or> ka_remove ka \<and> ka_link ka
           \<Longrightarrow> read_file (last ts) (prev_path path) = Some old"
    by blast+
qed

end
