(* ===== verification/Doc_Model.thy ===== *)
theory Doc_Model
  imports Rust_Str Ordered_Map
begin

section \<open>The document model: values, composite keys, checkpoints\<close>

text \<open>
  Models \<open>growlerdb-core/src/doc.rs\<close>. A \<open>value\<close> has the constructors of \<open>Value\<close> (floats
  by their IEEE bit patterns), a \<open>composite_key\<close> its ordered partition and identifier
  fields. \<open>encode\<close> is the frozen, type-tagged byte encoding that routing hashes and the
  index stores; \<open>decode\<close> is its strict inverse with every error of \<open>KeyDecodeError\<close> and the
  byte position it reports. A \<open>source_checkpoint\<close> carries the snapshot id and, when known,
  the lineage-monotone sequence number that orders two checkpoints.

  The lemmas show that decoding an encoded key returns it, that a successful decode
  re-encodes to exactly the bytes read (so the encoding is injective and decoding never
  reshapes), and that the encoding of a partition is a prefix of a key's encoding exactly
  for the keys whose partition fields start with it.
\<close>

subsection \<open>Values and keys\<close>

datatype val =
    VStr string
  | VInt int
  | VFloat "64 word"
  | VBool bool
  | VTs int
  | VVector "32 word list"

text \<open>\<open>Value::to_index_string\<close>; \<open>fmt\<close> is the decimal rendering of an \<open>f64\<close>.\<close>

fun to_index_string :: "(64 word \<Rightarrow> string) \<Rightarrow> val \<Rightarrow> string" where
  "to_index_string fmt (VStr s) = s"
| "to_index_string fmt (VInt i) = show_int i"
| "to_index_string fmt (VFloat f) = fmt f"
| "to_index_string fmt (VBool b) = (if b then ''true'' else ''false'')"
| "to_index_string fmt (VTs t) = show_int t"
| "to_index_string fmt (VVector v) = []"

record composite_key =
  key_partition :: "(string \<times> val) list"
  key_identifier :: "(string \<times> val) list"

definition new_key :: "(string \<times> val) list \<Rightarrow> (string \<times> val) list \<Rightarrow> composite_key" where
  "new_key p i = \<lparr>key_partition = p, key_identifier = i\<rparr>"

definition key_get :: "composite_key \<Rightarrow> string \<Rightarrow> val option" where
  "key_get k name =
     map_option snd (List.find (\<lambda>nv. fst nv = name) (key_partition k @ key_identifier k))"

subsection \<open>Encoding\<close>

text \<open>Little-endian bytes of a number, and back.\<close>

fun le_bytes :: "nat \<Rightarrow> nat \<Rightarrow> byte list" where
  "le_bytes 0 x = []"
| "le_bytes (Suc n) x = word_of_nat (x mod 256) # le_bytes n (x div 256)"

fun le_val :: "byte list \<Rightarrow> nat" where
  "le_val [] = 0"
| "le_val (b # bs) = unat b + 256 * le_val bs"

definition i64_le_bytes :: "int \<Rightarrow> byte list" where
  "i64_le_bytes i = le_bytes 8 (nat (i mod 2 ^ 64))"

definition i64_from_le :: "byte list \<Rightarrow> int" where
  "i64_from_le bs = (let v = le_val bs in if v < 2 ^ 63 then int v else int v - 2 ^ 64)"

text \<open>\<open>push_bytes\<close>: the length prefix is the length cast to \<open>u32\<close>.\<close>

definition push_bytes :: "byte list \<Rightarrow> byte list" where
  "push_bytes bs = le_bytes 4 (length bs mod 2 ^ 32) @ bs"

fun push_value :: "val \<Rightarrow> byte list" where
  "push_value (VStr s) = 1 # push_bytes (as_bytes s)"
| "push_value (VInt i) = 2 # push_bytes (i64_le_bytes i)"
| "push_value (VFloat f) = 3 # push_bytes (le_bytes 8 (unat f))"
| "push_value (VBool b) = 4 # push_bytes [if b then 1 else 0]"
| "push_value (VTs t) = 5 # push_bytes (i64_le_bytes t)"
| "push_value (VVector v) =
     6 # push_bytes (le_bytes 4 (length v mod 2 ^ 32) @ concat (map (\<lambda>x. le_bytes 4 (unat x)) v))"

definition encode_field :: "byte \<Rightarrow> string \<times> val \<Rightarrow> byte list" where
  "encode_field role nv = role # push_bytes (as_bytes (fst nv)) @ push_value (snd nv)"

definition encode :: "composite_key \<Rightarrow> byte list" where
  "encode k =
     concat (map (encode_field 0) (key_partition k)) @ concat (map (encode_field 1) (key_identifier k))"

subsection \<open>Decoding\<close>

datatype key_decode_error =
    Truncated nat
  | UnknownRole byte nat
  | UnknownTag byte nat
  | BadWidth byte nat nat
  | BadName nat
  | BadStr nat
  | BadBool byte nat
  | RoleOrder nat

text \<open>The closure \<open>take\<close>: the next \<open>n\<close> bytes and the position after them.\<close>

definition take_at :: "byte list \<Rightarrow> nat \<Rightarrow> nat \<Rightarrow> key_decode_error + (byte list \<times> nat)" where
  "take_at bs pos n =
     (if length bs < pos + n then Inl (Truncated pos) else Inr (take n (drop pos bs), pos + n))"

definition take_len_prefixed :: "byte list \<Rightarrow> nat \<Rightarrow> key_decode_error + (byte list \<times> nat)" where
  "take_len_prefixed bs pos =
     res_bind (take_at bs pos 4) (\<lambda>(r, pos'). take_at bs pos' (le_val r))"

text \<open>The closure \<open>fixed\<close>.\<close>

definition fixed :: "byte \<Rightarrow> byte list \<Rightarrow> nat \<Rightarrow> key_decode_error + byte list" where
  "fixed tag v expected =
     (if length v \<noteq> expected then Inl (BadWidth tag expected (length v)) else Inr v)"

definition decode_value ::
    "byte \<Rightarrow> nat \<Rightarrow> nat \<Rightarrow> byte list \<Rightarrow> key_decode_error + val" where
  "decode_value tag tag_at val_at v =
     (if tag = 1 then
        (case from_utf8 v of None \<Rightarrow> Inl (BadStr val_at) | Some s \<Rightarrow> Inr (VStr s))
      else if tag = 2 then res_bind (fixed tag v 8) (\<lambda>b. Inr (VInt (i64_from_le b)))
      else if tag = 3 then res_bind (fixed tag v 8) (\<lambda>b. Inr (VFloat (word_of_nat (le_val b))))
      else if tag = 4 then
        res_bind (fixed tag v 1) (\<lambda>b.
          case b of
            x # _ \<Rightarrow> if x = 0 then Inr (VBool False) else if x = 1 then Inr (VBool True)
                     else Inl (BadBool x val_at)
          | [] \<Rightarrow> Inl (Truncated val_at))
      else if tag = 5 then res_bind (fixed tag v 8) (\<lambda>b. Inr (VTs (i64_from_le b)))
      else Inl (UnknownTag tag tag_at))"

text \<open>One iteration of the loop of \<open>CompositeKey::decode\<close>: role, name and value of the field at
  \<open>pos\<close>, and the position after it.\<close>

definition decode_field ::
    "byte list \<Rightarrow> bool \<Rightarrow> nat \<Rightarrow> key_decode_error + (byte \<times> (string \<times> val) \<times> nat)" where
  "decode_field bs seen_identifier pos =
     res_bind (take_at bs pos 1) (\<lambda>(rb, p1).
       let role = hd rb in
       if role = 0 \<and> seen_identifier then Inl (RoleOrder pos)
       else if role \<noteq> 0 \<and> role \<noteq> 1 then Inl (UnknownRole role pos)
       else
         res_bind (take_len_prefixed bs p1) (\<lambda>(nb, p2).
           case from_utf8 nb of
             None \<Rightarrow> Inl (BadName p1)
           | Some name \<Rightarrow>
               res_bind (take_at bs p2 1) (\<lambda>(tb, p3).
                 let tag = hd tb in
                 res_bind (take_len_prefixed bs p3) (\<lambda>(v, p4).
                   res_bind (decode_value tag p2 p3 v) (\<lambda>value.
                     Inr (role, (name, value), p4))))))"

lemma take_at_Inr:
  "take_at bs pos n = Inr (r, pos') \<longleftrightarrow>
     pos + n \<le> length bs \<and> r = take n (drop pos bs) \<and> pos' = pos + n"
  by (auto simp: take_at_def)

lemma take_len_prefixed_Inr:
  "take_len_prefixed bs pos = Inr (r, pos') \<longleftrightarrow>
     pos + 4 \<le> length bs \<and>
     (let n = le_val (take 4 (drop pos bs)) in
      pos + 4 + n \<le> length bs \<and> r = take n (drop (pos + 4) bs) \<and> pos' = pos + 4 + n)"
  by (auto simp: take_len_prefixed_def res_bind_Inr_iff take_at_Inr Let_def)

lemma decode_field_progress:
  assumes "decode_field bs seen pos = Inr (role, nv, pos')"
  shows "pos < pos'" and "pos' \<le> length bs"
  using assms
  by (auto simp: decode_field_def res_bind_Inr_iff take_at_Inr take_len_prefixed_Inr Let_def
           split: if_splits option.splits)

function decode_loop ::
    "byte list \<Rightarrow> bool \<Rightarrow> nat \<Rightarrow> (string \<times> val) list \<Rightarrow> (string \<times> val) list
      \<Rightarrow> key_decode_error + composite_key" where
  "decode_loop bs seen pos ps ids =
     (if pos < length bs then
        (case decode_field bs seen pos of
           Inl e \<Rightarrow> Inl e
         | Inr (role, nv, pos') \<Rightarrow>
             if role = 0 then decode_loop bs (seen \<or> role = 1) pos' (ps @ [nv]) ids
             else decode_loop bs (seen \<or> role = 1) pos' ps (ids @ [nv]))
      else Inr (new_key ps ids))"
  by pat_completeness auto
termination
  by (relation "measure (\<lambda>(bs, seen, pos, ps, ids). length bs - pos)")
     (auto dest: decode_field_progress)

declare decode_loop.simps [simp del]

definition decode :: "byte list \<Rightarrow> key_decode_error + composite_key" where
  "decode bs = decode_loop bs False 0 [] []"

subsection \<open>Source checkpoints\<close>

datatype source_checkpoint = IcebergSnapshot (snapshot_id: int) (sequence_number: "int option")

definition iceberg :: "int \<Rightarrow> source_checkpoint" where
  "iceberg sid = IcebergSnapshot sid None"

definition iceberg_ordered :: "int \<Rightarrow> int \<Rightarrow> source_checkpoint" where
  "iceberg_ordered sid seq = IcebergSnapshot sid (Some seq)"

definition same_position :: "source_checkpoint \<Rightarrow> source_checkpoint \<Rightarrow> bool" where
  "same_position a b \<longleftrightarrow> snapshot_id a = snapshot_id b"

definition lineage_cmp :: "source_checkpoint \<Rightarrow> source_checkpoint \<Rightarrow> ordering option" where
  "lineage_cmp a b =
     (if same_position a b then Some Equal
      else (case (sequence_number a, sequence_number b) of
              (Some x, Some y) \<Rightarrow> Some (cmp_of x y)
            | _ \<Rightarrow> None))"

text \<open>The serialized shapes \<open>IcebergWire\<close>: the legacy bare id, and the ordered map whose
  sequence number may be absent.\<close>

datatype iceberg_wire = Legacy int | Ordered int "int option"

definition checkpoint_to_wire :: "source_checkpoint \<Rightarrow> iceberg_wire" where
  "checkpoint_to_wire c =
     (case sequence_number c of
        None \<Rightarrow> Legacy (snapshot_id c)
      | Some seq \<Rightarrow> Ordered (snapshot_id c) (Some seq))"

fun checkpoint_from_wire :: "iceberg_wire \<Rightarrow> source_checkpoint" where
  "checkpoint_from_wire (Legacy sid) = iceberg sid"
| "checkpoint_from_wire (Ordered sid seq) = IcebergSnapshot sid seq"

subsection \<open>Documents\<close>

record variant_leaves =
  vl_field :: string
  vl_leaves :: "(string \<times> val) list"
  vl_discriminator :: "string option"

record document =
  doc_key :: composite_key
  doc_fields :: "(string, val) btree"
  doc_variants :: "variant_leaves list"

definition new_document :: "composite_key \<Rightarrow> (string, val) btree \<Rightarrow> document" where
  "new_document k fs = \<lparr>doc_key = k, doc_fields = fs, doc_variants = []\<rparr>"

definition with_variants :: "document \<Rightarrow> variant_leaves list \<Rightarrow> document" where
  "with_variants d vs = d\<lparr>doc_variants := vs\<rparr>"

record doc_batch =
  batch_docs :: "document list"

definition new_doc_batch :: "document list \<Rightarrow> doc_batch" where
  "new_doc_batch ds = \<lparr>batch_docs = ds\<rparr>"

definition doc_batch_len :: "doc_batch \<Rightarrow> nat" where
  "doc_batch_len b = length (batch_docs b)"

definition doc_batch_is_empty :: "doc_batch \<Rightarrow> bool" where
  "doc_batch_is_empty b \<longleftrightarrow> batch_docs b = []"

subsection \<open>Keys the encoding represents\<close>

text \<open>A Rust \<open>String\<close> is valid UTF-8 and an \<open>i64\<close> is in range by typing; what remains is that
  every component fits its \<open>u32\<close> length prefix and that no key field is a vector.\<close>

definition wf_name :: "string \<Rightarrow> bool" where
  "wf_name n \<longleftrightarrow> utf8_ok n \<and> length n < 2 ^ 32"

fun wf_val :: "val \<Rightarrow> bool" where
  "wf_val (VStr s) = wf_name s"
| "wf_val (VInt i) = in_i64 i"
| "wf_val (VFloat f) = True"
| "wf_val (VBool b) = True"
| "wf_val (VTs t) = in_i64 t"
| "wf_val (VVector v) = False"

definition wf_field :: "string \<times> val \<Rightarrow> bool" where
  "wf_field nv \<longleftrightarrow> wf_name (fst nv) \<and> wf_val (snd nv)"

definition wf_key :: "composite_key \<Rightarrow> bool" where
  "wf_key k \<longleftrightarrow> list_all wf_field (key_partition k) \<and> list_all wf_field (key_identifier k)"

text \<open>The tag and payload of a value.\<close>

fun val_tag :: "val \<Rightarrow> byte" where
  "val_tag (VStr s) = 1" | "val_tag (VInt i) = 2" | "val_tag (VFloat f) = 3"
| "val_tag (VBool b) = 4" | "val_tag (VTs t) = 5" | "val_tag (VVector v) = 6"

fun val_payload :: "val \<Rightarrow> byte list" where
  "val_payload (VStr s) = as_bytes s"
| "val_payload (VInt i) = i64_le_bytes i"
| "val_payload (VFloat f) = le_bytes 8 (unat f)"
| "val_payload (VBool b) = [if b then 1 else 0]"
| "val_payload (VTs t) = i64_le_bytes t"
| "val_payload (VVector v) =
     le_bytes 4 (length v mod 2 ^ 32) @ concat (map (\<lambda>x. le_bytes 4 (unat x)) v)"

subsection \<open>Little-endian integers\<close>

lemma length_le_bytes [simp]: "length (le_bytes n x) = n"
  by (induction n arbitrary: x) auto

lemma le_val_le_bytes: "le_val (le_bytes n x) = x mod 256 ^ n"
proof (induction n arbitrary: x)
  case 0
  then show ?case by simp
next
  case (Suc n)
  have "unat (word_of_nat (x mod 256) :: byte) = x mod 256"
    by (simp add: unat_of_nat take_bit_eq_mod)
  then have "le_val (le_bytes (Suc n) x) = x mod 256 + 256 * (x div 256 mod 256 ^ n)"
    by (simp add: Suc.IH)
  also have "\<dots> = x mod (256 * 256 ^ n)"
    by (simp add: mod_mult2_eq)
  finally show ?case by simp
qed

lemma le_val_less: "le_val bs < 256 ^ length bs"
proof (induction bs)
  case Nil
  then show ?case by simp
next
  case (Cons b bs)
  have "unat b < 256" using unsigned_less [of b] by simp
  moreover have "le_val bs + 1 \<le> 256 ^ length bs" using Cons.IH by simp
  then have "256 * le_val bs + 256 \<le> 256 * 256 ^ length bs"
    using mult_le_mono2 [of "le_val bs + 1" "256 ^ length bs" 256] by simp
  ultimately show ?case by simp
qed

lemma le_bytes_le_val: "le_bytes (length bs) (le_val bs) = bs"
proof (induction bs)
  case Nil
  then show ?case by simp
next
  case (Cons b bs)
  have lt: "unat b < 256" using unsigned_less [of b] by simp
  then have "(unat b + 256 * le_val bs) mod 256 = unat b"
    and "(unat b + 256 * le_val bs) div 256 = le_val bs"
    by (simp_all add: mod_mult_self2 div_mult_self2)
  then show ?case using Cons.IH by simp
qed

lemma length_i64_le_bytes [simp]: "length (i64_le_bytes i) = 8"
  by (simp add: i64_le_bytes_def)

lemma i64_from_le_le_bytes [simp]:
  assumes "in_i64 i"
  shows "i64_from_le (i64_le_bytes i) = i"
proof -
  have v: "le_val (i64_le_bytes i) = nat (i mod 2 ^ 64)"
  proof -
    have "nat (i mod 2 ^ 64) < 256 ^ 8"
      by (simp add: nat_less_iff)
    then show ?thesis by (simp add: i64_le_bytes_def le_val_le_bytes)
  qed
  show ?thesis
  proof (cases "0 \<le> i")
    case True
    with assms have "i mod 2 ^ 64 = i" by (simp add: in_i64_def i64_max_def)
    with True assms show ?thesis
      by (simp add: i64_from_le_def v in_i64_def i64_max_def Let_def nat_less_iff)
  next
    case False
    with assms have m: "i mod 2 ^ 64 = i + 2 ^ 64"
    proof -
      have "(i + 2 ^ 64) mod 2 ^ 64 = i + 2 ^ 64"
        using False assms by (intro mod_pos_pos_trivial) (auto simp: in_i64_def i64_min_def)
      then show ?thesis by simp
    qed
    with False assms show ?thesis
      by (simp add: i64_from_le_def v in_i64_def i64_min_def Let_def nat_less_iff)
  qed
qed

lemma i64_le_bytes_from_le:
  assumes "length bs = 8"
  shows "i64_le_bytes (i64_from_le bs) = bs" and "in_i64 (i64_from_le bs)"
proof -
  have lt: "le_val bs < 2 ^ 64"
    using le_val_less [of bs] assms by simp
  have "nat (i64_from_le bs mod 2 ^ 64) = le_val bs"
  proof (cases "le_val bs < 2 ^ 63")
    case True
    then show ?thesis by (simp add: i64_from_le_def Let_def)
  next
    case False
    have "(int (le_val bs) - 2 ^ 64) mod 2 ^ 64 = int (le_val bs) mod 2 ^ 64"
      by simp
    also have "\<dots> = int (le_val bs)"
      using lt by (intro mod_pos_pos_trivial) simp_all
    finally show ?thesis using False by (simp add: i64_from_le_def Let_def)
  qed
  then show "i64_le_bytes (i64_from_le bs) = bs"
    using le_bytes_le_val [of bs] assms by (simp add: i64_le_bytes_def)
  show "in_i64 (i64_from_le bs)"
    using lt by (auto simp: i64_from_le_def Let_def in_i64_def i64_min_def i64_max_def)
qed

subsection \<open>Decoding what was encoded\<close>

lemma take_at_append [simp]:
  "pos = length pre \<Longrightarrow> n = length x \<Longrightarrow> take_at (pre @ x @ suf) pos n = Inr (x, pos + n)"
  by (simp add: take_at_def)

lemma length_push_bytes [simp]: "length (push_bytes x) = 4 + length x"
  by (simp add: push_bytes_def)

lemma take_len_prefixed_append:
  assumes "length x < 2 ^ 32"
  shows "take_len_prefixed (pre @ push_bytes x @ suf) (length pre) = Inr (x, length pre + 4 + length x)"
proof -
  let ?l = "le_bytes 4 (length x mod 2 ^ 32)"
  have "take_at (pre @ ?l @ x @ suf) (length pre) 4 = Inr (?l, length pre + 4)"
    by (rule take_at_append) simp_all
  moreover have "take_at ((pre @ ?l) @ x @ suf) (length pre + 4) (length x) = Inr (x, length pre + 4 + length x)"
    by (rule take_at_append) simp_all
  moreover have "le_val ?l = length x" using assms by (simp add: le_val_le_bytes)
  ultimately show ?thesis by (simp add: take_len_prefixed_def push_bytes_def)
qed

lemma push_value_eq: "push_value v = val_tag v # push_bytes (val_payload v)"
  by (cases v) simp_all

lemma decode_value_payload:
  assumes "wf_val v"
  shows "decode_value (val_tag v) p q (val_payload v) = Inr v"
proof (cases v)
  case (VFloat f)
  have "unat f < 2 ^ 64" using unsigned_less [of f] by simp
  with VFloat show ?thesis by (simp add: decode_value_def fixed_def le_val_le_bytes)
qed (use assms in \<open>auto simp: decode_value_def fixed_def wf_name_def\<close>)

lemma val_payload_length: "wf_val v \<Longrightarrow> length (val_payload v) < 2 ^ 32"
  by (cases v) (auto simp: wf_name_def)

lemma decode_field_append:
  assumes wf: "wf_field nv" and role: "role = 1 \<or> role = 0 \<and> \<not> seen"
  shows "decode_field (pre @ encode_field role nv @ suf) seen (length pre)
         = Inr (role, nv, length pre + length (encode_field role nv))"
proof -
  obtain n v where nv: "nv = (n, v)" by (cases nv)
  let ?nb = "as_bytes n" and ?vb = "val_payload v"
  define bs where "bs = pre @ encode_field role nv @ suf"
  have nb: "length ?nb < 2 ^ 32" "from_utf8 ?nb = Some n" and v: "wf_val v"
    using wf by (auto simp: wf_field_def wf_name_def nv)
  have 1: "take_at bs (length pre) 1 = Inr ([role], Suc (length pre))"
    using take_at_append [of "length pre" pre 1 "[role]"] by (simp add: encode_field_def bs_def)
  have 2: "take_len_prefixed bs (Suc (length pre)) = Inr (?nb, length pre + 5 + length n)"
    using take_len_prefixed_append [OF nb(1), of "pre @ [role]" "push_value v @ suf"]
    by (simp add: encode_field_def nv bs_def)
  have 3: "take_at bs (length pre + 5 + length n) 1 = Inr ([val_tag v], length pre + 6 + length n)"
    using take_at_append [of "length pre + 5 + length n" "pre @ role # push_bytes ?nb" 1 "[val_tag v]"
                          "push_bytes ?vb @ suf"]
    by (simp add: encode_field_def nv push_value_eq bs_def)
  have 4: "take_len_prefixed bs (length pre + 6 + length n)
           = Inr (?vb, length pre + 10 + length n + length ?vb)"
    using take_len_prefixed_append [OF val_payload_length [OF v],
            of "pre @ role # push_bytes ?nb @ [val_tag v]" suf]
    by (simp add: encode_field_def nv push_value_eq algebra_simps bs_def)
  have l: "length (encode_field role nv) = 10 + length n + length ?vb"
    by (simp add: encode_field_def nv push_value_eq)
  have "decode_field bs seen (length pre) = Inr (role, nv, length pre + length (encode_field role nv))"
    unfolding decode_field_def l
    using role by (auto simp del: One_nat_def simp: 1 2 3 4 nb decode_value_payload [OF v] Let_def nv)
  then show ?thesis by (simp add: bs_def)
qed

subsection \<open>Decoding is strict\<close>

lemma take_at_take:
  "take_at bs pos n = Inr (r, pos') \<Longrightarrow> take pos' bs = take pos bs @ r \<and> length r = n"
  by (auto simp: take_at_Inr take_add)

lemma take_len_prefixed_take:
  assumes "take_len_prefixed bs pos = Inr (r, pos')"
  shows "take pos' bs = take pos bs @ push_bytes r" and "length r < 2 ^ 32"
proof -
  from assms obtain l p where 1: "take_at bs pos 4 = Inr (l, p)"
    and 2: "take_at bs p (le_val l) = Inr (r, pos')"
    by (auto simp: take_len_prefixed_def res_bind_Inr_iff)
  from take_at_take [OF 1] take_at_take [OF 2]
  have t: "take pos' bs = take pos bs @ l @ r" "length l = 4" "length r = le_val l" by auto
  then show lt: "length r < 2 ^ 32" using le_val_less [of l] by simp
  have "le_bytes 4 (length r) = l" using le_bytes_le_val [of l] t by simp
  with t lt show "take pos' bs = take pos bs @ push_bytes r" by (simp add: push_bytes_def)
qed

lemma decode_value_strict:
  assumes "decode_value tag p q v = Inr x" and "length v < 2 ^ 32"
  shows "push_value x = tag # push_bytes v" and "wf_val x"
proof -
  have "val_tag x = tag \<and> val_payload x = v \<and> wf_val x"
  proof -
    have f: "le_bytes 8 (unat (word_of_nat (le_val v) :: 64 word)) = v" if "length v = 8"
    proof -
      have "le_val v < 2 ^ 64" using le_val_less [of v] that by simp
      then show ?thesis
        using le_bytes_le_val [of v] that by (simp add: unat_of_nat take_bit_eq_mod)
    qed
    show ?thesis
      using assms f i64_le_bytes_from_le [of v]
      by (auto simp: decode_value_def fixed_def res_bind_Inr_iff from_utf8_Some wf_name_def
               split: if_splits option.splits list.splits)
  qed
  then show "push_value x = tag # push_bytes v" and "wf_val x"
    by (auto simp: push_value_eq)
qed

lemma decode_field_strict:
  assumes "decode_field bs seen pos = Inr (role, nv, pos')"
  shows "take pos' bs = take pos bs @ encode_field role nv" and "wf_field nv"
    and "role = 1 \<or> role = 0 \<and> \<not> seen"
proof -
  from assms obtain rb p1 nb p2 name tb p3 v where
    1: "take_at bs pos 1 = Inr (rb, p1)" and
    2: "take_len_prefixed bs p1 = Inr (nb, p2)" and n: "from_utf8 nb = Some name" and
    3: "take_at bs p2 1 = Inr (tb, p3)" and
    4: "take_len_prefixed bs p3 = Inr (v, pos')" and
    5: "decode_value (hd tb) p2 p3 v = Inr (snd nv)" and
    r: "role = hd rb" "fst nv = name" "role = 1 \<or> role = 0 \<and> \<not> seen"
    by (auto simp: decode_field_def res_bind_Inr_iff Let_def split: if_splits option.splits)
  have "rb = [role]" using take_at_take [OF 1] r(1) by (cases rb) auto
  moreover have "tb = [hd tb]" using take_at_take [OF 3] by (cases tb) auto
  ultimately have t: "take pos' bs = take pos bs @ role # push_bytes nb @ hd tb # push_bytes v"
    using take_at_take [OF 1] take_len_prefixed_take(1) [OF 2] take_at_take [OF 3]
      take_len_prefixed_take(1) [OF 4] by (metis append.assoc append_Cons append_Nil)
  have v: "push_value (snd nv) = hd tb # push_bytes v" "wf_val (snd nv)"
    using decode_value_strict [OF 5 take_len_prefixed_take(2) [OF 4]] by auto
  have nb: "as_bytes name = nb" "utf8_ok name" using n by (auto simp: from_utf8_Some)
  show "take pos' bs = take pos bs @ encode_field role nv"
    using t v nb r by (simp add: encode_field_def)
  have "length name < 2 ^ 32" using take_len_prefixed_take(2) [OF 2] nb by auto
  then show "wf_field nv" using v nb r by (simp add: wf_field_def wf_name_def)
  show "role = 1 \<or> role = 0 \<and> \<not> seen" by (rule r)
qed

lemma decode_loop_strict:
  assumes "decode_loop bs seen pos ps ids = Inr k"
    and "take pos bs = encode (new_key ps ids)" and "seen \<longleftrightarrow> ids \<noteq> []"
    and "wf_key (new_key ps ids)"
  shows "encode k = bs \<and> wf_key k"
  using assms
proof (induction bs seen pos ps ids rule: decode_loop.induct)
  case (1 bs seen pos ps ids)
  show ?case
  proof (cases "pos < length bs")
    case False
    with "1.prems" show ?thesis by (simp add: decode_loop.simps)
  next
    case True
    with "1.prems"(1) obtain role nv pos' where f: "decode_field bs seen pos = Inr (role, nv, pos')"
      by (auto simp: decode_loop.simps split: sum.splits)
    note st = decode_field_strict [OF f]
    note step = decode_loop.simps [of bs seen pos ps ids]
    show ?thesis
    proof (cases "role = 0")
      case r: True
      with st(3) "1.prems"(3) have "ids = []" "\<not> seen" by auto
      moreover from this have "decode_loop bs False pos' (ps @ [nv]) [] = Inr k"
        using "1.prems"(1) [unfolded step] f True r by simp
      ultimately show ?thesis using r st "1.prems" f
        by (intro "1.IH"(1) [OF True f refl refl r])
           (simp_all add: encode_def new_key_def wf_key_def)
    next
      case r: False
      with "1.prems"(1) [unfolded step] f True
      have "decode_loop bs (seen \<or> role = 1) pos' ps (ids @ [nv]) = Inr k" by simp
      with r st "1.prems" f show ?thesis
        by (intro "1.IH"(2) [OF True f refl refl r])
           (simp_all add: encode_def new_key_def wf_key_def)
    qed
  qed
qed

lemma decode_loop_identifiers:
  assumes "list_all wf_field is" and "length pre = pos"
  shows "decode_loop (pre @ concat (map (encode_field 1) is)) seen pos ps ids = Inr (new_key ps (ids @ is))"
  using assms
proof (induction "is" arbitrary: pre pos seen ids)
  case Nil
  then show ?case by (simp add: decode_loop.simps)
next
  case (Cons f fs)
  let ?rest = "concat (map (encode_field 1) fs)"
  have d: "decode_field (pre @ encode_field 1 f @ ?rest) seen pos
           = Inr (1, f, pos + length (encode_field 1 f))"
    using decode_field_append [of f 1 seen pre ?rest] Cons.prems by simp
  have "encode_field 1 f \<noteq> []" by (simp add: encode_field_def)
  then have "pos < length (pre @ encode_field 1 f @ ?rest)" using Cons.prems by simp
  then show ?case
    using Cons.IH [of "pre @ encode_field 1 f" "pos + length (encode_field 1 f)" "True" "ids @ [f]"] Cons.prems d
    by (subst decode_loop.simps) simp
qed

lemma decode_loop_partition:
  assumes "list_all wf_field fs" and "list_all wf_field is" and "length pre = pos"
  shows "decode_loop (pre @ concat (map (encode_field 0) fs) @ concat (map (encode_field 1) is)) False pos ps []
         = Inr (new_key (ps @ fs) is)"
  using assms
proof (induction fs arbitrary: pre pos ps)
  case Nil
  then show ?case using decode_loop_identifiers [of "is" pre pos False ps "[]"] by simp
next
  case (Cons f fs)
  let ?rest = "concat (map (encode_field 0) fs) @ concat (map (encode_field 1) is)"
  have d: "decode_field (pre @ encode_field 0 f @ ?rest) False pos
           = Inr (0, f, pos + length (encode_field 0 f))"
    using decode_field_append [of f 0 False pre ?rest] Cons.prems by simp
  have "encode_field 0 f \<noteq> []" by (simp add: encode_field_def)
  then have "pos < length (pre @ encode_field 0 f @ ?rest)" using Cons.prems by simp
  then show ?case
    using Cons.IH [of "pre @ encode_field 0 f" "pos + length (encode_field 0 f)" "ps @ [f]"] Cons.prems d
    by (subst decode_loop.simps) simp
qed

lemma decode_encode: "wf_key k \<Longrightarrow> decode (encode k) = Inr k"
  using decode_loop_partition [of "key_partition k" "key_identifier k" "[]" 0 "[]"]
  by (simp add: decode_def encode_def wf_key_def new_key_def)

lemma decode_strict: "decode bs = Inr k \<Longrightarrow> encode k = bs \<and> wf_key k"
  using decode_loop_strict [of bs False 0 "[]" "[]" k]
  by (simp add: decode_def encode_def new_key_def wf_key_def)

lemma encode_field_inj:
  assumes "encode_field r x @ a = encode_field r' y @ b" and "wf_field x" "wf_field y"
    and "r \<in> {0, 1}"
  shows "r = r' \<and> x = y \<and> a = b"
proof -
  have r: "r = r'" using assms(1) by (simp add: encode_field_def)
  have "Inr (r, x, length (encode_field r x)) = Inr (r', y, length (encode_field r' y))"
    using decode_field_append [of x r False "[]" a] decode_field_append [of y r' False "[]" b]
      assms r by auto
  then show ?thesis using assms(1) by simp
qed

lemma encode_prefix_iff:
  assumes "list_all wf_field p" and "wf_key k"
  shows "(\<exists>rest. encode k = encode (new_key p []) @ rest) \<longleftrightarrow>
         (\<exists>q. key_partition k = p @ q)"
proof -
  have *: "(\<exists>rest. concat (map (encode_field 0) ks) @ concat (map (encode_field 1) is)
             = concat (map (encode_field 0) p) @ rest) \<longleftrightarrow> (\<exists>q. ks = p @ q)"
    if "list_all wf_field p" "list_all wf_field ks" for ks "is"
    using that
  proof (induction p arbitrary: ks)
    case Nil
    then show ?case by simp
  next
    case (Cons f p)
    show ?case
    proof (cases ks)
      case Nil
      then show ?thesis by (cases "is") (auto simp: encode_field_def)
    next
      case ks: (Cons g gs)
      show ?thesis
        using Cons.IH [of gs] Cons.prems encode_field_inj [of 0 g _ 0 f] ks by (auto; metis)
    qed
  qed
  show ?thesis using * assms by (simp add: encode_def new_key_def wf_key_def)
qed

subsection \<open>The codec contract\<close>

text \<open>What the callers of an encoding rely on. The index stores \<open>encode\<close> as the key of a hit and
  rebuilds the key from it; routing hashes it; a delete addresses a document by it.\<close>

locale codec =
  fixes enc :: "'a \<Rightarrow> 'w"
    and dec :: "'w \<Rightarrow> 'e + 'a"
    and wf :: "'a \<Rightarrow> bool"
  assumes dec_enc: "wf x \<Longrightarrow> dec (enc x) = Inr x"
begin

lemma enc_eq_iff: "wf x \<Longrightarrow> wf y \<Longrightarrow> enc x = enc y \<longleftrightarrow> x = y"
  by (metis dec_enc sum.inject(2))

end

locale strict_codec = codec +
  assumes dec_strict: "dec w = Inr x \<Longrightarrow> enc x = w \<and> wf x"
begin

lemma dec_iff: "dec w = Inr x \<longleftrightarrow> wf x \<and> enc x = w"
  using dec_enc dec_strict by blast

lemma dec_fails_iff: "(\<exists>e. dec w = Inl e) \<longleftrightarrow> (\<forall>x. wf x \<longrightarrow> enc x \<noteq> w)"
  by (metis dec_iff obj_sumE sum.distinct(1))

end

interpretation key_codec: strict_codec encode decode wf_key
  by unfold_locales (auto simp: decode_encode dest: decode_strict)

interpretation checkpoint_codec: codec checkpoint_to_wire "\<lambda>w. Inr (checkpoint_from_wire w)" "\<lambda>_. True"
proof unfold_locales
  fix c :: source_checkpoint
  show "Inr (checkpoint_from_wire (checkpoint_to_wire c)) = Inr c"
    by (cases c) (auto simp: checkpoint_to_wire_def iceberg_def split: option.splits)
qed

subsection \<open>Lineage order of checkpoints\<close>

lemma lineage_cmp_self [simp]: "lineage_cmp a a = Some Equal"
  by (simp add: lineage_cmp_def same_position_def)

lemma lineage_cmp_swap: "lineage_cmp b a = map_option ord_reverse (lineage_cmp a b)"
  using cmp_of_swap [of "the (sequence_number a)" "the (sequence_number b)"]
  by (auto simp: lineage_cmp_def same_position_def split: option.splits)

lemma lineage_cmp_Greater:
  "lineage_cmp a b = Some Greater \<longleftrightarrow>
     \<not> same_position a b \<and> (\<exists>x y. sequence_number a = Some x \<and> sequence_number b = Some y \<and> y < x)"
  by (auto simp: lineage_cmp_def split: option.splits)

lemma lineage_cmp_None:
  "lineage_cmp a b = None \<longleftrightarrow>
     \<not> same_position a b \<and> (sequence_number a = None \<or> sequence_number b = None)"
  by (auto simp: lineage_cmp_def split: option.splits)

subsection \<open>Properties\<close>

text \<open>C2. Decoding is the exact inverse of the frozen encoding: \<open>decode\<close> succeeds with a key on
  exactly the byte strings that \<open>encode\<close> produces for it. A stored key round-trips, two keys never
  share an encoding, and no malformed, truncated or reordered byte string decodes.\<close>

theorem key_decode_exact: "decode bs = Inr k \<longleftrightarrow> wf_key k \<and> encode k = bs"
  by (rule key_codec.dec_iff)

text \<open>C19. The byte prefix with which reconciliation and key counting select a partition matches
  exactly the keys whose partition fields start with the requested ones; an empty partition matches
  every key.\<close>

theorem partition_prefix_exact:
  assumes "list_all wf_field p" and "wf_key k"
  shows "take (length (encode (new_key p []))) (encode k) = encode (new_key p []) \<longleftrightarrow>
         take (length p) (key_partition k) = p"
proof -
  have *: "take (length a) b = a \<longleftrightarrow> (\<exists>r. b = a @ r)" for a b :: "'x list"
    by (metis append_eq_conv_conj append_take_drop_id)
  show ?thesis using encode_prefix_iff [OF assms] by (simp add: *)
qed

theorem partition_prefix_exact_witness:
  "list_all wf_field [(''day'', VStr ''d1'')]
   \<and> take (length (encode (new_key [(''day'', VStr ''d1'')] [])))
        (encode (new_key [(''day'', VStr ''d1''), (''hr'', VInt (- 4))] [(''id'', VBool True)]))
      = encode (new_key [(''day'', VStr ''d1'')] [])"
proof -
  have p: "list_all wf_field [(''day'', VStr ''d1'')]"
    by (simp add: wf_field_def wf_name_def utf8_ok_def)
  have k: "wf_key (new_key [(''day'', VStr ''d1''), (''hr'', VInt (- 4))] [(''id'', VBool True)])"
    by (simp add: wf_key_def new_key_def wf_field_def wf_name_def utf8_ok_def
                  in_i64_def i64_min_def i64_max_def)
  show ?thesis using p partition_prefix_exact [OF p k] by (simp add: new_key_def)
qed

end
