(* ===== verification/Commit_Batch.thy ===== *)
theory Commit_Batch
  imports Doc_Model
begin

section \<open>The write vocabulary: operations and commit batches\<close>

text \<open>
  Models the write half of \<open>growlerdb-core/src/api.rs\<close>: \<open>DocOp\<close> with its key, and
  \<open>CommitBatch\<close> with the constructors and builders the ingest path composes. A batch carries
  its operations in order, the checkpoint it brings the index to, an idempotency id, the
  checkpoint it resumes from and the resume floor.
\<close>

record located_doc =
  ld_doc :: document

datatype doc_op = Upsert located_doc | Delete composite_key

fun op_key :: "doc_op \<Rightarrow> composite_key" where
  "op_key (Upsert d) = doc_key (ld_doc d)"
| "op_key (Delete k) = k"

record commit_batch =
  ops :: "doc_op list"
  checkpoint :: source_checkpoint
  batch_id :: string
  from_checkpoint :: "source_checkpoint option"
  safe_checkpoint :: "source_checkpoint option"

definition new_commit_batch :: "doc_op list \<Rightarrow> source_checkpoint \<Rightarrow> string \<Rightarrow> commit_batch" where
  "new_commit_batch os c i =
     \<lparr>ops = os, checkpoint = c, batch_id = i, from_checkpoint = None, safe_checkpoint = None\<rparr>"

definition with_from_checkpoint :: "source_checkpoint option \<Rightarrow> commit_batch \<Rightarrow> commit_batch" where
  "with_from_checkpoint f b = b\<lparr>from_checkpoint := f\<rparr>"

definition with_safe_checkpoint :: "source_checkpoint option \<Rightarrow> commit_batch \<Rightarrow> commit_batch" where
  "with_safe_checkpoint s b = b\<lparr>safe_checkpoint := s\<rparr>"

definition from_upserts :: "located_doc list \<Rightarrow> source_checkpoint \<Rightarrow> string \<Rightarrow> commit_batch" where
  "from_upserts ds c i = new_commit_batch (map Upsert ds) c i"

definition upserts :: "commit_batch \<Rightarrow> located_doc list" where
  "upserts b = List.map_filter (\<lambda>d. case d of Upsert x \<Rightarrow> Some x | Delete _ \<Rightarrow> None) (ops b)"

definition deletes :: "commit_batch \<Rightarrow> composite_key list" where
  "deletes b = List.map_filter (\<lambda>d. case d of Delete k \<Rightarrow> Some k | Upsert _ \<Rightarrow> None) (ops b)"

lemma upserts_from_upserts [simp]:
  "upserts (from_upserts ds c i) = ds" "deletes (from_upserts ds c i) = []"
  by (induction ds) (simp_all add: upserts_def deletes_def from_upserts_def new_commit_batch_def
                                   List.map_filter_def)

text \<open>Every operation of a batch is an upsert or a delete, and the two projections keep it.\<close>

lemma upserts_deletes_count:
  "length (upserts b) + length (deletes b) = length (ops b)"
proof -
  have "length (List.map_filter (\<lambda>d. case d of Upsert x \<Rightarrow> Some x | Delete _ \<Rightarrow> None) os)
        + length (List.map_filter (\<lambda>d. case d of Delete k \<Rightarrow> Some k | Upsert _ \<Rightarrow> None) os) = length os"
    for os
    by (induction os) (auto simp: List.map_filter_def split: doc_op.splits)
  then show ?thesis by (simp add: upserts_def deletes_def)
qed

end
