(* ===== verification/Routing.thy ===== *)
theory Routing
  imports Commit_Batch "HOL-Library.Multiset"
begin

section \<open>Shard routing\<close>

text \<open>
  Models \<open>growlerdb-core/src/routing.rs\<close>: the FNV-1a hash, the two placements of a
  \<open>ShardRouter\<close> (legacy modulo and the bucket map), batch partitioning, and the operations of
  \<open>BucketMap\<close>. An out-of-range index, on which the code panics, is the value \<open>None\<close>; the lemmas
  show it never occurs on a router the constructors build.

  Shown: every key has exactly one owner below the shard count; a balanced bucket map over a
  divisor of the bucket count places keys as the legacy modulo does; partitioning a batch keeps
  every operation, in order, on its owner; an accepted owners table is dense; reassignment
  terminates without running off the table, reaches the exact per-shard targets, reports exactly
  the buckets whose owner changed and moves the fewest buckets any map with those targets can; a
  recommended skew move is always accepted.
\<close>

unbundle bit_operations_syntax

subsection \<open>Routers\<close>

definition NUM_BUCKETS :: nat where
  "NUM_BUCKETS = 1024"

datatype routing_strategy = Hash | Partition

record bucket_map =
  owners :: "nat list"

datatype placement = Legacy_placement nat | Bucketed bucket_map

record shard_router =
  strategy :: routing_strategy
  router_placement :: placement

definition new_router :: "nat \<Rightarrow> routing_strategy \<Rightarrow> shard_router" where
  "new_router n st = \<lparr>strategy = st, router_placement = Legacy_placement (max n 1)\<rparr>"

definition hashed :: "nat \<Rightarrow> shard_router" where
  "hashed n = new_router n Hash"

definition partitioned :: "nat \<Rightarrow> shard_router" where
  "partitioned n = new_router n Partition"

definition bucketed :: "routing_strategy \<Rightarrow> bucket_map \<Rightarrow> shard_router" where
  "bucketed st m = \<lparr>strategy = st, router_placement = Bucketed m\<rparr>"

text \<open>\<open>BucketMap::shards\<close>: one past the maximum owner.\<close>

definition map_shards :: "bucket_map \<Rightarrow> nat" where
  "map_shards m = (if owners m = [] then 1 else Max (set (owners m)) + 1)"

definition router_shards :: "shard_router \<Rightarrow> nat" where
  "router_shards r =
     (case router_placement r of Legacy_placement n \<Rightarrow> n | Bucketed m \<Rightarrow> map_shards m)"

definition router_bucket_map :: "shard_router \<Rightarrow> bucket_map option" where
  "router_bucket_map r =
     (case router_placement r of Bucketed m \<Rightarrow> Some m | Legacy_placement _ \<Rightarrow> None)"

definition fnv1a :: "byte list \<Rightarrow> 64 word" where
  "fnv1a bs = foldl (\<lambda>h b. (h XOR ucast b) * 0x100000001b3) 0xcbf29ce484222325 bs"

definition strategy_bytes :: "shard_router \<Rightarrow> composite_key \<Rightarrow> byte list" where
  "strategy_bytes r k =
     (case strategy r of
        Hash \<Rightarrow> encode k
      | Partition \<Rightarrow> if key_partition k \<noteq> [] then encode (new_key (key_partition k) []) else encode k)"

definition bucket :: "shard_router \<Rightarrow> composite_key \<Rightarrow> nat" where
  "bucket r k = unat (fnv1a (strategy_bytes r k)) mod NUM_BUCKETS"

definition owner :: "bucket_map \<Rightarrow> nat \<Rightarrow> nat option" where
  "owner m b = (if b < length (owners m) then Some (owners m ! b) else None)"

definition route :: "shard_router \<Rightarrow> composite_key \<Rightarrow> nat option" where
  "route r k =
     (case router_placement r of
        Legacy_placement n \<Rightarrow>
          if n \<le> 1 then Some 0 else Some (unat (fnv1a (strategy_bytes r k)) mod n)
      | Bucketed m \<Rightarrow> owner m (bucket r k))"

definition owns :: "shard_router \<Rightarrow> composite_key \<Rightarrow> nat \<Rightarrow> bool" where
  "owns r k ordinal \<longleftrightarrow> route r k = Some ordinal"

subsection \<open>Placing a batch\<close>

text \<open>The loop that pushes every operation on its shard's list.\<close>

fun place_ops :: "shard_router \<Rightarrow> doc_op list list \<Rightarrow> doc_op list \<Rightarrow> doc_op list list option" where
  "place_ops r per_shard [] = Some per_shard"
| "place_ops r per_shard (x # xs) =
     (case route r (op_key x) of
        None \<Rightarrow> None
      | Some s \<Rightarrow>
          if s < length per_shard then place_ops r (per_shard[s := per_shard ! s @ [x]]) xs
          else None)"

definition sub_batch :: "commit_batch \<Rightarrow> nat \<Rightarrow> doc_op list \<Rightarrow> commit_batch" where
  "sub_batch b ordinal os =
     with_safe_checkpoint (safe_checkpoint b)
       (with_from_checkpoint (from_checkpoint b)
         (new_commit_batch os (checkpoint b) (batch_id b @ ''#s'' @ show_nat ordinal)))"

definition partition_batch :: "shard_router \<Rightarrow> commit_batch \<Rightarrow> commit_batch list option" where
  "partition_batch r b =
     map_option (\<lambda>per_shard. map (\<lambda>(i, os). sub_batch b i os) (enumerate 0 per_shard))
       (place_ops r (replicate (router_shards r) []) (ops b))"

subsection \<open>Bucket maps\<close>

datatype bucket_map_error =
    WrongLength nat
  | OwnerTooLarge nat
  | NotDense nat
  | BucketOutOfRange nat
  | ShardOutOfRange nat nat

definition balanced :: "nat \<Rightarrow> bucket_map" where
  "balanced n = (let n = max n 1 in \<lparr>owners = map (\<lambda>b. b mod n) [0..<NUM_BUCKETS]\<rparr>)"

definition from_owners :: "nat list \<Rightarrow> bucket_map_error + bucket_map" where
  "from_owners os =
     (if length os \<noteq> NUM_BUCKETS then Inl (WrongLength (length os))
      else
        (case List.find (\<lambda>x. NUM_BUCKETS \<le> x) os of
           Some bad \<Rightarrow> Inl (OwnerTooLarge bad)
         | None \<Rightarrow>
             let mx = (if os = [] then 0 else Max (set os));
                 seen = fold (\<lambda>x seen. seen[x := True]) os (replicate (mx + 1) False)
             in case position (\<lambda>s. \<not> s) seen of
                  Some missing \<Rightarrow> Inl (NotDense missing)
                | None \<Rightarrow> Inr \<lparr>owners = os\<rparr>))"

definition from_registry ::
    "routing_strategy \<Rightarrow> nat list \<Rightarrow> nat \<Rightarrow> bucket_map_error + shard_router" where
  "from_registry st bucket_owners shard_count =
     (if bucket_owners = [] then Inr (new_router shard_count st)
      else res_bind (from_owners bucket_owners) (\<lambda>m. Inr (bucketed st m)))"

definition counts :: "bucket_map \<Rightarrow> nat list" where
  "counts m = fold (\<lambda>x c. c[x := c ! x + 1]) (owners m) (replicate (map_shards m) 0)"

definition with_owner :: "bucket_map \<Rightarrow> nat \<Rightarrow> nat \<Rightarrow> bucket_map_error + bucket_map" where
  "with_owner m b s =
     (if NUM_BUCKETS \<le> b then Inl (BucketOutOfRange b)
      else if map_shards m \<le> s then Inl (ShardOutOfRange s (map_shards m))
      else from_owners ((owners m)[b := s]))"

text \<open>\<open>Iterator::max_by_key\<close> keeps the last maximum, \<open>min_by_key\<close> the first minimum.\<close>

fun max_by_key :: "(nat \<times> nat) list \<Rightarrow> (nat \<times> nat) option" where
  "max_by_key [] = None"
| "max_by_key (x # xs) =
     Some (foldl (\<lambda>best y. if snd best \<le> snd y then y else best) x xs)"

fun min_by_key :: "(nat \<times> nat) list \<Rightarrow> (nat \<times> nat) option" where
  "min_by_key [] = None"
| "min_by_key (x # xs) =
     Some (foldl (\<lambda>best y. if snd y < snd best then y else best) x xs)"

definition recommend_skew_move :: "bucket_map \<Rightarrow> nat list \<Rightarrow> (nat \<times> nat \<times> nat) option" where
  "recommend_skew_move m per_shard_docs =
     (if length per_shard_docs \<noteq> map_shards m \<or> length per_shard_docs < 2 then None
      else
        (case (max_by_key (enumerate 0 per_shard_docs), min_by_key (enumerate 0 per_shard_docs)) of
           (Some (src, mx), Some (dst, mn)) \<Rightarrow>
             if src = dst \<or> mx \<le> (mn + mn div 10) mod 2 ^ 64 then None
             else if counts m ! src \<le> 1 then None
             else map_option (\<lambda>b. (b, src, dst))
                    (List.find (\<lambda>b. owner m b = Some src) [0..<NUM_BUCKETS])
         | _ \<Rightarrow> None))"

subsection \<open>Reassignment\<close>

record reassignment =
  re_map :: bucket_map
  re_moved :: "(nat \<times> nat \<times> nat) list"

definition target :: "nat \<Rightarrow> nat \<Rightarrow> nat" where
  "target n s = NUM_BUCKETS div n + (if s < NUM_BUCKETS mod n then 1 else 0)"

text \<open>First pass: a bucket stays on a surviving owner that is not full.\<close>

fun keep_pass :: "nat \<Rightarrow> (nat \<Rightarrow> nat) \<Rightarrow> nat list \<Rightarrow> nat list \<Rightarrow> (nat \<times> nat) list \<Rightarrow> nat list \<times> nat list"
where
  "keep_pass n tgt held displaced [] = (held, displaced)"
| "keep_pass n tgt held displaced ((b, x) # bs) =
     (if x < n \<and> held ! x < tgt x
      then keep_pass n tgt (held[x := held ! x + 1]) displaced bs
      else keep_pass n tgt held (displaced @ [b]) bs)"

text \<open>The inner loop: the next shard under target; \<open>None\<close> is the index running off \<open>held\<close>.\<close>

function next_open :: "(nat \<Rightarrow> nat) \<Rightarrow> nat list \<Rightarrow> nat \<Rightarrow> nat option" where
  "next_open tgt held nx =
     (if nx < length held then
        if tgt nx \<le> held ! nx then next_open tgt held (nx + 1) else Some nx
      else None)"
  by pat_completeness auto
termination
  by (relation "measure (\<lambda>(tgt, held, nx). length held - nx)") auto

declare next_open.simps [simp del]

text \<open>Second pass: displaced buckets go to the lowest shard still under target.\<close>

fun move_pass ::
    "(nat \<Rightarrow> nat) \<Rightarrow> nat list \<Rightarrow> nat list \<Rightarrow> nat \<Rightarrow> nat list \<Rightarrow> (nat \<times> nat \<times> nat) list \<Rightarrow> nat list
      \<Rightarrow> (nat list \<times> (nat \<times> nat \<times> nat) list) option" where
  "move_pass tgt old held nx os moved [] = Some (os, moved)"
| "move_pass tgt old held nx os moved (b # bs) =
     (case next_open tgt held nx of
        None \<Rightarrow> None
      | Some s \<Rightarrow>
          move_pass tgt old (held[s := held ! s + 1]) s (os[b := s]) (moved @ [(b, old ! b, s)]) bs)"

definition reassign :: "bucket_map \<Rightarrow> nat \<Rightarrow> reassignment option" where
  "reassign m new_shards =
     (let n = max new_shards 1;
          (held, displaced) = keep_pass n (target n) (replicate n 0) [] (enumerate 0 (owners m))
      in map_option (\<lambda>(os, moved). \<lparr>re_map = \<lparr>owners = os\<rparr>, re_moved = moved\<rparr>)
           (move_pass (target n) (owners m) held 0 (owners m) [] displaced))"

subsection \<open>Well-formedness\<close>

text \<open>The invariant of \<open>BucketMap\<close>: all buckets assigned, every shard below the count used.\<close>

definition bm_ok :: "bucket_map \<Rightarrow> bool" where
  "bm_ok m \<longleftrightarrow> length (owners m) = NUM_BUCKETS \<and> set (owners m) = {..<map_shards m}"

definition router_ok :: "shard_router \<Rightarrow> bool" where
  "router_ok r =
     (case router_placement r of Legacy_placement n \<Rightarrow> 0 < n | Bucketed m \<Rightarrow> bm_ok m)"

lemma in_set_enumerate0: "(i, x) \<in> set (enumerate 0 xs) \<longleftrightarrow> i < length xs \<and> xs ! i = x"
  by (auto simp: in_set_enumerate_eq)

subsection \<open>Placement\<close>

lemma NUM_BUCKETS_pos [simp]: "0 < NUM_BUCKETS"
  by (simp add: NUM_BUCKETS_def)

lemma length_balanced [simp]: "length (owners (balanced n)) = NUM_BUCKETS"
  by (simp add: balanced_def Let_def)

lemma nth_balanced [simp]: "b < NUM_BUCKETS \<Longrightarrow> owners (balanced n) ! b = b mod max n 1"
  by (simp add: balanced_def Let_def)

locale router =
  fixes rt :: "composite_key \<Rightarrow> nat option"
    and n :: nat
  assumes rt_total: "\<exists>s < n. rt k = Some s"
begin

definition shard_of :: "doc_op \<Rightarrow> nat" where
  "shard_of x = the (rt (op_key x))"

lemma rt_shard_of: "rt (op_key x) = Some (shard_of x)" and shard_of_less: "shard_of x < n"
  using rt_total [of "op_key x"] by (auto simp: shard_of_def)

lemma same_key_same_shard: "op_key x = op_key y \<Longrightarrow> shard_of x = shard_of y"
  by (simp add: shard_of_def)

lemma filter_partition_mset:
  "(\<Sum>s < n. mset (filter (\<lambda>x. shard_of x = s) xs)) = mset xs"
proof (induction xs)
  case Nil
  then show ?case by simp
next
  case (Cons x xs)
  have "(\<Sum>s < n. mset (filter (\<lambda>y. shard_of y = s) (x # xs)))
        = (\<Sum>s < n. (if shard_of x = s then {#x#} else {#}) + mset (filter (\<lambda>y. shard_of y = s) xs))"
    by (rule sum.cong) auto
  also have "\<dots> = {#x#} + mset xs"
    using shard_of_less [of x] Cons.IH by (simp add: sum.distrib del: mset_filter)
  finally show ?case by simp
qed

end

lemma unat_mod_less: "0 < n \<Longrightarrow> unat (w :: 64 word) mod n < n"
  by simp

lemma map_shards_pos [simp]: "0 < map_shards m"
  by (simp add: map_shards_def)

lemma owner_less_shards: "x \<in> set (owners m) \<Longrightarrow> x < map_shards m"
  by (auto simp: map_shards_def less_Suc_eq_le)

lemma route_total: "router_ok r \<Longrightarrow> \<exists>s < router_shards r. route r k = Some s"
proof (cases "router_placement r")
  case (Legacy_placement m)
  assume "router_ok r"
  with Legacy_placement show ?thesis
    by (auto simp: route_def router_shards_def router_ok_def)
next
  case (Bucketed m)
  assume "router_ok r"
  with Bucketed have "bucket r k < length (owners m)"
    by (simp add: router_ok_def bm_ok_def bucket_def NUM_BUCKETS_def)
  with Bucketed show ?thesis
    by (auto simp: route_def router_shards_def owner_def intro: owner_less_shards)
qed

lemma place_ops_filter:
  assumes "router_ok r" and "length acc = router_shards r"
  shows "\<exists>per. place_ops r acc os = Some per \<and> length per = router_shards r \<and>
           (\<forall>s < router_shards r. per ! s = acc ! s @ filter (\<lambda>x. route r (op_key x) = Some s) os)"
  using assms(2)
proof (induction os arbitrary: acc)
  case Nil
  then show ?case by simp
next
  case (Cons x os)
  obtain s where s: "s < router_shards r" "route r (op_key x) = Some s"
    using route_total [OF assms(1)] by blast
  from Cons.IH [of "acc[s := acc ! s @ [x]]"] Cons.prems obtain per where
    "place_ops r (acc[s := acc ! s @ [x]]) os = Some per" "length per = router_shards r"
    "\<forall>t < router_shards r. per ! t =
        acc[s := acc ! s @ [x]] ! t @ filter (\<lambda>x. route r (op_key x) = Some t) os"
    by auto
  then show ?case using s Cons.prems by (auto simp: nth_list_update)
qed

lemma sub_batch_simps [simp]:
  "ops (sub_batch b i os) = os"
  "checkpoint (sub_batch b i os) = checkpoint b"
  "batch_id (sub_batch b i os) = batch_id b @ ''#s'' @ show_nat i"
  "from_checkpoint (sub_batch b i os) = from_checkpoint b"
  "safe_checkpoint (sub_batch b i os) = safe_checkpoint b"
  by (simp_all add: sub_batch_def new_commit_batch_def with_from_checkpoint_def with_safe_checkpoint_def)

lemma partition_batch_shape:
  assumes "router_ok r"
  shows "partition_batch r b = Some (map (\<lambda>s. sub_batch b s
             (filter (\<lambda>x. route r (op_key x) = Some s) (ops b))) [0..<router_shards r])"
proof -
  obtain per where p: "place_ops r (replicate (router_shards r) []) (ops b) = Some per"
    "length per = router_shards r"
    "\<forall>s < router_shards r. per ! s = filter (\<lambda>x. route r (op_key x) = Some s) (ops b)"
    using place_ops_filter [OF assms, of "replicate (router_shards r) []" "ops b"] by auto
  have "map (\<lambda>(i, os). sub_batch b i os) (enumerate 0 per) = map (\<lambda>s. sub_batch b s
             (filter (\<lambda>x. route r (op_key x) = Some s) (ops b))) [0..<router_shards r]"
    by (rule nth_equalityI) (auto simp: p nth_enumerate_eq)
  then show ?thesis by (simp add: partition_batch_def p)
qed

lemma seen_fold:
  "length (fold (\<lambda>x seen. seen[x := True]) os sn) = length sn"
  "i < length sn \<Longrightarrow> fold (\<lambda>x seen. seen[x := True]) os sn ! i \<longleftrightarrow> sn ! i \<or> i \<in> set os"
proof (induction os arbitrary: sn)
  case (Cons x os)
  {
    case 1
    show ?case by (simp add: Cons.IH)
  next
    case 2
    then show ?case
      using Cons.IH(2) [of "sn[x := True]"] by (cases "x = i") auto
  }
qed auto

lemma from_owners_Inr:
  "from_owners os = Inr m \<longleftrightarrow> m = \<lparr>owners = os\<rparr> \<and> bm_ok m"
proof (cases "length os = NUM_BUCKETS")
  case False
  then have "from_owners os = Inl (WrongLength (length os))" and "\<not> bm_ok \<lparr>owners = os\<rparr>"
    by (simp_all add: from_owners_def bm_ok_def)
  then show ?thesis by auto
next
  case len: True
  then have ne: "os \<noteq> []" by (auto simp: NUM_BUCKETS_def)
  let ?mx = "Max (set os)"
  let ?seen = "fold (\<lambda>x seen. seen[x := True]) os (replicate (?mx + 1) False)"
  define full where "full \<longleftrightarrow> (\<forall>i \<le> ?mx. i \<in> set os)"
  have dense: "position (\<lambda>s. \<not> s) ?seen = None \<longleftrightarrow> full"
    by (auto simp: full_def position_None all_set_conv_all_nth seen_fold less_Suc_eq_le
             simp del: replicate_Suc)
  have eq: "full \<longleftrightarrow> {..?mx} = set os"
    using ne by (auto simp: full_def)
  have small: "\<forall>x \<in> set os. x < NUM_BUCKETS" if full
  proof
    fix x assume x: "x \<in> set os"
    have "card (set os) = Suc ?mx" using that eq by (metis card_atMost)
    then have "?mx < NUM_BUCKETS" using len card_length [of os] by simp
    moreover have "x \<le> ?mx" using x by simp
    ultimately show "x < NUM_BUCKETS" by simp
  qed
  have bm: "bm_ok \<lparr>owners = os\<rparr> \<longleftrightarrow> full"
  proof -
    have "map_shards \<lparr>owners = os\<rparr> = Suc ?mx" using ne by (simp add: map_shards_def)
    then have "bm_ok \<lparr>owners = os\<rparr> \<longleftrightarrow> set os = {..?mx}"
      using len unfolding bm_ok_def by (metis lessThan_Suc_atMost bucket_map.select_convs(1))
    then show ?thesis unfolding eq by (rule trans) (rule eq_commute)
  qed
  show ?thesis
  proof (cases "List.find (\<lambda>x. NUM_BUCKETS \<le> x) os")
    case None
    then show ?thesis
      using dense bm len ne by (auto simp: from_owners_def split: option.splits)
  next
    case (Some bad)
    then have "\<not> bm_ok \<lparr>owners = os\<rparr>" using small bm find_Some_mem [OF Some] by (auto simp: not_le [symmetric])
    with Some len show ?thesis by (auto simp: from_owners_def)
  qed
qed

lemma bm_ok_balanced:
  assumes "n \<le> NUM_BUCKETS"
  shows "bm_ok (balanced n)" and "map_shards (balanced n) = max n 1"
proof -
  let ?n = "max n 1"
  have os: "set (owners (balanced n)) = {..<?n}"
  proof -
    have "x \<in> (\<lambda>b. b mod ?n) ` {0..<NUM_BUCKETS}" if "x < ?n" for x
      using that assms NUM_BUCKETS_pos by (intro image_eqI [of _ _ x]) (auto simp del: NUM_BUCKETS_pos)
    then show ?thesis by (auto simp: balanced_def Let_def)
  qed
  have ne: "owners (balanced n) \<noteq> []" by (metis NUM_BUCKETS_pos length_balanced length_greater_0_conv)
  have "Max {..<?n} = ?n - 1"
    by (rule Max_eqI) auto
  then show sh: "map_shards (balanced n) = ?n" using ne os by (simp add: map_shards_def)
  show "bm_ok (balanced n)"
    using os sh by (simp add: bm_ok_def)
qed

lemma balanced_matches_legacy:
  assumes "n dvd NUM_BUCKETS"
  shows "route (bucketed st (balanced n)) k = route (new_router n st) k"
proof -
  have n: "0 < n" using assms NUM_BUCKETS_pos by (metis dvd_0_left_iff gr0I neq0_conv)
  have sb: "strategy_bytes (bucketed st (balanced n)) k = strategy_bytes (new_router n st) k"
    by (simp add: strategy_bytes_def bucketed_def new_router_def)
  let ?h = "unat (fnv1a (strategy_bytes (new_router n st) k))"
  have "?h mod NUM_BUCKETS mod n = ?h mod n" using assms by (simp add: mod_mod_cancel)
  moreover have "?h mod n = 0" if "n \<le> 1" using that n by (cases n) auto
  ultimately show ?thesis
    using n unfolding route_def bucket_def sb
    by (auto simp: bucketed_def new_router_def owner_def max_def)
qed

subsection \<open>Counting\<close>

lemma count_list_card: "count_list xs s = card {b. b < length xs \<and> xs ! b = s}"
  by (simp add: count_list_eq_length_filter length_filter_conv_card eq_commute)

text \<open>Splitting the buckets of a set by an owner below \<open>n\<close>.\<close>

lemma card_by_owner:
  assumes "\<And>b. b < L \<Longrightarrow> P b \<Longrightarrow> f b < (n::nat)"
  shows "(\<Sum>s < n. card {b. b < L \<and> P b \<and> f b = s}) = card {b. b < (L::nat) \<and> P b}"
proof -
  let ?S = "{b. b < L \<and> P b}"
  have fin: "finite ?S" by simp
  have "(\<Sum>s < n. card {b. b < L \<and> P b \<and> f b = s}) = (\<Sum>s < n. \<Sum>b \<in> {b \<in> ?S. f b = s}. 1)"
    by (intro sum.cong) (auto intro!: arg_cong [where f = card])
  also have "\<dots> = (\<Sum>b \<in> ?S. 1)"
    using assms by (intro sum.group) auto
  finally show ?thesis by simp
qed

lemma sum_target:
  assumes "0 < n"
  shows "(\<Sum>s < n. target n s) = NUM_BUCKETS"
proof -
  have "(\<Sum>s < n. if s < NUM_BUCKETS mod n then 1 else (0::nat)) = card {s. s < n \<and> s < NUM_BUCKETS mod n}"
    by (simp add: sum.If_cases) (auto intro!: arg_cong [where f = card])
  also have "{s. s < n \<and> s < NUM_BUCKETS mod n} = {..<NUM_BUCKETS mod n}"
    using assms by (auto intro: less_trans [OF _ mod_less_divisor])
  finally have "(\<Sum>s < n. if s < NUM_BUCKETS mod n then 1 else (0::nat)) = NUM_BUCKETS mod n" by simp
  then show ?thesis
    by (simp add: target_def sum.distrib)
qed

subsection \<open>First pass\<close>

lemma keep_pass_spec:
  assumes "keep_pass n t held disp bs = (held', disp')"
    and "length held = n" and "\<And>s. s < n \<Longrightarrow> held ! s \<le> t s" and "distinct (map fst bs)"
  shows "\<exists>d. disp' = disp @ d \<and> distinct d \<and> set d \<subseteq> fst ` set bs \<and> length held' = n
    \<and> (\<forall>s < n. held' ! s = min (t s) (held ! s + length (filter (\<lambda>e. snd e = s) bs)))
    \<and> (\<forall>s < n. held' ! s = held ! s + length (filter (\<lambda>e. snd e = s \<and> fst e \<notin> set d) bs))
    \<and> (\<forall>e \<in> set bs. fst e \<in> set d \<longrightarrow> snd e < n \<longrightarrow> held' ! snd e = t (snd e))
    \<and> (\<forall>e \<in> set bs. fst e \<notin> set d \<longrightarrow> snd e < n)"
  using assms
proof (induction n t held disp bs arbitrary: held' disp' rule: keep_pass.induct)
  case (1 n t held disp)
  then show ?case by (intro exI [of _ "[]"]) auto
next
  case (2 n t held disp b x bs)
  show ?case
  proof (cases "x < n \<and> held ! x < t x")
    case True
    let ?h = "held[x := held ! x + 1]"
    have bound: "\<And>s. s < n \<Longrightarrow> ?h ! s \<le> t s"
      using "2.prems" True by (auto simp: nth_list_update)
    obtain d where d: "disp' = disp @ d" "distinct d" "set d \<subseteq> fst ` set bs" "length held' = n"
      "\<And>s. s < n \<Longrightarrow> held' ! s = min (t s) (?h ! s + length (filter (\<lambda>e. snd e = s) bs))"
      "\<And>s. s < n \<Longrightarrow> held' ! s = ?h ! s + length (filter (\<lambda>e. snd e = s \<and> fst e \<notin> set d) bs)"
      "\<And>e. e \<in> set bs \<Longrightarrow> fst e \<in> set d \<Longrightarrow> snd e < n \<Longrightarrow> held' ! snd e = t (snd e)"
      "\<And>e. e \<in> set bs \<Longrightarrow> fst e \<notin> set d \<Longrightarrow> snd e < n"
      using "2.IH"(1) [OF True, of held' disp'] "2.prems" True bound by fastforce
    have b: "b \<notin> set d" using d(3) "2.prems"(4) by auto
    have h: "?h ! s = (if s = x then held ! s + 1 else held ! s)" if "s < n" for s
      using that "2.prems"(2) by (auto simp: nth_list_update)
    show ?thesis
    proof (intro exI [of _ d] conjI allI impI ballI)
      fix s assume s: "s < n"
      show "held' ! s = min (t s) (held ! s + length (filter (\<lambda>e. snd e = s) ((b, x) # bs)))"
        using d(5) [OF s] h [OF s] by (auto split: if_splits)
      show "held' ! s = held ! s + length (filter (\<lambda>e. snd e = s \<and> fst e \<notin> set d) ((b, x) # bs))"
        using d(6) [OF s] h [OF s] b by (auto split: if_splits)
    qed (use d b True in auto)
  next
    case False
    obtain d where d: "disp' = (disp @ [b]) @ d" "distinct d" "set d \<subseteq> fst ` set bs" "length held' = n"
      "\<And>s. s < n \<Longrightarrow> held' ! s = min (t s) (held ! s + length (filter (\<lambda>e. snd e = s) bs))"
      "\<And>s. s < n \<Longrightarrow> held' ! s = held ! s + length (filter (\<lambda>e. snd e = s \<and> fst e \<notin> set d) bs)"
      "\<And>e. e \<in> set bs \<Longrightarrow> fst e \<in> set d \<Longrightarrow> snd e < n \<Longrightarrow> held' ! snd e = t (snd e)"
      "\<And>e. e \<in> set bs \<Longrightarrow> fst e \<notin> set d \<Longrightarrow> snd e < n"
      using "2.IH"(2) [OF False, of held' disp'] "2.prems" False by fastforce
    have b: "b \<notin> set d" "b \<notin> fst ` set bs" using d(3) "2.prems"(4) by auto
    have full: "held ! x = t x" if "x < n"
      using that False "2.prems"(3) [OF that] by simp
    have f: "filter (\<lambda>e. snd e = s \<and> fst e \<notin> set (b # d)) bs
             = filter (\<lambda>e. snd e = s \<and> fst e \<notin> set d) bs" for s
      using b(2) by (intro filter_cong) force+
    have hx: "held' ! x = t x" if "x < n"
      using d(5) [OF that] full [OF that] by simp
    show ?thesis
    proof (intro exI [of _ "b # d"] conjI allI impI ballI)
      show "disp' = disp @ b # d" "distinct (b # d)" "set (b # d) \<subseteq> fst ` set ((b, x) # bs)"
        "length held' = n" using d b by auto
    next
      fix s assume s: "s < n"
      show "held' ! s = min (t s) (held ! s + length (filter (\<lambda>e. snd e = s) ((b, x) # bs)))"
        using d(5) [OF s] full s by auto
      show "held' ! s = held ! s + length (filter (\<lambda>e. snd e = s \<and> fst e \<notin> set (b # d)) ((b, x) # bs))"
        using d(6) [OF s] f by simp
    next
      fix e assume "e \<in> set ((b, x) # bs)" "fst e \<in> set (b # d)" "snd e < n"
      then show "held' ! snd e = t (snd e)" using d(7) [of e] hx b(2) by auto
    next
      fix e assume "e \<in> set ((b, x) # bs)" "fst e \<notin> set (b # d)"
      then show "snd e < n" using d(8) [of e] by auto
    qed
  qed
qed

subsection \<open>Second pass\<close>

lemma next_open_Some:
  assumes "nx \<le> s" and "s < length held" and "held ! s < t s"
  shows "\<exists>r. next_open t held nx = Some r \<and> r < length held \<and> held ! r < t r
           \<and> nx \<le> r \<and> (\<forall>j. nx \<le> j \<longrightarrow> j < r \<longrightarrow> t j \<le> held ! j)"
  using assms
proof (induction t held nx rule: next_open.induct)
  case (1 t held nx)
  show ?case
  proof (cases "nx < length held \<and> t nx \<le> held ! nx")
    case True
    with "1.prems" have "Suc nx \<le> s" by (metis Suc_leI le_neq_implies_less leD)
    then obtain r where "next_open t held (nx + 1) = Some r" "r < length held" "held ! r < t r"
      "Suc nx \<le> r" "\<forall>j. Suc nx \<le> j \<longrightarrow> j < r \<longrightarrow> t j \<le> held ! j"
      using "1.IH" True "1.prems" by auto
    moreover from this True have "\<forall>j. nx \<le> j \<longrightarrow> j < r \<longrightarrow> t j \<le> held ! j"
      by (metis Suc_leI le_neq_implies_less)
    ultimately show ?thesis
      using True by (subst next_open.simps) auto
  next
    case False
    with "1.prems" show ?thesis by (subst next_open.simps) auto
  qed
qed


lemma move_pass_spec:
  assumes "length os = L" and "length held = n" and "distinct bs" and "set bs \<subseteq> {..<L}"
    and "\<And>s. s < n \<Longrightarrow> held ! s = card {b. b < L \<and> b \<notin> set bs \<and> os ! b = s}"
    and "\<And>s. s < n \<Longrightarrow> held ! s \<le> t s" and "\<And>s. s < nx \<Longrightarrow> s < n \<Longrightarrow> t s \<le> held ! s"
    and "\<And>b. b < L \<Longrightarrow> b \<notin> set bs \<Longrightarrow> os ! b < n" and "(\<Sum>s < n. t s) = L"
  shows "\<exists>os'. move_pass t old held nx os moved bs
                  = Some (os', moved @ map (\<lambda>b. (b, old ! b, os' ! b)) bs)
           \<and> length os' = L \<and> (\<forall>b < L. b \<notin> set bs \<longrightarrow> os' ! b = os ! b)
           \<and> (\<forall>b \<in> set bs. os' ! b < n \<and> held ! (os' ! b) < t (os' ! b))
           \<and> (\<forall>s < n. count_list os' s = t s)"
  using assms
proof (induction bs arbitrary: held nx os moved)
  case Nil
  have "(\<Sum>s < n. held ! s) = card {b. b < L}"
    using card_by_owner [of L "\<lambda>b. True" "\<lambda>b. os ! b" n] Nil.prems(5,8) by simp
  then have "(\<Sum>s < n. held ! s) = (\<Sum>s < n. t s)" using Nil.prems(9) by simp
  then have "held ! s = t s" if "s < n" for s
    using that Nil.prems(6) sum_mono_inv [of "\<lambda>s. held ! s" "{..<n}" t s] by simp
  then show ?case using Nil.prems(1,5) by (auto simp: count_list_card)
next
  case (Cons b bs)
  have bL: "b < L" "b \<notin> set bs" using Cons.prems by auto
  have "\<exists>s < n. held ! s < t s"
  proof (rule ccontr)
    assume "\<not> (\<exists>s < n. held ! s < t s)"
    then have "(\<Sum>s < n. t s) \<le> (\<Sum>s < n. held ! s)" by (intro sum_mono) (meson lessThan_iff not_less)
    also have "\<dots> = card {x. x < L \<and> x \<notin> set (b # bs)}"
      using card_by_owner [of L "\<lambda>x. x \<notin> set (b # bs)" "\<lambda>x. os ! x" n] Cons.prems(5,8) by simp
    also have "\<dots> < card {..<L}" using bL by (intro psubset_card_mono) auto
    finally show False using Cons.prems(9) by simp
  qed
  then obtain s0 where s0: "s0 < n" "held ! s0 < t s0" by blast
  then have "nx \<le> s0" using Cons.prems(7) by (metis leD not_le)
  from next_open_Some [OF this, of held t] s0 Cons.prems(2) obtain s where
    s: "next_open t held nx = Some s" "s < n" "held ! s < t s"
    "\<And>j. nx \<le> j \<Longrightarrow> j < s \<Longrightarrow> t j \<le> held ! j" "nx \<le> s" by auto
  let ?held = "held[s := held ! s + 1]" and ?os = "os[b := s]"
  have h: "?held ! x = (if x = s then held ! x + 1 else held ! x)" if "x < n" for x
    using that Cons.prems(2) by (auto simp: nth_list_update)
  have o: "?os ! x = (if x = b then s else os ! x)" if "x < L" for x
    using that Cons.prems(1) by (auto simp: nth_list_update)
  have cnt: "?held ! x = card {y. y < L \<and> y \<notin> set bs \<and> ?os ! y = x}" if x: "x < n" for x
  proof -
    let ?A = "{y. y < L \<and> y \<notin> set (b # bs) \<and> os ! y = x}"
    have "{y. y < L \<and> y \<notin> set bs \<and> ?os ! y = x} = (if x = s then insert b ?A else ?A)"
      using bL o by auto
    then show ?thesis using h [OF x] Cons.prems(5) [OF x] by (cases "x = s") auto
  qed
  have "\<exists>os'. move_pass t old ?held s ?os (moved @ [(b, old ! b, s)]) bs
       = Some (os', (moved @ [(b, old ! b, s)]) @ map (\<lambda>b. (b, old ! b, os' ! b)) bs)
     \<and> length os' = L \<and> (\<forall>x < L. x \<notin> set bs \<longrightarrow> os' ! x = ?os ! x)
     \<and> (\<forall>x \<in> set bs. os' ! x < n \<and> ?held ! (os' ! x) < t (os' ! x))
     \<and> (\<forall>x < n. count_list os' x = t x)"
  proof (rule Cons.IH)
    show "?held ! x \<le> t x" if "x < n" for x
      using h [OF that] s Cons.prems(6) [OF that] by auto
    show "t x \<le> ?held ! x" if "x < s" "x < n" for x
      using h [OF that(2)] s(4) [of x] Cons.prems(7) [of x] that by (cases "nx \<le> x") auto
    show "?os ! x < n" if "x < L" "x \<notin> set bs" for x
      using o [OF that(1)] s Cons.prems(8) [of x] that by auto
  qed (use Cons.prems cnt in auto)
  then obtain os' where os':
    "move_pass t old ?held s ?os (moved @ [(b, old ! b, s)]) bs
       = Some (os', (moved @ [(b, old ! b, s)]) @ map (\<lambda>b. (b, old ! b, os' ! b)) bs)"
    "length os' = L" "\<And>x. x < L \<Longrightarrow> x \<notin> set bs \<Longrightarrow> os' ! x = ?os ! x"
    "\<And>x. x \<in> set bs \<Longrightarrow> os' ! x < n \<and> ?held ! (os' ! x) < t (os' ! x)"
    "\<And>x. x < n \<Longrightarrow> count_list os' x = t x"
    by blast
  have "os' ! b = s" using os'(3) [OF bL] o bL by simp
  moreover have "os' ! x < n \<and> held ! (os' ! x) < t (os' ! x)" if "x \<in> set bs" for x
    using os'(4) [OF that] h [of "os' ! x"] by (auto split: if_splits)
  ultimately show ?case
    using os' s o bL by (intro exI [of _ os']) auto
qed

subsection \<open>Reassignment reaches its targets\<close>

lemma filter_enumerate_card:
  "length (filter (\<lambda>e. snd e = s \<and> P (fst e)) (enumerate 0 xs))
     = card {b. b < length xs \<and> P b \<and> xs ! b = s}"
proof -
  have "length (filter (\<lambda>e. snd e = s \<and> P (fst e)) (enumerate 0 xs))
        = card {i. i < length xs \<and> xs ! i = s \<and> P i}"
    by (simp add: length_filter_conv_card nth_enumerate_eq cong: conj_cong)
  also have "{i. i < length xs \<and> xs ! i = s \<and> P i} = {b. b < length xs \<and> P b \<and> xs ! b = s}"
    by auto
  finally show ?thesis .
qed

lemma keep_pass_start:
  assumes "keep_pass n t (replicate n 0) [] (enumerate 0 os) = (held, d)"
  shows "distinct d" and "set d \<subseteq> {..<length os}" and "length held = n"
    and "\<And>s. s < n \<Longrightarrow> held ! s = min (t s) (count_list os s)"
    and "\<And>s. s < n \<Longrightarrow> held ! s = card {b. b < length os \<and> b \<notin> set d \<and> os ! b = s}"
    and "\<And>b. b \<in> set d \<Longrightarrow> os ! b < n \<Longrightarrow> held ! (os ! b) = t (os ! b)"
    and "\<And>b. b < length os \<Longrightarrow> b \<notin> set d \<Longrightarrow> os ! b < n"
proof -
  obtain d' where d': "d = [] @ d'" "distinct d'" "set d' \<subseteq> fst ` set (enumerate 0 os)" "length held = n"
    "\<forall>s < n. held ! s = min (t s) (replicate n 0 ! s + length (filter (\<lambda>e. snd e = s) (enumerate 0 os)))"
    "\<forall>s < n. held ! s = replicate n 0 ! s + length (filter (\<lambda>e. snd e = s \<and> fst e \<notin> set d') (enumerate 0 os))"
    "\<forall>e \<in> set (enumerate 0 os). fst e \<in> set d' \<longrightarrow> snd e < n \<longrightarrow> held ! snd e = t (snd e)"
    "\<forall>e \<in> set (enumerate 0 os). fst e \<notin> set d' \<longrightarrow> snd e < n"
    using keep_pass_spec [OF assms] by auto
  show "distinct d" "length held = n" using d' by auto
  show sub: "set d \<subseteq> {..<length os}" using d'(1,3) by (auto simp: in_set_enumerate0)
  show "held ! s = min (t s) (count_list os s)" if "s < n" for s
    using d'(5) that filter_enumerate_card [of s "\<lambda>_. True" os] by (simp add: count_list_card)
  show "held ! s = card {b. b < length os \<and> b \<notin> set d \<and> os ! b = s}" if "s < n" for s
    using d'(1,6) that filter_enumerate_card [of s "\<lambda>b. b \<notin> set d'" os] by simp
  show "held ! (os ! b) = t (os ! b)" if "b \<in> set d" "os ! b < n" for b
    using bspec [OF d'(7), of "(b, os ! b)"] that sub d'(1) by (auto simp: in_set_enumerate0)
  show "os ! b < n" if "b < length os" "b \<notin> set d" for b
    using bspec [OF d'(8), of "(b, os ! b)"] that d'(1) by (auto simp: in_set_enumerate0)
qed

text \<open>What a reassignment is: the exact targets, the moved buckets in order with both owners.\<close>

lemma reassign_spec:
  assumes "length (owners m) = NUM_BUCKETS"
  shows "\<exists>r d. reassign m n = Some r \<and> length (owners (re_map r)) = NUM_BUCKETS
     \<and> (\<forall>s < max n 1. count_list (owners (re_map r)) s = target (max n 1) s)
     \<and> re_moved r = map (\<lambda>b. (b, owners m ! b, owners (re_map r) ! b)) d
     \<and> distinct d \<and> set d = {b. b < NUM_BUCKETS \<and> owners m ! b \<noteq> owners (re_map r) ! b}
     \<and> length d = NUM_BUCKETS - (\<Sum>s < max n 1. min (target (max n 1) s) (count_list (owners m) s))"
proof -
  let ?n = "max n 1" and ?t = "target (max n 1)" and ?L = "length (owners m)"
  obtain held d where k: "keep_pass ?n ?t (replicate ?n 0) [] (enumerate 0 (owners m)) = (held, d)"
    by fastforce
  note ks = keep_pass_start [OF k]
  have "\<exists>os'. move_pass ?t (owners m) held 0 (owners m) [] d
                  = Some (os', [] @ map (\<lambda>b. (b, owners m ! b, os' ! b)) d)
           \<and> length os' = ?L \<and> (\<forall>b < ?L. b \<notin> set d \<longrightarrow> os' ! b = owners m ! b)
           \<and> (\<forall>b \<in> set d. os' ! b < ?n \<and> held ! (os' ! b) < ?t (os' ! b))
           \<and> (\<forall>s < ?n. count_list os' s = ?t s)"
    by (rule move_pass_spec) (use ks assms sum_target [of ?n] in auto)
  then obtain os' where os': "move_pass ?t (owners m) held 0 (owners m) [] d
                  = Some (os', map (\<lambda>b. (b, owners m ! b, os' ! b)) d)"
    "length os' = ?L" "\<And>b. b < ?L \<Longrightarrow> b \<notin> set d \<Longrightarrow> os' ! b = owners m ! b"
    "\<And>b. b \<in> set d \<Longrightarrow> os' ! b < ?n \<and> held ! (os' ! b) < ?t (os' ! b)"
    "\<And>s. s < ?n \<Longrightarrow> count_list os' s = ?t s" by auto
  have changed: "owners m ! b \<noteq> os' ! b" if "b \<in> set d" for b
    using os'(4) [OF that] ks(6) [OF that] by (metis less_irrefl)
  have kept: "?L = length d + (\<Sum>s < ?n. held ! s)"
  proof -
    have "(\<Sum>s < ?n. held ! s) = card {b. b < ?L \<and> b \<notin> set d}"
      using card_by_owner [of ?L "\<lambda>b. b \<notin> set d" "\<lambda>b. owners m ! b" ?n] ks(5,7) by simp
    also have "{b. b < ?L \<and> b \<notin> set d} = {..<?L} - set d" by auto
    also have "card \<dots> = ?L - length d"
      using ks(1,2) by (simp add: card_Diff_subset distinct_card)
    finally show ?thesis using ks(1,2) by (metis add_diff_inverse_nat card_lessThan card_mono distinct_card finite_lessThan not_less)
  qed
  have "(\<Sum>s < ?n. held ! s) = (\<Sum>s < ?n. min (?t s) (count_list (owners m) s))"
    using ks(4) by (intro sum.cong) auto
  with kept have len: "length d = NUM_BUCKETS - (\<Sum>s < ?n. min (?t s) (count_list (owners m) s))"
    using assms by simp
  have "set d = {b. b < NUM_BUCKETS \<and> owners m ! b \<noteq> os' ! b}"
    using changed ks(2) os'(3) assms by (auto; metis)
  then show ?thesis
    using k os' len ks(1) assms
    by (intro exI [of _ "\<lparr>re_map = \<lparr>owners = os'\<rparr>, re_moved = map (\<lambda>b. (b, owners m ! b, os' ! b)) d\<rparr>"]
              exI [of _ d])
       (simp add: reassign_def Let_def)
qed

text \<open>No map with the same per-shard counts changes fewer owners.\<close>

lemma fewest_moves:
  fixes n :: nat
  assumes "length old = L" and "length new = L" and "(\<Sum>s < n. t s) = L"
    and "\<And>s. s < n \<Longrightarrow> count_list new s = t s"
  shows "L - (\<Sum>s < n. min (t s) (count_list old s)) \<le> card {b. b < L \<and> old ! b \<noteq> new ! b}"
proof -
  let ?same = "{b. b < L \<and> old ! b = new ! b}"
  have inn: "new ! b < n" if "b < L" for b
  proof -
    have "(\<Sum>s < n. card {b. b < L \<and> new ! b < n \<and> new ! b = s}) = card {b. b < L \<and> new ! b < n}"
      using card_by_owner [of L "\<lambda>b. new ! b < n" "\<lambda>b. new ! b" n] by simp
    moreover have "card {b. b < L \<and> new ! b < n \<and> new ! b = s} = t s" if "s < n" for s
    proof -
      have "{b. b < L \<and> new ! b < n \<and> new ! b = s} = {b. b < length new \<and> new ! b = s}"
        using that assms(2) by auto
      then show ?thesis using assms(4) [OF that] by (simp add: count_list_card)
    qed
    ultimately have "card {b. b < L \<and> new ! b < n} = card {..<L}" using assms(3) by simp
    then have "{b. b < L \<and> new ! b < n} = {..<L}" by (intro card_subset_eq) auto
    then show ?thesis using that by auto
  qed
  have "card ?same = (\<Sum>s < n. card {b. b < L \<and> old ! b = new ! b \<and> new ! b = s})"
    using inn by (intro card_by_owner [symmetric])
  also have "\<dots> \<le> (\<Sum>s < n. min (t s) (count_list old s))"
  proof (rule sum_mono)
    fix s assume "s \<in> {..<n}"
    then have "t s = card {b. b < L \<and> new ! b = s}" using assms(2,4) by (simp add: count_list_card)
    moreover have "count_list old s = card {b. b < L \<and> old ! b = s}" using assms(1) by (simp add: count_list_card)
    ultimately show "card {b. b < L \<and> old ! b = new ! b \<and> new ! b = s} \<le> min (t s) (count_list old s)"
      by (simp add: card_mono) (auto intro!: card_mono)
  qed
  finally have le: "card ?same \<le> (\<Sum>s < n. min (t s) (count_list old s))" .
  have "{b. b < L \<and> old ! b \<noteq> new ! b} = {..<L} - ?same" by auto
  then have "card {b. b < L \<and> old ! b \<noteq> new ! b} = L - card ?same"
    by (simp add: card_Diff_subset subset_eq)
  then show ?thesis using le by simp
qed


subsection \<open>Skew relief\<close>

lemma counts_fold:
  assumes "\<forall>x \<in> set xs. x < length c"
  shows "length (fold (\<lambda>x c. c[x := c ! x + 1]) xs c) = length c"
    and "s < length c \<Longrightarrow> fold (\<lambda>x c. c[x := c ! x + 1]) xs c ! s = c ! s + count_list xs s"
  using assms by (induction xs arbitrary: c) (auto simp: nth_list_update)

lemma counts_nth:
  "length (counts m) = map_shards m"
  "s < map_shards m \<Longrightarrow> counts m ! s = count_list (owners m) s"
  using counts_fold [of "owners m" "replicate (map_shards m) 0"] owner_less_shards [of _ m]
  by (auto simp: counts_def)

lemma max_by_key_mem: "max_by_key xs = Some p \<Longrightarrow> p \<in> set xs \<and> (\<forall>q \<in> set xs. snd q \<le> snd p)"
proof (cases xs)
  case (Cons x ys)
  have "foldl (\<lambda>best y. if snd best \<le> snd y then y else best) x ys \<in> set (x # ys)
        \<and> (\<forall>q \<in> set (x # ys). snd q \<le> snd (foldl (\<lambda>best y. if snd best \<le> snd y then y else best) x ys))"
    by (induction ys rule: rev_induct) auto
  then show "max_by_key xs = Some p \<Longrightarrow> ?thesis" using Cons by auto
qed simp

lemma min_by_key_mem: "min_by_key xs = Some p \<Longrightarrow> p \<in> set xs \<and> (\<forall>q \<in> set xs. snd p \<le> snd q)"
proof (cases xs)
  case (Cons x ys)
  have "foldl (\<lambda>best y. if snd y < snd best then y else best) x ys \<in> set (x # ys)
        \<and> (\<forall>q \<in> set (x # ys). snd (foldl (\<lambda>best y. if snd y < snd best then y else best) x ys) \<le> snd q)"
    by (induction ys rule: rev_induct) auto
  then show "min_by_key xs = Some p \<Longrightarrow> ?thesis" using Cons by auto
qed simp

lemma recommend_skew_move_Some:
  assumes "recommend_skew_move m docs = Some (b, src, dst)"
  shows "length docs = map_shards m" and "src < map_shards m" and "dst < map_shards m"
    and "src \<noteq> dst" and "b < NUM_BUCKETS" and "owner m b = Some src"
    and "1 < count_list (owners m) src"
    and "\<forall>s < map_shards m. docs ! s \<le> docs ! src \<and> docs ! dst \<le> docs ! s"
proof -
  from assms have len: "length docs = map_shards m"
    by (auto simp: recommend_skew_move_def split: if_splits)
  with assms obtain mx mn where
    mx: "max_by_key (enumerate 0 docs) = Some (src, mx)" and
    mn: "min_by_key (enumerate 0 docs) = Some (dst, mn)" and
    ne: "src \<noteq> dst" and c: "\<not> counts m ! src \<le> 1" and
    f: "List.find (\<lambda>b. owner m b = Some src) [0..<NUM_BUCKETS] = Some b"
    by (auto simp: recommend_skew_move_def split: if_splits option.splits prod.splits)
  show "length docs = map_shards m" "src \<noteq> dst" by (fact len ne)+
  have 1: "src < map_shards m" "docs ! src = mx" "\<forall>q \<in> set (enumerate 0 docs). snd q \<le> mx"
    using max_by_key_mem [OF mx] len by (auto simp: in_set_enumerate0)
  have 2: "dst < map_shards m" "docs ! dst = mn" "\<forall>q \<in> set (enumerate 0 docs). mn \<le> snd q"
    using min_by_key_mem [OF mn] len by (auto simp: in_set_enumerate0)
  show "src < map_shards m" "dst < map_shards m" by (fact 1 2)+
  show "b < NUM_BUCKETS" "owner m b = Some src" using find_Some_mem [OF f] by auto
  show "1 < count_list (owners m) src" using c counts_nth(2) [OF 1(1)] by simp
  show "\<forall>s < map_shards m. docs ! s \<le> docs ! src \<and> docs ! dst \<le> docs ! s"
  proof (intro allI impI)
    fix s assume "s < map_shards m"
    then have "(s, docs ! s) \<in> set (enumerate 0 docs)" using len by (simp add: in_set_enumerate0)
    then show "docs ! s \<le> docs ! src \<and> docs ! dst \<le> docs ! s" using 1 2 by force
  qed
qed

text \<open>Moving one of several buckets of a shard keeps the map dense.\<close>

lemma count_list_update_other:
  assumes "b < length xs" and "xs ! b = src" and "src \<noteq> dst"
  shows "count_list (xs[b := dst]) s
         = (if s = src then count_list xs s - 1 else if s = dst then count_list xs s + 1 else count_list xs s)"
proof -
  have xs: "xs = take b xs @ src # drop (Suc b) xs"
    using assms by (metis id_take_nth_drop)
  have "xs[b := dst] = take b xs @ dst # drop (Suc b) xs"
    using assms(1) by (rule upd_conv_take_nth_drop)
  then show ?thesis
    using assms(3) arg_cong [OF xs, of "\<lambda>ys. count_list ys s"] by (auto simp: count_list_append)
qed

lemma with_owner_ok:
  assumes m: "bm_ok m" and b: "b < NUM_BUCKETS" "owners m ! b = src" and ne: "src \<noteq> dst"
    and dst: "dst < map_shards m" and c: "1 < count_list (owners m) src"
  shows "with_owner m b dst = Inr \<lparr>owners = (owners m)[b := dst]\<rparr>"
    and "bm_ok \<lparr>owners = (owners m)[b := dst]\<rparr>"
    and "map_shards \<lparr>owners = (owners m)[b := dst]\<rparr> = map_shards m"
proof -
  let ?os = "(owners m)[b := dst]"
  have len: "length (owners m) = NUM_BUCKETS" using m by (simp add: bm_ok_def)
  have mem: "s \<in> set (owners m) \<longleftrightarrow> 0 < count_list (owners m) s" for s
    by (simp add: count_list_0_iff zero_less_iff_neq_zero)
  have "s \<in> set ?os \<longleftrightarrow> 0 < count_list ?os s" for s
    by (simp add: count_list_0_iff zero_less_iff_neq_zero)
  then have "s \<in> set ?os \<longleftrightarrow> s \<in> set (owners m)" for s
    using count_list_update_other [of b "owners m" src dst s] b ne c len m dst mem
    by (auto simp: bm_ok_def split: if_splits)
  then have same: "set ?os = set (owners m)" by blast
  then show sh: "map_shards \<lparr>owners = ?os\<rparr> = map_shards m"
    by (simp add: map_shards_def)
  show ok: "bm_ok \<lparr>owners = ?os\<rparr>"
    using same sh m by (simp add: bm_ok_def)
  show "with_owner m b dst = Inr \<lparr>owners = ?os\<rparr>"
    using ok b dst from_owners_Inr [of ?os] by (simp add: with_owner_def)
qed

lemma router_ok_from_registry: "from_registry st os n = Inr r \<Longrightarrow> router_ok r"
  by (auto simp: from_registry_def res_bind_Inr_iff from_owners_Inr router_ok_def new_router_def bucketed_def
           split: if_splits)

locale ok_router =
  fixes r :: shard_router
  assumes ok: "router_ok r"

sublocale ok_router \<subseteq> router "route r" "router_shards r"
  by unfold_locales (rule route_total [OF ok])

context ok_router
begin

lemma filter_owns: "filter (\<lambda>x. owns r (op_key x) s) xs = filter (\<lambda>x. shard_of x = s) xs"
  by (rule filter_cong) (auto simp: owns_def rt_shard_of)

lemma partition_batch_ops:
  "\<exists>subs. partition_batch r b = Some subs \<and> length subs = router_shards r
     \<and> (\<forall>s < router_shards r. subs ! s = sub_batch b s (filter (\<lambda>x. owns r (op_key x) s) (ops b)))
     \<and> mset (concat (map ops subs)) = mset (ops b)"
proof -
  let ?subs = "map (\<lambda>s. sub_batch b s (filter (\<lambda>x. owns r (op_key x) s) (ops b))) [0..<router_shards r]"
  have "mset (concat (map ops ?subs))
        = (\<Sum>s < router_shards r. mset (filter (\<lambda>x. shard_of x = s) (ops b)))"
    by (simp add: mset_concat comp_def filter_owns interv_sum_list_conv_sum_set_nat atLeast0LessThan
             del: mset_filter)
  also have "\<dots> = mset (ops b)" by (rule filter_partition_mset)
  finally show ?thesis
    using partition_batch_shape [OF ok, of b] by (intro exI [of _ ?subs]) (simp add: owns_def)
qed

lemma partition_batch_ids:
  "partition_batch r b = Some subs \<Longrightarrow> distinct (map batch_id subs)"
proof -
  assume "partition_batch r b = Some subs"
  then have "map batch_id subs = map (\<lambda>s. batch_id b @ ''#s'' @ show_nat s) [0..<router_shards r]"
    by (auto simp: partition_batch_shape [OF ok])
  then show ?thesis by (simp add: distinct_map inj_on_def)
qed

end

interpretation legacy: ok_router "new_router n st"
  by unfold_locales (simp add: router_ok_def new_router_def)

lemma reassign_ok:
  assumes "length (owners m) = NUM_BUCKETS" and "n \<le> NUM_BUCKETS" and "reassign m n = Some r"
  shows "bm_ok (re_map r)" and "map_shards (re_map r) = max n 1"
proof -
  obtain r' where r': "reassign m n = Some r'" "length (owners (re_map r')) = NUM_BUCKETS"
     "\<forall>s < max n 1. count_list (owners (re_map r')) s = target (max n 1) s"
    using reassign_spec [OF assms(1), of n] by blast
  let ?n = "max n 1" and ?os = "owners (re_map r)"
  have len: "length ?os = NUM_BUCKETS" and cnt: "\<And>s. s < ?n \<Longrightarrow> count_list ?os s = target ?n s"
    using r' assms(3) by auto
  have n: "0 < ?n" "?n \<le> NUM_BUCKETS" using assms(2) NUM_BUCKETS_pos by (simp_all del: NUM_BUCKETS_pos)
  have sub: "{..<?n} \<subseteq> set ?os"
  proof
    fix s assume "s \<in> {..<?n}"
    moreover have "1 \<le> NUM_BUCKETS div ?n" using n div_le_mono [OF n(2), of ?n] by simp
    ultimately have "count_list ?os s \<noteq> 0" using cnt [of s] by (simp add: target_def)
    then show "s \<in> set ?os" by (simp add: count_list_0_iff)
  qed
  have "sum (count_list ?os) (set ?os) = sum (count_list ?os) {..<?n}"
    using sum_count_set [of ?os "set ?os"] sum_target [OF n(1)] cnt len by simp
  then have "sum (count_list ?os) (set ?os - {..<?n}) = 0"
    using sum.subset_diff [OF sub, of "count_list ?os"] by simp
  then have "set ?os - {..<?n} = {}"
    by (auto simp: count_list_0_iff)
  with sub have eq: "set ?os = {..<?n}" by auto
  have "Max {..<?n} = ?n - 1" by (rule Max_eqI) auto
  then show sh: "map_shards (re_map r) = ?n"
  proof -
    assume mx: "Max {..<?n} = ?n - 1"
    have "?os \<noteq> []" using len NUM_BUCKETS_pos by fastforce
    then show ?thesis unfolding map_shards_def eq mx by simp
  qed
  show "bm_ok (re_map r)" unfolding bm_ok_def sh using eq len by simp
qed

subsection \<open>Properties\<close>

text \<open>C9. Placing a batch: for every router the registry configuration describes, \<open>partition_batch\<close>
  never indexes out of range and returns one sub-batch per shard, in ordinal order. Each holds exactly
  the operations whose key its shard owns, in the original order, with the batch's checkpoint, resume
  point and resume floor; together they hold every operation once, and their ids are distinct.\<close>

theorem partition_batch_exact:
  assumes "from_registry st bucket_owners shard_count = Inr r"
  shows "\<exists>subs. partition_batch r b = Some subs \<and> length subs = router_shards r
    \<and> (\<forall>s < router_shards r.
         ops (subs ! s) = filter (\<lambda>x. owns r (op_key x) s) (ops b)
         \<and> checkpoint (subs ! s) = checkpoint b
         \<and> from_checkpoint (subs ! s) = from_checkpoint b
         \<and> safe_checkpoint (subs ! s) = safe_checkpoint b)
    \<and> mset (concat (map ops subs)) = mset (ops b)
    \<and> distinct (map batch_id subs)"
proof -
  have okr: "ok_router r" by unfold_locales (rule router_ok_from_registry [OF assms])
  then show ?thesis
    using ok_router.partition_batch_ops [OF okr, of b] ok_router.partition_batch_ids [OF okr, of b]
    by fastforce
qed

theorem partition_batch_exact_witness:
  "\<exists>subs. partition_batch (new_router 2 Hash)
      (new_commit_batch [Delete (new_key [] [(''id'', VInt 7)])] (iceberg 4) ''b'') = Some subs
    \<and> length subs = 2"
proof -
  have 1: "from_registry Hash [] 2 = Inr (new_router 2 Hash)" by (simp add: from_registry_def)
  have 2: "router_shards (new_router 2 Hash) = 2" by (simp add: router_shards_def new_router_def)
  show ?thesis
    using partition_batch_exact [OF 1, of "new_commit_batch [Delete (new_key [] [(''id'', VInt 7)])] (iceberg 4) ''b''"]
    unfolding 2 by blast
qed

text \<open>C11. Resharding: \<open>reassign\<close> terminates without running off its tables, reaches the exact
  per-shard targets (so any two shards differ by at most one bucket) with a dense map, and lists
  exactly the buckets whose owner changed. No other map with those targets moves fewer buckets.\<close>

theorem reassign_minimal:
  assumes "length (owners m) = NUM_BUCKETS" and "n \<le> NUM_BUCKETS"
  shows "\<exists>r. reassign m n = Some r \<and> bm_ok (re_map r) \<and> map_shards (re_map r) = max n 1
    \<and> (\<forall>s < max n 1. count_list (owners (re_map r)) s = target (max n 1) s)
    \<and> distinct (map fst (re_moved r))
    \<and> (\<forall>b x y. (b, x, y) \<in> set (re_moved r) \<longleftrightarrow>
         b < NUM_BUCKETS \<and> x = owners m ! b \<and> y = owners (re_map r) ! b \<and> x \<noteq> y)
    \<and> (\<forall>os. length os = NUM_BUCKETS \<longrightarrow> (\<forall>s < max n 1. count_list os s = target (max n 1) s) \<longrightarrow>
         length (re_moved r) \<le> card {b. b < NUM_BUCKETS \<and> owners m ! b \<noteq> os ! b})"
proof -
  obtain r d where r: "reassign m n = Some r"
    "\<forall>s < max n 1. count_list (owners (re_map r)) s = target (max n 1) s"
    "re_moved r = map (\<lambda>b. (b, owners m ! b, owners (re_map r) ! b)) d" "distinct d"
    "set d = {b. b < NUM_BUCKETS \<and> owners m ! b \<noteq> owners (re_map r) ! b}"
    "length d = NUM_BUCKETS - (\<Sum>s < max n 1. min (target (max n 1) s) (count_list (owners m) s))"
    using reassign_spec [OF assms(1), of n] by blast
  have "length d \<le> card {b. b < NUM_BUCKETS \<and> owners m ! b \<noteq> os ! b}"
    if "length os = NUM_BUCKETS" "\<forall>s < max n 1. count_list os s = target (max n 1) s" for os
    unfolding r(6) by (rule fewest_moves) (use that assms sum_target [of "max n 1"] in auto)
  then show ?thesis
    using r reassign_ok [OF assms r(1)] by (intro exI [of _ r]) (auto simp: comp_def)
qed

theorem reassign_minimal_witness:
  "\<exists>r. reassign (balanced 4) 6 = Some r \<and> bm_ok (re_map r) \<and> map_shards (re_map r) = 6"
proof -
  have six: "6 \<le> NUM_BUCKETS" by (simp add: NUM_BUCKETS_def)
  obtain r where "reassign (balanced 4) 6 = Some r" "bm_ok (re_map r)" "map_shards (re_map r) = max 6 1"
    using reassign_minimal [OF length_balanced six, of 4] by blast
  then show ?thesis by auto
qed

text \<open>C20. \<open>BucketMap::from_owners\<close> accepts an owners table exactly when it has one entry per bucket
  and every shard below the largest owner owns a bucket.\<close>

theorem from_owners_exact: "from_owners os = Inr m \<longleftrightarrow> m = \<lparr>owners = os\<rparr> \<and> bm_ok m"
  by (rule from_owners_Inr)

text \<open>C21. A balanced bucket map over a shard count that divides the number of buckets routes every key
  to the shard the legacy modulo routes it to, over the same number of shards.\<close>

theorem balanced_reproduces_legacy:
  assumes "n dvd NUM_BUCKETS"
  shows "route (bucketed st (balanced n)) k = route (new_router n st) k
    \<and> router_shards (bucketed st (balanced n)) = router_shards (new_router n st)"
proof
  have "n \<le> NUM_BUCKETS" using assms by (simp add: dvd_imp_le)
  then show "router_shards (bucketed st (balanced n)) = router_shards (new_router n st)"
    using bm_ok_balanced(2) [of n] by (simp add: router_shards_def bucketed_def new_router_def)
qed (rule balanced_matches_legacy [OF assms])

theorem balanced_reproduces_legacy_witness:
  "route (bucketed Hash (balanced 8)) (new_key [] [(''id'', VInt 7)])
   = route (new_router 8 Hash) (new_key [] [(''id'', VInt 7)])"
  using balanced_reproduces_legacy [of 8 Hash "new_key [] [(''id'', VInt 7)]"]
  by (simp add: NUM_BUCKETS_def)

text \<open>C30. A recommended skew-relief move names a bucket of the most loaded shard and the least loaded
  shard as its target, and applying it with \<open>with_owner\<close> always succeeds: the map stays dense, keeps
  its shard count, and only that bucket changes owner.\<close>

theorem skew_move_accepted:
  assumes "bm_ok m" and "recommend_skew_move m docs = Some (b, src, dst)"
  shows "\<exists>m'. with_owner m b dst = Inr m' \<and> bm_ok m' \<and> map_shards m' = map_shards m
    \<and> owner m b = Some src \<and> owner m' b = Some dst
    \<and> (\<forall>c. c \<noteq> b \<longrightarrow> owner m' c = owner m c)
    \<and> (\<forall>s < map_shards m. docs ! s \<le> docs ! src \<and> docs ! dst \<le> docs ! s)"
proof -
  note s = recommend_skew_move_Some [OF assms(2)]
  have len: "length (owners m) = NUM_BUCKETS" using assms(1) by (simp add: bm_ok_def)
  then have b: "owners m ! b = src" using s(5,6) by (simp add: owner_def)
  note w = with_owner_ok [OF assms(1) s(5) b s(4,3,7)]
  show ?thesis
    using w s len by (intro exI [of _ "\<lparr>owners = (owners m)[b := dst]\<rparr>"]) (simp add: owner_def)
qed


theorem skew_move_accepted_witness:
  "recommend_skew_move (balanced 2) [100, 10] = Some (0, 0, 1)
   \<and> (\<exists>m'. with_owner (balanced 2) 0 1 = Inr m' \<and> bm_ok m')"
proof -
  have ok: "bm_ok (balanced 2)" by (rule bm_ok_balanced) (simp add: NUM_BUCKETS_def)
  have sh: "map_shards (balanced 2) = 2"
    using bm_ok_balanced(2) [of 2] by (simp add: NUM_BUCKETS_def)
  have "card {0, 2 :: nat} \<le> card {b. b < NUM_BUCKETS \<and> owners (balanced 2) ! b = 0}"
  proof (rule card_mono)
    have "2 < NUM_BUCKETS" by (simp add: NUM_BUCKETS_def)
    then show "{0, 2} \<subseteq> {b. b < NUM_BUCKETS \<and> owners (balanced 2) ! b = 0}"
      by (simp add: numeral_2_eq_2)
  qed simp
  then have c: "\<not> counts (balanced 2) ! 0 \<le> 1"
    using counts_nth(2) [of 0 "balanced 2"] by (simp add: count_list_card)
  have "[0..<NUM_BUCKETS] = 0 # [1..<NUM_BUCKETS]" by (simp add: upt_conv_Cons)
  then have f: "List.find (\<lambda>b. owner (balanced 2) b = Some 0) [0..<NUM_BUCKETS] = Some 0"
    by (simp add: owner_def)
  have r: "recommend_skew_move (balanced 2) [100, 10] = Some (0, 0, 1)"
    using c f by (simp add: recommend_skew_move_def sh)
  show ?thesis using r skew_move_accepted [OF ok r] by blast
qed

end
