(* ===== verification/Timestamp.thy ===== *)
theory Timestamp
  imports Doc_Model
begin

section \<open>Timestamps: canonical epoch microseconds\<close>

text \<open>
  Models \<open>growlerdb-core/src/timestamp.rs\<close> and the wire names of
  \<open>growlerdb-engine/src/control_service.rs\<close> (\<open>time_format_str\<close>). A declared format converts a source
  value to epoch microseconds or fails with the field, the format and the offending value; no
  conversion overflows silently. The date-time grammar is the \<open>chrono\<close> package's: its two parsers and
  the rendering of a float are the fields of a \<open>time_lib\<close>, of which \<open>time_lib_ok\<close> states what
  \<open>timestamp_micros\<close> documents, that it returns an \<open>i64\<close>.
\<close>

datatype time_format = EpochSeconds | EpochMillis | EpochMicros | EpochNanos | Rfc3339 | DateOnly

datatype time_parse_error =
    NotInteger string time_format string
  | NotParsable string time_format string
  | Overflow string time_format int

text \<open>\<open>parse_rfc3339\<close> is \<open>DateTime::parse_from_rfc3339\<close> followed by \<open>timestamp_micros\<close>; \<open>parse_ymd\<close> is
  \<open>NaiveDate::parse_from_str\<close> with \<open>%Y-%m-%d\<close>, at UTC midnight.\<close>

record time_lib =
  parse_rfc3339 :: "string \<Rightarrow> int option"
  parse_ymd :: "string \<Rightarrow> int option"
  fmt_f64 :: "64 word \<Rightarrow> string"

definition time_lib_ok :: "time_lib \<Rightarrow> bool" where
  "time_lib_ok lib \<longleftrightarrow> (\<forall>s m. parse_rfc3339 lib s = Some m \<or> parse_ymd lib s = Some m \<longrightarrow> in_i64 m)"

definition from_wire :: "string \<Rightarrow> time_format option" where
  "from_wire s =
     (if s = ''epoch_seconds'' \<or> s = ''epoch_s'' then Some EpochSeconds
      else if s = ''epoch_millis'' \<or> s = ''epoch_ms'' then Some EpochMillis
      else if s = ''epoch_micros'' \<or> s = ''epoch_us'' then Some EpochMicros
      else if s = ''epoch_nanos'' \<or> s = ''epoch_ns'' then Some EpochNanos
      else if s = ''rfc3339'' \<or> s = ''iso8601'' then Some Rfc3339
      else if s = ''date'' then Some DateOnly
      else None)"

text \<open>The name \<open>derive(Serialize)\<close> gives with \<open>rename_all = "snake_case"\<close>, and the name the control
  plane sends.\<close>

fun serde_name :: "time_format \<Rightarrow> string" where
  "serde_name EpochSeconds = ''epoch_seconds''"
| "serde_name EpochMillis = ''epoch_millis''"
| "serde_name EpochMicros = ''epoch_micros''"
| "serde_name EpochNanos = ''epoch_nanos''"
| "serde_name Rfc3339 = ''rfc3339''"
| "serde_name DateOnly = ''date_only''"

fun time_format_str :: "time_format \<Rightarrow> string" where
  "time_format_str EpochSeconds = ''epoch_seconds''"
| "time_format_str EpochMillis = ''epoch_millis''"
| "time_format_str EpochMicros = ''epoch_micros''"
| "time_format_str EpochNanos = ''epoch_nanos''"
| "time_format_str Rfc3339 = ''rfc3339''"
| "time_format_str DateOnly = ''date''"

definition epoch_to_micros ::
    "time_lib \<Rightarrow> time_format \<Rightarrow> string \<Rightarrow> val \<Rightarrow> time_parse_error + int" where
  "epoch_to_micros lib f path v =
     res_bind
       (case v of
          VInt i \<Rightarrow> Inr i
        | VStr s \<Rightarrow>
            (case parse_i64 (trim s) of None \<Rightarrow> Inl (NotInteger path f s) | Some n \<Rightarrow> Inr n)
        | _ \<Rightarrow> Inl (NotInteger path f (to_index_string (fmt_f64 lib) v)))
       (\<lambda>n.
          let scale = (\<lambda>k. case checked_mul_i64 n k of
                            None \<Rightarrow> Inl (Overflow path f n) | Some m \<Rightarrow> Inr m)
          in case f of
               EpochSeconds \<Rightarrow> scale 1000000
             | EpochMillis \<Rightarrow> scale 1000
             | EpochMicros \<Rightarrow> Inr n
             | _ \<Rightarrow> Inr (n div 1000))"

definition string_to_micros ::
    "time_lib \<Rightarrow> time_format \<Rightarrow> string \<Rightarrow> val \<Rightarrow> time_parse_error + int" where
  "string_to_micros lib f path v =
     (case v of
        VStr s0 \<Rightarrow>
          (let s = trim s0 in
           case (case f of Rfc3339 \<Rightarrow> parse_rfc3339 lib s | _ \<Rightarrow> parse_ymd lib s) of
             None \<Rightarrow> Inl (NotParsable path f s)
           | Some m \<Rightarrow> Inr m)
      | _ \<Rightarrow> Inl (NotParsable path f (to_index_string (fmt_f64 lib) v)))"

definition to_micros :: "time_lib \<Rightarrow> time_format \<Rightarrow> string \<Rightarrow> val \<Rightarrow> time_parse_error + int" where
  "to_micros lib f path v =
     (case v of
        VTs m \<Rightarrow> Inr m
      | _ \<Rightarrow>
          (case f of
             Rfc3339 \<Rightarrow> string_to_micros lib f path v
           | DateOnly \<Rightarrow> string_to_micros lib f path v
           | _ \<Rightarrow> epoch_to_micros lib f path v))"

definition parse_date_query_bound :: "time_lib \<Rightarrow> string \<Rightarrow> int option" where
  "parse_date_query_bound lib s0 =
     (let s = trim s0 in
      case parse_i64 s of
        Some m \<Rightarrow> Some m
      | None \<Rightarrow>
          (case parse_rfc3339 lib s of
             Some m \<Rightarrow> Some m
           | None \<Rightarrow> parse_ymd lib s))"

subsection \<open>Lemmas\<close>

lemma from_wire_time_format_str [simp]: "from_wire (time_format_str f) = Some f"
  by (cases f) (simp_all add: from_wire_def)

lemma parse_i64_in_range: "parse_i64 s = Some n \<Longrightarrow> in_i64 n"
  by (auto simp: parse_i64_def Let_def split: list.splits if_splits option.splits)

text \<open>The number a value denotes before scaling.\<close>

definition epoch_int :: "val \<Rightarrow> int option" where
  "epoch_int v = (case v of VInt i \<Rightarrow> Some i | VStr s \<Rightarrow> parse_i64 (trim s) | _ \<Rightarrow> None)"

lemma epoch_to_micros_Inr:
  "epoch_to_micros lib f path v = Inr m \<longleftrightarrow>
     (\<exists>n. epoch_int v = Some n \<and>
        (case f of
           EpochSeconds \<Rightarrow> m = n * 1000000 \<and> in_i64 m
         | EpochMillis \<Rightarrow> m = n * 1000 \<and> in_i64 m
         | EpochMicros \<Rightarrow> m = n
         | _ \<Rightarrow> m = n div 1000))"
  by (cases f; cases v)
     (auto simp: epoch_to_micros_def epoch_int_def Let_def checked_mul_i64_def
           split: option.splits if_splits)

lemma in_i64_div: "in_i64 n \<Longrightarrow> in_i64 (n div 1000)"
  by (auto simp: in_i64_def i64_min_def i64_max_def)

subsection \<open>Properties\<close>



end
