(* ===== verification/Rust_Float.thy ===== *)
theory Rust_Float
  imports Rust_Str
begin

section \<open>Binary floats by their bit patterns\<close>

text \<open>
  The sources compare \<open>f64\<close> values (\<open>partial_cmp\<close>), test \<open>f32\<close> values (\<open>is_finite\<close>, \<open>b < 0.0\<close>) and
  parse both from text. A float is its IEEE 754 bit pattern. The order of two patterns that are not NaN
  is the order of their sign-magnitude numbers (with the two zeros equal), and parsing rounds the exact
  decimal value to the nearest pattern, ties to even.
\<close>

subsection \<open>Comparison\<close>

definition f64_mag :: "64 word \<Rightarrow> int" where
  "f64_mag w = uint w mod 2 ^ 63"

definition f64_neg :: "64 word \<Rightarrow> bool" where
  "f64_neg w \<longleftrightarrow> 2 ^ 63 \<le> uint w"

definition f64_is_nan :: "64 word \<Rightarrow> bool" where
  "f64_is_nan w \<longleftrightarrow> 0x7FF0000000000000 < f64_mag w"

definition f64_key :: "64 word \<Rightarrow> int" where
  "f64_key w = (if f64_neg w then - f64_mag w else f64_mag w)"

definition f64_partial_cmp :: "64 word \<Rightarrow> 64 word \<Rightarrow> ordering option" where
  "f64_partial_cmp a b =
     (if f64_is_nan a \<or> f64_is_nan b then None else Some (cmp_of (f64_key a) (f64_key b)))"

definition f64_infinity :: "64 word" where "f64_infinity = 0x7FF0000000000000"
definition f64_neg_infinity :: "64 word" where "f64_neg_infinity = 0xFFF0000000000000"

definition f32_mag :: "32 word \<Rightarrow> nat" where
  "f32_mag w = unat w mod 2 ^ 31"

definition f32_is_nan :: "32 word \<Rightarrow> bool" where
  "f32_is_nan w \<longleftrightarrow> 0x7F800000 < f32_mag w"

definition f32_is_finite :: "32 word \<Rightarrow> bool" where
  "f32_is_finite w \<longleftrightarrow> f32_mag w < 0x7F800000"

text \<open>\<open>x < 0.0\<close>: negative, not minus zero, not NaN.\<close>

definition f32_lt_zero :: "32 word \<Rightarrow> bool" where
  "f32_lt_zero w \<longleftrightarrow> \<not> f32_is_nan w \<and> 2 ^ 31 \<le> unat w \<and> f32_mag w \<noteq> 0"

subsection \<open>Parsing\<close>

text \<open>\<open>lg2 num den\<close> is the largest \<open>k\<close> with \<open>den * 2 ^ k \<le> num\<close>; \<open>lg2_up\<close> the least \<open>k\<close> (at most \<open>bound\<close>)
  with \<open>den \<le> num * 2 ^ k\<close>.\<close>

function lg2 :: "nat \<Rightarrow> nat \<Rightarrow> nat" where
  "lg2 num den = (if den = 0 \<or> num < 2 * den then 0 else Suc (lg2 num (2 * den)))"
  by pat_completeness auto
termination
  by (relation "measure (\<lambda>(num, den). num - den)") auto

declare lg2.simps [simp del]

fun lg2_up :: "nat \<Rightarrow> nat \<Rightarrow> nat \<Rightarrow> nat" where
  "lg2_up 0 num den = 0"
| "lg2_up (Suc bound) num den = (if den \<le> num then 0 else Suc (lg2_up bound (2 * num) den))"

definition round_half_even :: "nat \<Rightarrow> nat \<Rightarrow> nat" where
  "round_half_even num den =
     (let q = num div den; r = num mod den in
      if 2 * r < den \<or> 2 * r = den \<and> even q then q else q + 1)"

text \<open>The pattern of a positive rational in the format with \<open>mb\<close> significand bits and least exponent
  \<open>- em\<close>. With \<open>e\<close> the binary exponent (at least \<open>- em\<close>) the unit in the last place is \<open>2 ^ (e - mb)\<close>,
  and the pattern is \<open>(e + em) * 2 ^ mb\<close> plus the rounded significand; a pattern past the largest finite
  one is infinity.\<close>

definition float_round :: "nat \<Rightarrow> nat \<Rightarrow> nat \<Rightarrow> nat \<Rightarrow> nat \<Rightarrow> nat" where
  "float_round mb em infb num den =
     (if num = 0 then 0
      else
        let e = (if den \<le> num then int (lg2 num den) else - int (lg2_up em num den));
            u = e - int mb;
            q = (if 0 \<le> u then round_half_even num (den * 2 ^ nat u)
                 else round_half_even (num * 2 ^ nat (- u)) den);
            bits = nat (e + int em) * 2 ^ mb + q
        in if infb \<le> bits then infb else bits)"

text \<open>A decimal number: digits with an optional point, at least one digit, and an optional exponent.\<close>

definition split_exp :: "string \<Rightarrow> string \<times> string option" where
  "split_exp s =
     (case position (\<lambda>c. c = CHR ''e'' \<or> c = CHR ''E'') s of
        None \<Rightarrow> (s, None)
      | Some i \<Rightarrow> (take i s, Some (drop (i + 1) s)))"

definition split_point :: "string \<Rightarrow> string \<times> string" where
  "split_point s =
     (case find_char (CHR ''.'') s of None \<Rightarrow> (s, []) | Some i \<Rightarrow> (take i s, drop (i + 1) s))"

definition parse_exp :: "string \<Rightarrow> int option" where
  "parse_exp s =
     (case s of
        c # cs \<Rightarrow>
          if c = CHR ''-'' then map_option (\<lambda>n. - int n) (parse_digits cs)
          else if c = CHR ''+'' then map_option int (parse_digits cs)
          else map_option int (parse_digits s)
      | [] \<Rightarrow> None)"

definition parse_decimal :: "string \<Rightarrow> (nat \<times> nat) option" where
  "parse_decimal s =
     (let (body, ex) = split_exp s; (ip, fp) = split_point body in
      if ip @ fp \<noteq> [] \<and> list_all is_ascii_digit (ip @ fp) then
        (case (case ex of None \<Rightarrow> Some 0 | Some x \<Rightarrow> parse_exp x) of
           None \<Rightarrow> None
         | Some x \<Rightarrow>
             let m = digits_val 0 (ip @ fp); k = x - int (length fp) in
             Some (if 0 \<le> k then (m * 10 ^ nat k, 1) else (m, 10 ^ nat (- k))))
      else None)"

text \<open>\<open>parse\<close> for a float format: \<open>sb\<close> is the sign bit, \<open>nan\<close> the quiet NaN.\<close>

definition parse_float :: "nat \<Rightarrow> nat \<Rightarrow> nat \<Rightarrow> nat \<Rightarrow> nat \<Rightarrow> string \<Rightarrow> nat option" where
  "parse_float mb em infb nan sb s =
     (let (neg, body) =
        (case s of c # cs \<Rightarrow> if c = CHR ''-'' then (True, cs)
                            else if c = CHR ''+'' then (False, cs) else (False, s)
                 | [] \<Rightarrow> (False, s));
          sign = (if neg then sb else 0);
          l = to_ascii_lowercase body
      in if l = ''inf'' \<or> l = ''infinity'' then Some (sign + infb)
         else if l = ''nan'' then Some (sign + nan)
         else map_option (\<lambda>(num, den). sign + float_round mb em infb num den) (parse_decimal body))"

definition parse_f32 :: "string \<Rightarrow> 32 word option" where
  "parse_f32 s = map_option word_of_nat (parse_float 23 126 0x7F800000 0x7FC00000 0x80000000 s)"

definition parse_f64 :: "string \<Rightarrow> 64 word option" where
  "parse_f64 s =
     map_option word_of_nat
       (parse_float 52 1022 0x7FF0000000000000 0x7FF8000000000000 0x8000000000000000 s)"

subsection \<open>Lemmas\<close>

lemma f64_partial_cmp_swap:
  "f64_partial_cmp b a = map_option ord_reverse (f64_partial_cmp a b)"
  by (auto simp: f64_partial_cmp_def intro: cmp_of_swap)

lemma f64_infinities [simp]:
  "\<not> f64_is_nan f64_infinity" "\<not> f64_is_nan f64_neg_infinity"
  "f64_key f64_infinity = 0x7FF0000000000000" "f64_key f64_neg_infinity = - 0x7FF0000000000000"
  by (simp_all add: f64_is_nan_def f64_mag_def f64_key_def f64_neg_def f64_infinity_def
                    f64_neg_infinity_def)

lemma f64_key_bounds:
  assumes "\<not> f64_is_nan w"
  shows "f64_key f64_neg_infinity \<le> f64_key w" and "f64_key w \<le> f64_key f64_infinity"
proof -
  have "0 \<le> f64_mag w" by (simp add: f64_mag_def)
  then show "f64_key f64_neg_infinity \<le> f64_key w" and "f64_key w \<le> f64_key f64_infinity"
    using assms by (auto simp: f64_key_def [of w] f64_is_nan_def)
qed

end
