(* ===== verification/Rust_Ip.thy ===== *)
theory Rust_Ip
  imports Rust_Str
begin

section \<open>IP addresses from text\<close>

text \<open>
  \<open>str::parse::<IpAddr>\<close>, which \<open>is_cidr\<close>, the IP range bounds and \<open>cidr_range\<close> use: the reader of the
  standard library's address parser, as functions from the remaining text to the number read and the
  text after it. Dotted quads have one to three digits per octet, no leading zero, at most 255; an IPv6
  address has eight groups of one to four hexadecimal digits, one \<open>::\<close> that stands for at least one
  group, and may end in a dotted quad in place of its last two groups.
\<close>

datatype ip_addr = V4 "32 word" | V6 "128 word"

definition is_hex_digit :: "char \<Rightarrow> bool" where
  "is_hex_digit c \<longleftrightarrow>
     is_ascii_digit c \<or> 65 \<le> ccode c \<and> ccode c \<le> (70::nat) \<or> 97 \<le> ccode c \<and> ccode c \<le> (102::nat)"

definition hex_val :: "char \<Rightarrow> nat" where
  "hex_val c = (if is_ascii_digit c then ccode c - 48 else if ccode c \<le> (70::nat) then ccode c - 55
                else ccode c - 87)"

definition hex_digits_val :: "string \<Rightarrow> nat" where
  "hex_digits_val ds = foldl (\<lambda>n c. 16 * n + hex_val c) 0 ds"

text \<open>\<open>read_given_char\<close>.\<close>

definition read_char :: "char \<Rightarrow> string \<Rightarrow> string option" where
  "read_char c s = (case s of x # xs \<Rightarrow> if x = c then Some xs else None | [] \<Rightarrow> None)"

text \<open>\<open>read_number\<close> for an octet and for a group.\<close>

definition read_octet :: "string \<Rightarrow> (nat \<times> string) option" where
  "read_octet s =
     (let ds = takeWhile is_ascii_digit s in
      if ds = [] \<or> 3 < length ds \<or> 255 < digits_val 0 ds \<or> (hd ds = CHR ''0'' \<and> 1 < length ds)
      then None else Some (digits_val 0 ds, drop (length ds) s))"

definition read_group :: "string \<Rightarrow> (nat \<times> string) option" where
  "read_group s =
     (let ds = takeWhile is_hex_digit s in
      if ds = [] \<or> 4 < length ds then None else Some (hex_digits_val ds, drop (length ds) s))"

text \<open>\<open>read_separator\<close>: the separator is read for every index but the first.\<close>

definition read_sep :: "char \<Rightarrow> nat \<Rightarrow> (string \<Rightarrow> (nat \<times> string) option) \<Rightarrow> string \<Rightarrow> (nat \<times> string) option"
where
  "read_sep c i p s = (if i = 0 then p s else Option.bind (read_char c s) p)"

definition read_ipv4 :: "string \<Rightarrow> (nat \<times> string) option" where
  "read_ipv4 s =
     Option.bind (read_sep (CHR ''.'') 0 read_octet s) (\<lambda>(a, s).
     Option.bind (read_sep (CHR ''.'') 1 read_octet s) (\<lambda>(b, s).
     Option.bind (read_sep (CHR ''.'') 2 read_octet s) (\<lambda>(c, s).
     Option.bind (read_sep (CHR ''.'') 3 read_octet s) (\<lambda>(d, s).
       Some (((a * 256 + b) * 256 + c) * 256 + d, s)))))"

text \<open>\<open>read_groups\<close> up to \<open>limit\<close> groups, from index \<open>i\<close>: the groups read, whether they end in a dotted
  quad, and the rest.\<close>

function read_groups :: "nat \<Rightarrow> nat \<Rightarrow> nat list \<Rightarrow> string \<Rightarrow> nat list \<times> bool \<times> string" where
  "read_groups limit i gs s =
     (if i < limit then
        (case (if i + 1 < limit then read_sep (CHR '':'') i read_ipv4 s else None) of
           Some (v, rest) \<Rightarrow> (gs @ [v div 65536, v mod 65536], True, rest)
         | None \<Rightarrow>
             (case read_sep (CHR '':'') i read_group s of
                Some (g, rest) \<Rightarrow> read_groups limit (i + 1) (gs @ [g]) rest
              | None \<Rightarrow> (gs, False, s)))
      else (gs, False, s))"
  by pat_completeness auto
termination
  by (relation "measure (\<lambda>(limit, i, gs, s). limit - i)") auto

declare read_groups.simps [simp del]

definition groups_val :: "nat list \<Rightarrow> nat" where
  "groups_val gs = foldl (\<lambda>n g. 65536 * n + g) 0 gs"

definition read_ipv6 :: "string \<Rightarrow> (nat \<times> string) option" where
  "read_ipv6 s =
     (case read_groups 8 0 [] s of (head, head_ipv4, rest) \<Rightarrow>
        if length head = 8 then Some (groups_val head, rest)
        else if head_ipv4 then None
        else
          Option.bind (read_char (CHR '':'') rest) (\<lambda>s.
          Option.bind (read_char (CHR '':'') s) (\<lambda>s.
            case read_groups (8 - (length head + 1)) 0 [] s of (tail, _, rest) \<Rightarrow>
              Some (groups_val (head @ replicate (8 - length head - length tail) 0 @ tail), rest))))"

definition parse_ip :: "string \<Rightarrow> ip_addr option" where
  "parse_ip s =
     (case read_ipv4 s of
        Some (v, rest) \<Rightarrow> if rest = [] then Some (V4 (word_of_nat v)) else None
      | None \<Rightarrow>
          (case read_ipv6 s of
             Some (v, rest) \<Rightarrow> if rest = [] then Some (V6 (word_of_nat v)) else None
           | None \<Rightarrow> None))"

subsection \<open>The first character of an address\<close>

lemma read_octet_head: "read_octet s = Some r \<Longrightarrow> \<exists>c cs. s = c # cs \<and> is_hex_digit c"
  by (cases s) (auto simp: read_octet_def Let_def is_hex_digit_def split: if_splits)

lemma read_group_head: "read_group s = Some r \<Longrightarrow> \<exists>c cs. s = c # cs \<and> is_hex_digit c"
  by (cases s) (auto simp: read_group_def Let_def split: if_splits)

lemma read_ipv4_head: "read_ipv4 s = Some r \<Longrightarrow> \<exists>c cs. s = c # cs \<and> is_hex_digit c"
  using read_octet_head by (fastforce simp: read_ipv4_def read_sep_def bind_eq_Some_conv)

lemma read_char_head: "read_char c s = Some r \<Longrightarrow> s = c # r"
  by (auto simp: read_char_def split: list.splits if_splits)

lemma read_ipv6_head:
  assumes "read_ipv6 s = Some r"
  shows "\<exists>c cs. s = c # cs \<and> (is_hex_digit c \<or> c = CHR '':'')"
proof (cases "read_ipv4 s")
  case (Some r4)
  then show ?thesis using read_ipv4_head by blast
next
  case None
  show ?thesis
  proof (cases "read_group s")
    case (Some rg)
    then show ?thesis using read_group_head by blast
  next
    case none: None
    then have "read_groups 8 0 [] s = ([], False, s)"
      using None by (subst read_groups.simps) (simp add: read_sep_def)
    with assms show ?thesis
      by (auto simp: read_ipv6_def bind_eq_Some_conv dest!: read_char_head)
  qed
qed

lemma parse_ip_head:
  "parse_ip s = Some a \<Longrightarrow> \<exists>c cs. s = c # cs \<and> (is_hex_digit c \<or> c = CHR '':'')"
  using read_ipv4_head [of s] read_ipv6_head [of s]
  by (auto simp: parse_ip_def split: option.splits if_splits)

end
