(* ===== verification/Query_Model.thy ===== *)
theory Query_Model
  imports Rust_Float
begin

section \<open>The query AST\<close>

text \<open>
  Models the AST half of \<open>growlerdb-core/src/query.rs\<close>: the constructors of \<open>Query\<close>, the tenant
  constraint (\<open>and_filter\<close>, \<open>with_knn_filter\<close>) and the conjunctive integer bounds of a field
  (\<open>range_bounds\<close>) that time-window pruning reads. A boost is its \<open>f32\<close> bit pattern.
\<close>

datatype match_op = MOr | MAnd

datatype query =
    MatchAll
  | Term "string option" string
  | Terms string "string list"
  | Match "string option" string match_op
  | Phrase "string option" "string list" nat
  | Prefix "string option" string
  | Wildcard "string option" string
  | Fuzzy "string option" string nat
  | Regex "string option" string
  | Exists string
  | Range string "string option" bool "string option" bool
  | IpCidr string string
  | Bool (must: "query list") (should: "query list") (must_not: "query list") (filt: "query list")
  | Boost query "32 word"
  | Knn string "32 word list" nat "query option"

definition and_filter :: "query \<Rightarrow> string \<Rightarrow> string \<Rightarrow> query" where
  "and_filter q field v = Bool [q] [] [] [Term (Some field) v]"

fun with_knn_filter :: "query \<Rightarrow> query \<Rightarrow> query" where
  "with_knn_filter (Knn field vector k f) extra =
     Knn field vector k
       (Some (case f of None \<Rightarrow> extra | Some existing \<Rightarrow> Bool [] [] [] [existing, extra]))"
| "with_knn_filter q extra = q"

text \<open>The loop of \<open>range_bounds\<close> over the bounds of the conjunctive clauses.\<close>

definition merge_bounds :: "(int option \<times> int option) list \<Rightarrow> int option \<times> int option" where
  "merge_bounds bs =
     fold (\<lambda>(l, h) (lo, hi).
             ((case l of None \<Rightarrow> lo | Some x \<Rightarrow> Some (opt_max lo x)),
              (case h of None \<Rightarrow> hi | Some x \<Rightarrow> Some (opt_min hi x))))
       bs (None, None)"

definition parse_bound :: "string option \<Rightarrow> int option" where
  "parse_bound s = (case s of None \<Rightarrow> None | Some v \<Rightarrow> parse_i64 v)"

fun range_bounds :: "string \<Rightarrow> query \<Rightarrow> int option \<times> int option" where
  "range_bounds field (Range f lower li upper ui) =
     (if f = field then (parse_bound lower, parse_bound upper) else (None, None))"
| "range_bounds field (Bool mu sh mn fi) =
     merge_bounds (map (range_bounds field) mu @ map (range_bounds field) fi)"
| "range_bounds field q = (None, None)"

subsection \<open>Nesting depth of a query\<close>

fun query_depth :: "query \<Rightarrow> nat" where
  "query_depth (Bool mu sh mn fi) =
     Suc (fold max (map query_depth mu @ map query_depth sh @ map query_depth mn @ map query_depth fi) 0)"
| "query_depth (Boost q b) = Suc (query_depth q)"
| "query_depth (Knn f v k None) = 1"
| "query_depth (Knn f v k (Some q)) = Suc (query_depth q)"
| "query_depth q = 1"

subsection \<open>Merged bounds\<close>

text \<open>A value satisfies a pair of optional bounds.\<close>

definition in_bounds :: "int \<Rightarrow> int option \<times> int option \<Rightarrow> bool" where
  "in_bounds x b \<longleftrightarrow>
     (case fst b of None \<Rightarrow> True | Some l \<Rightarrow> l \<le> x) \<and> (case snd b of None \<Rightarrow> True | Some h \<Rightarrow> x \<le> h)"

lemma in_bounds_None [simp]: "in_bounds x (None, None)"
  by (simp add: in_bounds_def)

lemma in_bounds_merge: "in_bounds x (merge_bounds bs) \<longleftrightarrow> (\<forall>b \<in> set bs. in_bounds x b)"
proof -
  let ?f = "\<lambda>(l, h) (lo, hi).
             ((case l of None \<Rightarrow> lo | Some x \<Rightarrow> Some (opt_max lo x)),
              (case h of None \<Rightarrow> hi | Some x \<Rightarrow> Some (opt_min hi x)))"
  have "in_bounds x (fold ?f bs acc) \<longleftrightarrow> in_bounds x acc \<and> (\<forall>b \<in> set bs. in_bounds x b)" for acc
  proof (induction bs arbitrary: acc)
    case Nil
    then show ?case by simp
  next
    case (Cons b bs)
    have "in_bounds x (?f b acc) \<longleftrightarrow> in_bounds x acc \<and> in_bounds x b"
      by (cases b; cases acc)
         (auto simp: in_bounds_def opt_max_def opt_min_def split: option.splits)
    then show ?case using Cons.IH [of "?f b acc"] by auto
  qed
  then show ?thesis by (simp add: merge_bounds_def)
qed

end
