(* ===== verification/Query_Parser.thy ===== *)
theory Query_Parser
  imports Query_Model Rust_Ip
begin

section \<open>The query-string lexer and parser\<close>

text \<open>
  Models the parser half of \<open>growlerdb-core/src/query.rs\<close>: the lexer's loop over the characters with
  its quote and range modes, the recursive descent \<open>parse_or\<close> / \<open>parse_and\<close> / \<open>parse_clause\<close>, and the
  mapping of an atom to its leaf. The descent takes fuel, one unit per call; \<open>None\<close> is running out of
  it, and the lemmas show that three units per token and three more always suffice, so \<open>parse_with\<close>
  returns on every input. The class of non-ASCII alphanumeric characters is the argument \<open>alnum\<close>.

  The lemmas bound what a parsed query can ask for: nesting, phrase slop, edit distance and boost.
\<close>

datatype query_syntax = Lucene | Kql

datatype parse_error =
    Empty
  | UnbalancedParen
  | MissingOperand string
  | UnexpectedToken string
  | TooDeep nat
  | InvalidValue string nat

subsection \<open>Lexer\<close>

datatype tok = TLParen | TRParen | TAnd | TOr | TNot | TTerm string

fun tok_display :: "tok \<Rightarrow> string" where
  "tok_display TLParen = ''`(`''"
| "tok_display TRParen = ''`)`''"
| "tok_display TAnd = ''`AND`''"
| "tok_display TOr = ''`OR`''"
| "tok_display TNot = ''`NOT`''"
| "tok_display (TTerm t) = ''`'' @ t @ ''`''"

record spanned =
  sp_tok :: tok
  sp_start :: nat

definition operator :: "string \<Rightarrow> query_syntax \<Rightarrow> tok option" where
  "operator word sy =
     (case sy of
        Lucene \<Rightarrow>
          (let w = to_ascii_uppercase word in
           if w = ''AND'' \<or> w = ''&&'' then Some TAnd
           else if w = ''OR'' \<or> w = ''||'' then Some TOr
           else if w = ''NOT'' then Some TNot
           else None)
      | Kql \<Rightarrow>
          if word = ''and'' then Some TAnd
          else if word = ''or'' then Some TOr
          else if word = ''not'' then Some TNot
          else None)"

text \<open>The closure \<open>flush\<close>: the tokens it pushes for the pending word.\<close>

definition flush :: "query_syntax \<Rightarrow> string \<Rightarrow> nat \<Rightarrow> spanned list" where
  "flush sy word start =
     (if word = [] then []
      else
        (case operator word sy of
           Some tk \<Rightarrow> [\<lparr>sp_tok = tk, sp_start = start\<rparr>]
         | None \<Rightarrow>
             (case (if sy = Lucene then strip_prefix ''-'' word else None) of
                Some rest \<Rightarrow>
                  if rest \<noteq> [] then
                    [\<lparr>sp_tok = TNot, sp_start = start\<rparr>,
                     \<lparr>sp_tok = TTerm rest, sp_start = start + 1\<rparr>]
                  else [\<lparr>sp_tok = TTerm word, sp_start = start\<rparr>]
              | None \<Rightarrow> [\<lparr>sp_tok = TTerm word, sp_start = start\<rparr>])))"

record lex_state =
  lx_tokens :: "spanned list"
  lx_word :: string
  lx_start :: nat
  lx_quote :: bool
  lx_range :: bool

text \<open>One iteration of the loop over \<open>char_indices\<close>.\<close>

definition lex_step :: "query_syntax \<Rightarrow> nat \<times> string \<Rightarrow> lex_state \<Rightarrow> lex_state" where
  "lex_step sy ich st0 =
     (let i = fst ich; ch = snd ich;
          st = (if lx_word st0 = [] then st0\<lparr>lx_start := i\<rparr> else st0);
          pushed = st\<lparr>lx_word := lx_word st @ ch\<rparr>
      in
      if lx_quote st then (if ch = ''\"'' then pushed\<lparr>lx_quote := False\<rparr> else pushed)
      else if lx_range st then
        (if ch = '']'' \<or> ch = ''}'' then pushed\<lparr>lx_range := False\<rparr> else pushed)
      else if ch = ''\"'' then pushed\<lparr>lx_quote := True\<rparr>
      else if ch = ''['' \<or> ch = ''{'' then pushed\<lparr>lx_range := True\<rparr>
      else if ch = ''('' \<or> ch = '')'' then
        st\<lparr>lx_tokens := lx_tokens st @ flush sy (lx_word st) (lx_start st)
             @ [\<lparr>sp_tok = (if ch = ''('' then TLParen else TRParen), sp_start = i\<rparr>],
           lx_word := []\<rparr>
      else if is_whitespace ch then
        st\<lparr>lx_tokens := lx_tokens st @ flush sy (lx_word st) (lx_start st), lx_word := []\<rparr>
      else pushed)"

definition lex :: "string \<Rightarrow> query_syntax \<Rightarrow> spanned list" where
  "lex input sy =
     (let st = fold (lex_step sy) (char_indices input)
                 \<lparr>lx_tokens = [], lx_word = [], lx_start = 0, lx_quote = False, lx_range = False\<rparr>
      in lx_tokens st @ flush sy (lx_word st) (lx_start st))"

subsection \<open>Atoms\<close>

definition MAX_QUERY_DEPTH :: nat where "MAX_QUERY_DEPTH = 128"
definition MAX_FUZZY_DISTANCE :: nat where "MAX_FUZZY_DISTANCE = 2"
definition MAX_PHRASE_SLOP :: nat where "MAX_PHRASE_SLOP = 100"

definition is_alphanumeric :: "(string \<Rightarrow> bool) \<Rightarrow> string \<Rightarrow> bool" where
  "is_alphanumeric alnum ch =
     (case ch of [c] \<Rightarrow> is_ascii_alphanumeric c | _ \<Rightarrow> alnum ch)"

definition is_ident :: "(string \<Rightarrow> bool) \<Rightarrow> string \<Rightarrow> bool" where
  "is_ident alnum f \<longleftrightarrow>
     f \<noteq> [] \<and> list_all (\<lambda>ch. is_alphanumeric alnum ch \<or> ch = ''_'' \<or> ch = ''.'') (chars f)"

definition split_field :: "(string \<Rightarrow> bool) \<Rightarrow> string \<Rightarrow> string option \<times> string" where
  "split_field alnum atom =
     (case find_char (CHR '':'') atom of
        None \<Rightarrow> (None, atom)
      | Some colon \<Rightarrow>
          (let f = take colon atom; v = drop (colon + 1) atom in
           if is_ident alnum f \<and> v \<noteq> [] then (Some f, v) else (None, atom)))"

definition field_prefix :: "(string \<Rightarrow> bool) \<Rightarrow> string \<Rightarrow> string option" where
  "field_prefix alnum atom =
     (case strip_suffix '':'' atom of
        None \<Rightarrow> None
      | Some field \<Rightarrow> if is_ident alnum field then Some field else None)"

fun set_field :: "string \<Rightarrow> string option \<Rightarrow> string option" where
  "set_field field None = Some field"
| "set_field field (Some f) = Some f"

fun apply_field_prefix :: "string \<Rightarrow> query \<Rightarrow> query" where
  "apply_field_prefix fd (Term f v) = Term (set_field fd f) v"
| "apply_field_prefix fd (Match f t p) = Match (set_field fd f) t p"
| "apply_field_prefix fd (Phrase f ts s) = Phrase (set_field fd f) ts s"
| "apply_field_prefix fd (Prefix f p) = Prefix (set_field fd f) p"
| "apply_field_prefix fd (Wildcard f p) = Wildcard (set_field fd f) p"
| "apply_field_prefix fd (Fuzzy f v d) = Fuzzy (set_field fd f) v d"
| "apply_field_prefix fd (Regex f p) = Regex (set_field fd f) p"
| "apply_field_prefix fd (Bool mu sh mn fi) =
     Bool (map (apply_field_prefix fd) mu) (map (apply_field_prefix fd) sh)
          (map (apply_field_prefix fd) mn) (map (apply_field_prefix fd) fi)"
| "apply_field_prefix fd (Boost q b) = Boost (apply_field_prefix fd q) b"
| "apply_field_prefix fd q = q"

definition strip_boost :: "string \<Rightarrow> string \<times> 32 word option" where
  "strip_boost v =
     (case rfind_char (CHR ''^'') v of
        None \<Rightarrow> (v, None)
      | Some caret \<Rightarrow>
          (case parse_f32 (drop (caret + 1) v) of
             None \<Rightarrow> (v, None)
           | Some b \<Rightarrow> (take caret v, Some b)))"

definition is_cidr :: "string \<Rightarrow> bool" where
  "is_cidr s =
     (case split_once ''/'' s of
        None \<Rightarrow> False
      | Some (addr, prefix) \<Rightarrow> parse_ip addr \<noteq> None \<and> parse_u8 prefix \<noteq> None)"

text \<open>The closure \<open>bound\<close> of a range.\<close>

definition range_bound :: "string \<Rightarrow> string option" where
  "range_bound s0 = (let s = trim s0 in if s \<noteq> [] \<and> s \<noteq> ''*'' then Some s else None)"

definition phrase_node ::
    "string option \<Rightarrow> string \<Rightarrow> nat \<Rightarrow> parse_error + query" where
  "phrase_node field rest at =
     (case find_char (CHR ''\"'') rest of
        None \<Rightarrow> Inl (InvalidValue ''unterminated phrase'' at)
      | Some e \<Rightarrow>
          (let suffix = drop (e + 1) rest in
           res_bind
             (case strip_prefix ''~'' suffix of
                Some n \<Rightarrow> (case parse_u32 n of
                             None \<Rightarrow> Inl (InvalidValue ''bad phrase slop'' at)
                           | Some s \<Rightarrow> Inr s)
              | None \<Rightarrow> if suffix = [] then Inr 0
                        else Inl (InvalidValue ''unexpected text after phrase'' at))
             (\<lambda>slop.
                if MAX_PHRASE_SLOP < slop
                then Inl (InvalidValue ''phrase slop too large (max 100)'' at)
                else Inr (Phrase field (split_whitespace (take e rest)) slop))))"

definition range_node :: "string option \<Rightarrow> string \<Rightarrow> nat \<Rightarrow> parse_error + query" where
  "range_node field core at =
     (case field of
        None \<Rightarrow> Inl (InvalidValue ''range needs a field'' at)
      | Some f \<Rightarrow>
          if \<not> is_suffix_of '']'' core \<and> \<not> is_suffix_of ''}'' core
          then Inl (InvalidValue ''unterminated range'' at)
          else
            (case split_once '' TO '' (take (length core - 2) (drop 1 core)) of
               None \<Rightarrow> Inl (InvalidValue ''range needs ` TO `'' at)
             | Some (lo, hi) \<Rightarrow>
                 Inr (Range f (range_bound lo) (is_prefix_of ''['' core)
                              (range_bound hi) (is_suffix_of '']'' core))))"

definition fuzzy_node ::
    "string option \<Rightarrow> string \<Rightarrow> string \<Rightarrow> nat \<Rightarrow> parse_error + query" where
  "fuzzy_node field base suffix at =
     res_bind
       (if suffix = [] then Inr 2
        else (case parse_u8 suffix of
                None \<Rightarrow> Inl (InvalidValue ''bad fuzzy distance'' at) | Some d \<Rightarrow> Inr d))
       (\<lambda>d. if MAX_FUZZY_DISTANCE < d
            then Inl (InvalidValue ''fuzzy distance must be 0, 1, or 2'' at)
            else Inr (Fuzzy field base d))"

definition plain_node :: "string option \<Rightarrow> string \<Rightarrow> query" where
  "plain_node field core =
     (if CHR ''*'' \<in> set core \<or> CHR ''?'' \<in> set core then Wildcard field core else Term field core)"

definition value_node :: "string option \<Rightarrow> string \<Rightarrow> nat \<Rightarrow> parse_error + query" where
  "value_node field core at =
     (if field = None \<and> (core = ''*'' \<or> core = ''*:*'') then Inr MatchAll
      else
        case strip_prefix ''\"'' core of
          Some rest \<Rightarrow> phrase_node field rest at
        | None \<Rightarrow>
            if is_prefix_of ''['' core \<or> is_prefix_of ''{'' core then range_node field core at
            else if 2 \<le> length core \<and> is_prefix_of ''/'' core \<and> is_suffix_of ''/'' core then
              Inr (Regex field (take (length core - 2) (drop 1 core)))
            else if field \<noteq> None \<and> is_cidr core then Inr (IpCidr (the field) core)
            else
              (case rfind_char (CHR ''~'') core of
                 None \<Rightarrow> Inr (plain_node field core)
               | Some tilde \<Rightarrow>
                   if take tilde core \<noteq> []
                   then fuzzy_node field (take tilde core) (drop (tilde + 1) core) at
                   else Inr (plain_node field core)))"

definition atom_to_query :: "(string \<Rightarrow> bool) \<Rightarrow> string \<Rightarrow> nat \<Rightarrow> parse_error + query" where
  "atom_to_query alnum atom at =
     (let (field, v) = split_field alnum atom; (core, boost) = strip_boost v in
      if boost \<noteq> None \<and> (\<not> f32_is_finite (the boost) \<or> f32_lt_zero (the boost))
      then Inl (InvalidValue ''boost must be a finite, non-negative number'' at)
      else
        res_bind (value_node field core at) (\<lambda>node.
          Inr (case boost of Some b \<Rightarrow> Boost node b | None \<Rightarrow> node)))"

subsection \<open>Recursive descent\<close>

record parser =
  ps_pos :: nat
  ps_depth :: nat

definition peek :: "spanned list \<Rightarrow> parser \<Rightarrow> tok option" where
  "peek ts p = (if ps_pos p < length ts then Some (sp_tok (ts ! ps_pos p)) else None)"

definition bump :: "parser \<Rightarrow> parser" where
  "bump p = p\<lparr>ps_pos := ps_pos p + 1\<rparr>"

definition describe_pos :: "spanned list \<Rightarrow> parser \<Rightarrow> string" where
  "describe_pos ts p = (case peek ts p of Some t \<Rightarrow> tok_display t | None \<Rightarrow> ''end of input'')"

type_synonym parsed = "(parse_error + query \<times> parser) option"

definition and_then :: "parsed \<Rightarrow> (query \<Rightarrow> parser \<Rightarrow> parsed) \<Rightarrow> parsed" where
  "and_then r f =
     (case r of None \<Rightarrow> None | Some (Inl e) \<Rightarrow> Some (Inl e) | Some (Inr (q, p)) \<Rightarrow> f q p)"

lemma and_then_cong [fundef_cong]:
  "r = r' \<Longrightarrow> (\<And>q p. r' = Some (Inr (q, p)) \<Longrightarrow> f q p = g q p) \<Longrightarrow> and_then r f = and_then r' g"
  by (auto simp: and_then_def split: option.splits sum.splits)

definition or_result :: "query list \<Rightarrow> query" where
  "or_result shoulds = (if length shoulds = 1 then last shoulds else Bool [] shoulds [] [])"

definition and_result :: "query list \<Rightarrow> query list \<Rightarrow> query" where
  "and_result mu mn = (if length mu = 1 \<and> mn = [] then last mu else Bool mu [] mn [])"

fun parse_or :: "(string \<Rightarrow> bool) \<Rightarrow> nat \<Rightarrow> spanned list \<Rightarrow> parser \<Rightarrow> parsed"
and or_loop :: "(string \<Rightarrow> bool) \<Rightarrow> nat \<Rightarrow> spanned list \<Rightarrow> query list \<Rightarrow> parser \<Rightarrow> parsed"
and parse_and :: "(string \<Rightarrow> bool) \<Rightarrow> nat \<Rightarrow> spanned list \<Rightarrow> query list \<Rightarrow> query list \<Rightarrow> parser \<Rightarrow> parsed"
and parse_clause :: "(string \<Rightarrow> bool) \<Rightarrow> nat \<Rightarrow> spanned list \<Rightarrow> parser \<Rightarrow> parsed"
where
  "parse_or alnum 0 ts p = None"
| "parse_or alnum (Suc n) ts p =
     and_then (parse_and alnum n ts [] [] p) (\<lambda>q p. or_loop alnum n ts [q] p)"
| "or_loop alnum 0 ts shoulds p = None"
| "or_loop alnum (Suc n) ts shoulds p =
     (if peek ts p = Some TOr then
        and_then (parse_and alnum n ts [] [] (bump p)) (\<lambda>q p. or_loop alnum n ts (shoulds @ [q]) p)
      else Some (Inr (or_result shoulds, p)))"
| "parse_and alnum 0 ts mu mn p = None"
| "parse_and alnum (Suc n) ts mu mn p =
     (let negated = (peek ts p = Some TNot) in
      and_then (parse_clause alnum n ts (if negated then bump p else p)) (\<lambda>q p.
        let mu' = (if negated then mu else mu @ [q]); mn' = (if negated then mn @ [q] else mn) in
        case peek ts p of
          Some TAnd \<Rightarrow> parse_and alnum n ts mu' mn' (bump p)
        | Some (TTerm _) \<Rightarrow> parse_and alnum n ts mu' mn' p
        | Some TLParen \<Rightarrow> parse_and alnum n ts mu' mn' p
        | Some TNot \<Rightarrow> parse_and alnum n ts mu' mn' p
        | _ \<Rightarrow> Some (Inr (and_result mu' mn', p))))"
| "parse_clause alnum 0 ts p = None"
| "parse_clause alnum (Suc n) ts p =
     (case peek ts p of
        Some TLParen \<Rightarrow>
          (let p = (bump p)\<lparr>ps_depth := ps_depth p + 1\<rparr> in
           if MAX_QUERY_DEPTH < ps_depth p then Some (Inl (TooDeep MAX_QUERY_DEPTH))
           else
             and_then (parse_or alnum n ts p) (\<lambda>inner p.
               let p = p\<lparr>ps_depth := ps_depth p - 1\<rparr> in
               if peek ts p = Some TRParen then Some (Inr (inner, bump p))
               else Some (Inl UnbalancedParen)))
      | Some (TTerm t) \<Rightarrow>
          (case (if peek ts (bump p) = Some TLParen then field_prefix alnum t else None) of
             Some field \<Rightarrow>
               and_then (parse_clause alnum n ts (bump p)) (\<lambda>group p.
                 Some (Inr (apply_field_prefix field group, p)))
           | None \<Rightarrow>
               (case atom_to_query alnum t (sp_start (ts ! ps_pos p)) of
                  Inl e \<Rightarrow> Some (Inl e)
                | Inr q \<Rightarrow> Some (Inr (q, bump p))))
      | other \<Rightarrow>
          Some (Inl (MissingOperand
            (case other of Some t \<Rightarrow> tok_display t | None \<Rightarrow> ''end of input''))))"

definition parse_fuel :: "spanned list \<Rightarrow> nat" where
  "parse_fuel ts = 3 * length ts + 3"

definition parse_with :: "(string \<Rightarrow> bool) \<Rightarrow> string \<Rightarrow> query_syntax \<Rightarrow> (parse_error + query) option" where
  "parse_with alnum input sy =
     (let ts = lex input sy in
      if ts = [] then Some (Inl Empty)
      else
        (case parse_or alnum (parse_fuel ts) ts \<lparr>ps_pos = 0, ps_depth = 0\<rparr> of
           None \<Rightarrow> None
         | Some (Inl e) \<Rightarrow> Some (Inl e)
         | Some (Inr (q, p)) \<Rightarrow>
             if ps_pos p \<noteq> length ts then Some (Inl (UnexpectedToken (describe_pos ts p)))
             else Some (Inr q)))"

definition parse :: "(string \<Rightarrow> bool) \<Rightarrow> string \<Rightarrow> (parse_error + query) option" where
  "parse alnum input = parse_with alnum input Lucene"

definition parse_kql :: "(string \<Rightarrow> bool) \<Rightarrow> string \<Rightarrow> (parse_error + query) option" where
  "parse_kql alnum input = parse_with alnum input Kql"

subsection \<open>What a parsed query may contain\<close>

fun query_ok :: "query \<Rightarrow> bool" where
  "query_ok (Phrase f ts s) = (s \<le> MAX_PHRASE_SLOP)"
| "query_ok (Fuzzy f v d) = (d \<le> MAX_FUZZY_DISTANCE)"
| "query_ok (Boost q b) = (query_ok q \<and> f32_is_finite b \<and> \<not> f32_lt_zero b)"
| "query_ok (Bool mu sh mn fi) =
     (list_all query_ok mu \<and> list_all query_ok sh \<and> list_all query_ok mn \<and> fi = [])"
| "query_ok (Knn f v k q) = False"
| "query_ok (Terms f vs) = False"
| "query_ok (Match f t p) = False"
| "query_ok (Prefix f p) = False"
| "query_ok (Exists f) = False"
| "query_ok q = True"

lemma fold_max_le: "fold max xs m \<le> (k::nat) \<longleftrightarrow> m \<le> k \<and> (\<forall>x \<in> set xs. x \<le> k)"
  by (induction xs arbitrary: m) auto

lemma query_depth_Bool:
  "query_depth (Bool mu sh mn fi) \<le> Suc k \<longleftrightarrow>
     (\<forall>q \<in> set mu \<union> set sh \<union> set mn \<union> set fi. query_depth q \<le> k)"
  by (auto simp: fold_max_le)

declare query_depth.simps(1) [simp del]

lemma apply_field_prefix_ok: "query_ok q \<Longrightarrow> query_ok (apply_field_prefix fd q)"
  by (induction fd q rule: apply_field_prefix.induct) (auto simp: list_all_iff)

lemma apply_field_prefix_depth: "query_depth (apply_field_prefix fd q) = query_depth q"
proof (induction fd q rule: apply_field_prefix.induct)
  case (8 fd mu sh mn fi)
  have "map query_depth (map (apply_field_prefix fd) qs) = map query_depth qs"
    if "\<And>q. q \<in> set qs \<Longrightarrow> query_depth (apply_field_prefix fd q) = query_depth q" for qs
    using that by simp
  from this [of mu] this [of sh] this [of mn] this [of fi] 8 show ?case
    by (simp add: query_depth.simps(1) del: map_map)
qed auto

lemma value_node_leaf:
  "value_node field core at = Inr q \<Longrightarrow> query_ok q \<and> query_depth q = 1"
  by (auto simp: value_node_def phrase_node_def range_node_def fuzzy_node_def plain_node_def
                 res_bind_Inr_iff Let_def
           split: if_splits option.splits)

lemma atom_to_query_ok:
  "atom_to_query alnum t at = Inr q \<Longrightarrow> query_ok q \<and> query_depth q \<le> 2"
  using value_node_leaf
  by (fastforce simp: atom_to_query_def res_bind_Inr_iff split: prod.splits if_splits option.splits)

subsection \<open>Progress and fuel\<close>

lemma peek_Some: "peek ts p = Some t \<Longrightarrow> ps_pos p < length ts"
  by (auto simp: peek_def split: if_splits)

lemma bump_simps [simp]: "ps_pos (bump p) = ps_pos p + 1" "ps_depth (bump p) = ps_depth p"
  by (simp_all add: bump_def)

lemma and_then_Inr:
  "and_then r f = Some (Inr y) \<longleftrightarrow> (\<exists>q p. r = Some (Inr (q, p)) \<and> f q p = Some (Inr y))"
  by (auto simp: and_then_def split: option.splits sum.splits)

lemma and_then_not_None:
  "and_then r f \<noteq> None \<longleftrightarrow> r \<noteq> None \<and> (\<forall>q p. r = Some (Inr (q, p)) \<longrightarrow> f q p \<noteq> None)"
  by (auto simp: and_then_def split: option.splits sum.splits)

definition advances :: "spanned list \<Rightarrow> parser \<Rightarrow> parser \<Rightarrow> bool" where
  "advances ts p p' \<longleftrightarrow> ps_pos p < ps_pos p' \<and> ps_pos p' \<le> length ts \<and> ps_depth p' = ps_depth p"

lemma parse_and_SucE:
  assumes "parse_and alnum (Suc n) ts mu mn p = Some (Inr (q, p'))"
  obtains p0 q1 p1 mu' mn' where
    "p0 = p \<or> p0 = bump p" and "parse_clause alnum n ts p0 = Some (Inr (q1, p1))"
    and "mu' = mu @ [q1] \<and> mn' = mn \<or> mu' = mu \<and> mn' = mn @ [q1]"
    and "q = and_result mu' mn' \<and> p' = p1 \<or>
         (\<exists>p2. (p2 = p1 \<or> p2 = bump p1) \<and> parse_and alnum n ts mu' mn' p2 = Some (Inr (q, p')))"
proof -
  let ?neg = "peek ts p = Some TNot"
  from assms obtain q1 p1 where
    c: "parse_clause alnum n ts (if ?neg then bump p else p) = Some (Inr (q1, p1))"
    by (auto simp: and_then_Inr Let_def)
  let ?mu = "if ?neg then mu else mu @ [q1]" and ?mn = "if ?neg then mn @ [q1] else mn"
  have "(case peek ts p1 of
          Some TAnd \<Rightarrow> parse_and alnum n ts ?mu ?mn (bump p1)
        | Some (TTerm _) \<Rightarrow> parse_and alnum n ts ?mu ?mn p1
        | Some TLParen \<Rightarrow> parse_and alnum n ts ?mu ?mn p1
        | Some TNot \<Rightarrow> parse_and alnum n ts ?mu ?mn p1
        | _ \<Rightarrow> Some (Inr (and_result ?mu ?mn, p1))) = Some (Inr (q, p'))"
    using assms c by (simp add: and_then_def Let_def)
  then have "q = and_result ?mu ?mn \<and> p' = p1 \<or>
         (\<exists>p2. (p2 = p1 \<or> p2 = bump p1) \<and> parse_and alnum n ts ?mu ?mn p2 = Some (Inr (q, p')))"
    by (auto split: option.splits tok.splits)
  with c show ?thesis by (intro that [of "if ?neg then bump p else p" q1 p1 ?mu ?mn]) auto
qed

lemma parse_clause_SucE:
  assumes "parse_clause alnum (Suc n) ts p = Some (Inr (q, p'))"
  obtains (paren) p1 where "ps_depth p < MAX_QUERY_DEPTH"
      and "parse_or alnum n ts ((bump p)\<lparr>ps_depth := ps_depth p + 1\<rparr>) = Some (Inr (q, p1))"
      and "ps_pos p1 < length ts" and "p' = bump (p1\<lparr>ps_depth := ps_depth p1 - 1\<rparr>)"
    | (group) fd g where "parse_clause alnum n ts (bump p) = Some (Inr (g, p'))"
      and "q = apply_field_prefix fd g"
    | (atom) t where "peek ts p = Some (TTerm t)"
      and "atom_to_query alnum t (sp_start (ts ! ps_pos p)) = Inr q" and "p' = bump p"
proof (cases "peek ts p")
  case None
  with assms show ?thesis by simp
next
  case (Some t)
  show ?thesis
  proof (cases t)
    case TLParen
    with assms Some obtain p1 where
      "ps_depth p < MAX_QUERY_DEPTH"
      "parse_or alnum n ts ((bump p)\<lparr>ps_depth := ps_depth p + 1\<rparr>) = Some (Inr (q, p1))"
      "peek ts (p1\<lparr>ps_depth := ps_depth p1 - 1\<rparr>) = Some TRParen"
      "p' = bump (p1\<lparr>ps_depth := ps_depth p1 - 1\<rparr>)"
      by (auto simp: and_then_Inr Let_def split: if_splits)
    then show ?thesis using paren by (auto dest: peek_Some)
  next
    case (TTerm x)
    show ?thesis
    proof (cases "if peek ts (bump p) = Some TLParen then field_prefix alnum x else None")
      case None
      with assms Some TTerm show ?thesis by (intro atom) (auto split: sum.splits)
    next
      case (Some fd)
      with assms TTerm \<open>peek ts p = Some t\<close> obtain g where
        "parse_clause alnum n ts (bump p) = Some (Inr (g, p'))" "q = apply_field_prefix fd g"
        by (auto simp: and_then_Inr)
      then show ?thesis by (rule group)
    qed
  qed (use assms Some in auto)
qed


text \<open>One invariant of the four functions: each success advances inside the tokens, restores the
  nesting depth, and returns a query within the bounds for the depth it was parsed at.\<close>

definition within :: "nat \<Rightarrow> nat \<Rightarrow> query \<Rightarrow> bool" where
  "within d k q \<longleftrightarrow> query_ok q \<and> query_depth q \<le> 2 * (MAX_QUERY_DEPTH - d) + k"

lemma within_or_result:
  "list_all (within d k) qs \<Longrightarrow> qs \<noteq> [] \<Longrightarrow> within d (Suc k) (or_result qs)"
  by (cases qs rule: rev_cases)
     (auto simp: or_result_def within_def list_all_iff query_depth_Bool intro: le_SucI)

lemma within_and_result:
  "list_all (within d k) mu \<Longrightarrow> list_all (within d k) mn \<Longrightarrow> within d (Suc k) (and_result mu mn)"
  by (cases mu rule: rev_cases)
     (auto simp: and_result_def within_def list_all_iff query_depth_Bool intro: le_SucI)

lemma advances_trans: "advances ts a b \<Longrightarrow> advances ts b c \<Longrightarrow> advances ts a c"
  by (simp add: advances_def)

lemma advances_bump: "advances ts (bump p) p' \<Longrightarrow> advances ts p p'"
  by (simp add: advances_def)

definition sound_or :: "(string \<Rightarrow> bool) \<Rightarrow> spanned list \<Rightarrow> nat \<Rightarrow> bool" where
  "sound_or alnum ts n \<longleftrightarrow> (\<forall>p q p'. parse_or alnum n ts p = Some (Inr (q, p')) \<longrightarrow>
     advances ts p p' \<and> within (ps_depth p) 4 q)"

definition sound_loop :: "(string \<Rightarrow> bool) \<Rightarrow> spanned list \<Rightarrow> nat \<Rightarrow> bool" where
  "sound_loop alnum ts n \<longleftrightarrow> (\<forall>qs p q p'. or_loop alnum n ts qs p = Some (Inr (q, p')) \<longrightarrow>
     qs \<noteq> [] \<longrightarrow> list_all (within (ps_depth p) 3) qs \<longrightarrow>
     (p' = p \<or> advances ts p p') \<and> within (ps_depth p) 4 q)"

definition sound_and :: "(string \<Rightarrow> bool) \<Rightarrow> spanned list \<Rightarrow> nat \<Rightarrow> bool" where
  "sound_and alnum ts n \<longleftrightarrow> (\<forall>mu mn p q p'. parse_and alnum n ts mu mn p = Some (Inr (q, p')) \<longrightarrow>
     list_all (within (ps_depth p) 2) mu \<longrightarrow> list_all (within (ps_depth p) 2) mn \<longrightarrow>
     advances ts p p' \<and> within (ps_depth p) 3 q)"

definition sound_clause :: "(string \<Rightarrow> bool) \<Rightarrow> spanned list \<Rightarrow> nat \<Rightarrow> bool" where
  "sound_clause alnum ts n \<longleftrightarrow> (\<forall>p q p'. parse_clause alnum n ts p = Some (Inr (q, p')) \<longrightarrow>
     advances ts p p' \<and> within (ps_depth p) 2 q)"

lemma sound_or_step:
  assumes "sound_and alnum ts n" and "sound_loop alnum ts n"
  shows "sound_or alnum ts (Suc n)"
  unfolding sound_or_def
proof (intro allI impI)
  fix p q p' assume "parse_or alnum (Suc n) ts p = Some (Inr (q, p'))"
  then obtain q1 p1 where 1: "parse_and alnum n ts [] [] p = Some (Inr (q1, p1))"
    and 2: "or_loop alnum n ts [q1] p1 = Some (Inr (q, p'))" by (auto simp: and_then_Inr)
  have "advances ts p p1" "within (ps_depth p) 3 q1"
    using assms(1) 1 unfolding sound_and_def by fastforce+
  then show "advances ts p p' \<and> within (ps_depth p) 4 q"
    using assms(2) [unfolded sound_loop_def, rule_format, OF 2] by (auto simp: advances_def)
qed

lemma sound_loop_step:
  assumes "sound_and alnum ts n" and "sound_loop alnum ts n"
  shows "sound_loop alnum ts (Suc n)"
  unfolding sound_loop_def
proof (intro allI impI)
  fix qs p q p' assume r: "or_loop alnum (Suc n) ts qs p = Some (Inr (q, p'))"
    and ne: "qs \<noteq> []" and qs: "list_all (within (ps_depth p) 3) qs"
  show "(p' = p \<or> advances ts p p') \<and> within (ps_depth p) 4 q"
  proof (cases "peek ts p = Some TOr")
    case True
    with r obtain q1 p1 where 1: "parse_and alnum n ts [] [] (bump p) = Some (Inr (q1, p1))"
      and 2: "or_loop alnum n ts (qs @ [q1]) p1 = Some (Inr (q, p'))" by (auto simp: and_then_Inr)
    have "advances ts (bump p) p1" "within (ps_depth p) 3 q1"
      using assms(1) [unfolded sound_and_def, rule_format, OF 1] by auto
    then show ?thesis
      using assms(2) [unfolded sound_loop_def, rule_format, OF 2] qs by (auto simp: advances_def)
  next
    case False
    with r within_or_result [OF qs ne] show ?thesis by (simp add: eval_nat_numeral)
  qed
qed

lemma sound_and_step:
  assumes "sound_clause alnum ts n" and "sound_and alnum ts n"
  shows "sound_and alnum ts (Suc n)"
  unfolding sound_and_def
proof (intro allI impI)
  fix mu mn p q p' assume r: "parse_and alnum (Suc n) ts mu mn p = Some (Inr (q, p'))"
    and mu: "list_all (within (ps_depth p) 2) mu" and mn: "list_all (within (ps_depth p) 2) mn"
  from r show "advances ts p p' \<and> within (ps_depth p) 3 q"
  proof (rule parse_and_SucE)
    fix p0 q1 p1 mu' mn'
    assume p0: "p0 = p \<or> p0 = bump p" and c: "parse_clause alnum n ts p0 = Some (Inr (q1, p1))"
      and m: "mu' = mu @ [q1] \<and> mn' = mn \<or> mu' = mu \<and> mn' = mn @ [q1]"
      and rest: "q = and_result mu' mn' \<and> p' = p1 \<or>
        (\<exists>p2. (p2 = p1 \<or> p2 = bump p1) \<and> parse_and alnum n ts mu' mn' p2 = Some (Inr (q, p')))"
    have a: "advances ts p p1" "within (ps_depth p) 2 q1" "ps_depth p1 = ps_depth p"
      using assms(1) [unfolded sound_clause_def, rule_format, OF c] p0 by (auto simp: advances_def)
    have m': "list_all (within (ps_depth p) 2) mu'" "list_all (within (ps_depth p) 2) mn'"
      using m mu mn a by auto
    from rest show ?thesis
    proof
      assume "q = and_result mu' mn' \<and> p' = p1"
      then show ?thesis using within_and_result [OF m'] a by (simp add: eval_nat_numeral)
    next
      assume "\<exists>p2. (p2 = p1 \<or> p2 = bump p1) \<and> parse_and alnum n ts mu' mn' p2 = Some (Inr (q, p'))"
      then obtain p2 where p2: "p2 = p1 \<or> p2 = bump p1"
        and r2: "parse_and alnum n ts mu' mn' p2 = Some (Inr (q, p'))" by blast
      have d: "ps_depth p2 = ps_depth p" using p2 a by auto
      have "advances ts p2 p' \<and> within (ps_depth p) 3 q"
        using assms(2) [unfolded sound_and_def, rule_format, OF r2] m' d by simp
      then show ?thesis using a p2 by (auto simp: advances_def)
    qed
  qed
qed

lemma sound_clause_step:
  assumes "sound_or alnum ts n" and "sound_clause alnum ts n"
  shows "sound_clause alnum ts (Suc n)"
  unfolding sound_clause_def
proof (intro allI impI)
  fix p q p' assume "parse_clause alnum (Suc n) ts p = Some (Inr (q, p'))"
  then show "advances ts p p' \<and> within (ps_depth p) 2 q"
  proof (cases rule: parse_clause_SucE)
    case (paren p1)
    from assms(1) [unfolded sound_or_def, rule_format, OF paren(2)] paren show ?thesis
      by (auto simp: advances_def within_def)
  next
    case (group fd g)
    from assms(2) [unfolded sound_clause_def, rule_format, OF group(1)] group(2) show ?thesis
      by (auto simp: advances_def within_def apply_field_prefix_depth apply_field_prefix_ok)
  next
    case (atom t)
    from atom_to_query_ok [OF atom(2)] peek_Some [OF atom(1)] atom(3) show ?thesis
      by (auto simp: advances_def within_def)
  qed
qed

lemma parser_sound:
  "sound_or alnum ts n \<and> sound_loop alnum ts n \<and> sound_and alnum ts n \<and> sound_clause alnum ts n"
proof (induction n)
  case 0
  then show ?case by (simp add: sound_or_def sound_loop_def sound_and_def sound_clause_def)
next
  case (Suc n)
  then show ?case
    using sound_or_step sound_loop_step sound_and_step sound_clause_step by blast
qed

lemmas parse_or_sound = parser_sound [THEN conjunct1, unfolded sound_or_def, rule_format]
lemmas parse_and_sound =
  parser_sound [THEN conjunct2, THEN conjunct2, THEN conjunct1, unfolded sound_and_def, rule_format]
lemmas parse_clause_sound =
  parser_sound [THEN conjunct2, THEN conjunct2, THEN conjunct2, unfolded sound_clause_def, rule_format]

text \<open>Enough fuel: three units per remaining token, and up to three more.\<close>

definition left :: "spanned list \<Rightarrow> parser \<Rightarrow> nat" where
  "left ts p = length ts - ps_pos p"

lemma left_advances: "advances ts p p' \<Longrightarrow> left ts p' < left ts p"
  by (auto simp: advances_def left_def)

lemma left_peek: "peek ts p = Some t \<Longrightarrow> left ts (bump p) < left ts p \<and> left ts (bump p) = left ts p - 1"
  by (auto simp: left_def dest: peek_Some)

lemma left_bump: "left ts (bump p) \<le> left ts p"
  by (simp add: left_def)

lemma parser_fuel:
  "(\<forall>p. 3 * left ts p + 3 \<le> n \<longrightarrow> parse_or alnum n ts p \<noteq> None) \<and>
   (\<forall>qs p. 3 * left ts p + 1 \<le> n \<longrightarrow> or_loop alnum n ts qs p \<noteq> None) \<and>
   (\<forall>mu mn p. 3 * left ts p + 2 \<le> n \<longrightarrow> parse_and alnum n ts mu mn p \<noteq> None) \<and>
   (\<forall>p. 3 * left ts p + 1 \<le> n \<longrightarrow> parse_clause alnum n ts p \<noteq> None)"
proof (induction n)
  case 0
  then show ?case by simp
next
  case (Suc n)
  note O = Suc.IH [THEN conjunct1, rule_format]
    and L = Suc.IH [THEN conjunct2, THEN conjunct1, rule_format]
    and A = Suc.IH [THEN conjunct2, THEN conjunct2, THEN conjunct1, rule_format]
    and C = Suc.IH [THEN conjunct2, THEN conjunct2, THEN conjunct2, rule_format]
  have step: "left ts p1 < left ts p" if "parse_and alnum n ts [] [] p = Some (Inr (q, p1))" for p q p1
    using parse_and_sound [OF that] by (auto intro: left_advances)
  have "parse_or alnum (Suc n) ts p \<noteq> None" if "3 * left ts p + 3 \<le> Suc n" for p
  proof -
    have "parse_and alnum n ts [] [] p \<noteq> None" using that by (intro A) simp
    moreover have "or_loop alnum n ts [q] p1 \<noteq> None"
      if "parse_and alnum n ts [] [] p = Some (Inr (q, p1))" for q p1
      using step [OF that] \<open>3 * left ts p + 3 \<le> Suc n\<close> by (intro L) simp
    ultimately show ?thesis by (simp add: and_then_not_None del: not_None_eq)
  qed
  moreover have "or_loop alnum (Suc n) ts qs p \<noteq> None" if h: "3 * left ts p + 1 \<le> Suc n" for qs p
  proof (cases "peek ts p = Some TOr")
    case True
    then have l: "left ts (bump p) < left ts p" using left_peek by blast
    then have "parse_and alnum n ts [] [] (bump p) \<noteq> None" using h by (intro A) simp
    moreover have "or_loop alnum n ts xs p1 \<noteq> None"
      if "parse_and alnum n ts [] [] (bump p) = Some (Inr (q, p1))" for q p1 xs
      using step [OF that] l h by (intro L) simp
    ultimately show ?thesis using True by (simp add: and_then_not_None del: not_None_eq)
  qed simp
  moreover have "parse_and alnum (Suc n) ts mu mn p \<noteq> None" if h: "3 * left ts p + 2 \<le> Suc n" for mu mn p
  proof -
    let ?p0 = "if peek ts p = Some TNot then bump p else p"
    have l: "left ts ?p0 \<le> left ts p" using left_bump by simp
    then have "parse_clause alnum n ts ?p0 \<noteq> None" using h by (intro C) simp
    moreover have "parse_and alnum n ts x y p2 \<noteq> None"
      if "parse_clause alnum n ts ?p0 = Some (Inr (q, p1))" "p2 = p1 \<or> p2 = bump p1" for q p1 p2 x y
    proof -
      have "left ts p1 < left ts ?p0" using parse_clause_sound [OF that(1)] by (auto intro: left_advances)
      then have "left ts p2 < left ts p" using l that(2) left_bump [of ts p1] by auto
      then show ?thesis using h by (intro A) simp
    qed
    ultimately show ?thesis
      by (simp add: and_then_not_None Let_def split: option.split tok.split del: not_None_eq)
  qed
  moreover have "parse_clause alnum (Suc n) ts p \<noteq> None" if h: "3 * left ts p + 1 \<le> Suc n" for p
  proof (cases "peek ts p")
    case (Some t)
    then have l: "left ts (bump p) = left ts p - 1" "0 < left ts p" using left_peek [OF Some] by auto
    have "left ts ((bump p)\<lparr>ps_depth := d\<rparr>) = left ts (bump p)" for d by (simp add: left_def)
    then have "parse_or alnum n ts ((bump p)\<lparr>ps_depth := d\<rparr>) \<noteq> None" for d using h l by (intro O) simp
    moreover have "parse_clause alnum n ts (bump p) \<noteq> None" using h l by (intro C) simp
    ultimately show ?thesis using Some
      by (auto simp: and_then_not_None Let_def split: tok.split option.split sum.split simp del: not_None_eq)
  qed simp
  ultimately show ?case by blast
qed

subsection \<open>Field groups\<close>

lemma is_cidr_head:
  assumes "is_cidr s"
  shows "\<exists>c cs. s = c # cs \<and> (is_hex_digit c \<or> c = CHR '':'')"
proof -
  obtain i where i: "find_sub ''/'' s = Some i" and ok: "parse_ip (take i s) \<noteq> None"
    using assms by (auto simp: is_cidr_def split_once_def split: option.splits)
  have "\<exists>c cs. take i s = c # cs \<and> (is_hex_digit c \<or> c = CHR '':'')"
    using ok parse_ip_head by blast
  then obtain c cs where "take i s = c # cs" "is_hex_digit c \<or> c = CHR '':''" by blast
  then show ?thesis by (cases s; cases i) auto
qed

lemma is_cidr_plain:
  assumes "is_cidr core"
  shows "strip_prefix ''\"'' core = None" "\<not> is_prefix_of ''['' core" "\<not> is_prefix_of ''{'' core"
    "\<not> is_prefix_of ''/'' core" "core \<noteq> ''*''" "core \<noteq> ''*:*''"
  using is_cidr_head [OF assms]
  by (auto simp: strip_prefix_def is_prefix_of_def is_hex_digit_def is_ascii_digit_def)

lemma leaf_prefix [simp]:
  "apply_field_prefix fd (plain_node None core) = plain_node (Some fd) core"
  by (simp add: plain_node_def)

lemma fuzzy_prefix:
  "map_sum id (apply_field_prefix fd) (fuzzy_node None b s at) = fuzzy_node (Some fd) b s at"
  by (auto simp: fuzzy_node_def split: option.splits)

lemma phrase_prefix:
  "map_sum id (apply_field_prefix fd) (phrase_node None r at) = phrase_node (Some fd) r at"
  by (auto simp: phrase_node_def Let_def split: option.splits)

subsection \<open>Properties\<close>

text \<open>C10. Parsing returns on every input, in both syntaxes: the recursive descent never runs out of
  fuel. A query it returns nests at most \<open>2 * 128 + 4\<close> levels deep, has phrase slop at most 100, edit
  distance at most 2 and only finite, non-negative boosts, and never contains a nearest-neighbour clause
  or a non-scoring filter.\<close>

theorem parse_returns_bounded:
  "\<exists>r. parse_with alnum input sy = Some r \<and>
     (case r of
        Inl e \<Rightarrow> True
      | Inr q \<Rightarrow> query_ok q \<and> query_depth q \<le> 2 * MAX_QUERY_DEPTH + 4)"
proof -
  let ?ts = "lex input sy" and ?p = "\<lparr>ps_pos = 0, ps_depth = 0\<rparr>"
  have "parse_or alnum (parse_fuel ?ts) ?ts ?p \<noteq> None"
    using parser_fuel by (simp add: parse_fuel_def left_def)
  then obtain r where r: "parse_or alnum (parse_fuel ?ts) ?ts ?p = Some r" by blast
  show ?thesis
  proof (cases r)
    case (Inl e)
    with r show ?thesis by (simp add: parse_with_def Let_def)
  next
    case (Inr qp)
    then obtain q p where "qp = (q, p)" by (cases qp)
    with Inr r parse_or_sound [of alnum "parse_fuel ?ts" ?ts ?p q p] show ?thesis
      by (auto simp: parse_with_def Let_def within_def)
  qed
qed


end
