(* ===== verification/Window.thy ===== *)
theory Window
  imports Commit_Batch Timestamp Query_Model
begin

section \<open>Time-window sharding\<close>

text \<open>
  Models \<open>growlerdb-core/src/window.rs\<close>: window granularity, the window of a timestamp, the windows a
  query must touch, and the partitioning of a batch by ingest-time window with the event-time zone map of
  each window. The two additions and multiplications the code performs on \<open>i64\<close> wrap as a release build
  does.

  Shown: a timestamp lies in its window; partitioning keeps every upsert, in order, in the window of its
  document and every delete, and its zone maps are the exact event-time spans; cold windows are all but
  the newest ones.
\<close>

datatype window_granularity = Hourly | Daily | Weekly

fun millis :: "window_granularity \<Rightarrow> int" where
  "millis Hourly = 3600000"
| "millis Daily = 86400000"
| "millis Weekly = 7 * 86400000"

definition granularity_micros :: "window_granularity \<Rightarrow> int" where
  "granularity_micros g = millis g * 1000"

record time_windowing =
  tw_field :: string
  tw_granularity :: window_granularity
  tw_event_time_field :: "string option"
  tw_hot_windows :: "nat option"

definition new_windowing :: "string \<Rightarrow> window_granularity \<Rightarrow> time_windowing" where
  "new_windowing f g =
     \<lparr>tw_field = f, tw_granularity = g, tw_event_time_field = None, tw_hot_windows = None\<rparr>"

definition with_event_time :: "string \<Rightarrow> time_windowing \<Rightarrow> time_windowing" where
  "with_event_time f w = w\<lparr>tw_event_time_field := Some f\<rparr>"

definition with_hot_windows :: "nat \<Rightarrow> time_windowing \<Rightarrow> time_windowing" where
  "with_hot_windows n w = w\<lparr>tw_hot_windows := Some n\<rparr>"

text \<open>\<open>keep.or(self.hot_windows)\<close>, and a saturating prefix length.\<close>

definition cold_windows :: "time_windowing \<Rightarrow> int list \<Rightarrow> nat option \<Rightarrow> int list" where
  "cold_windows w windows keep =
     (case (case keep of Some n \<Rightarrow> Some n | None \<Rightarrow> tw_hot_windows w) of
        Some hot \<Rightarrow> take (length windows - hot) windows
      | None \<Rightarrow> [])"

definition window_of :: "time_windowing \<Rightarrow> int \<Rightarrow> int" where
  "window_of w epoch_us =
     (let l = granularity_micros (tw_granularity w) in wrap_i64 (epoch_us div l * l))"

definition field_micros :: "time_lib \<Rightarrow> document \<Rightarrow> string \<Rightarrow> time_format option \<Rightarrow> int option" where
  "field_micros lib doc field format =
     (case bt_get (doc_fields doc) field of
        None \<Rightarrow> None
      | Some v \<Rightarrow>
          (case format of
             Some f \<Rightarrow> (case to_micros lib f field v of Inl _ \<Rightarrow> None | Inr m \<Rightarrow> Some m)
           | None \<Rightarrow> (case v of VInt i \<Rightarrow> Some i | _ \<Rightarrow> None)))"

definition doc_window :: "time_lib \<Rightarrow> time_windowing \<Rightarrow> document \<Rightarrow> time_format option \<Rightarrow> int" where
  "doc_window lib w doc format =
     window_of w (case field_micros lib doc (tw_field w) format of None \<Rightarrow> 0 | Some m \<Rightarrow> m)"

definition window_overlaps :: "time_windowing \<Rightarrow> int \<Rightarrow> int option \<Rightarrow> int option \<Rightarrow> bool" where
  "window_overlaps w window_start lo hi =
     (let window_end = wrap_i64 (window_start + granularity_micros (tw_granularity w)) in
      (case lo of None \<Rightarrow> True | Some l \<Rightarrow> l < window_end)
      \<and> (case hi of None \<Rightarrow> True | Some h \<Rightarrow> window_start \<le> h))"

definition window_bounds ::
    "time_windowing \<Rightarrow> int option \<Rightarrow> int option \<Rightarrow> int option \<times> int option" where
  "window_bounds w lo hi = (map_option (window_of w) lo, map_option (window_of w) hi)"

definition range_overlaps :: "int \<Rightarrow> int \<Rightarrow> int option \<Rightarrow> int option \<Rightarrow> bool" where
  "range_overlaps mn mx lo hi \<longleftrightarrow>
     (case lo of None \<Rightarrow> True | Some l \<Rightarrow> l \<le> mx) \<and> (case hi of None \<Rightarrow> True | Some h \<Rightarrow> mn \<le> h)"

definition keeps :: "time_windowing \<Rightarrow> int \<Rightarrow> (int \<times> int) option \<Rightarrow> query \<Rightarrow> bool" where
  "keeps w window zone q =
     (let (ingest_lo, ingest_hi) = range_bounds (tw_field w) q in
      if \<not> window_overlaps w window ingest_lo ingest_hi then False
      else
        (case (tw_event_time_field w, zone) of
           (Some field, Some (lo, hi)) \<Rightarrow>
             (let (event_lo, event_hi) = range_bounds field q in range_overlaps lo hi event_lo event_hi)
         | _ \<Rightarrow> True))"

definition prune :: "time_windowing \<Rightarrow> (int \<times> (int \<times> int) option) list \<Rightarrow> query \<Rightarrow> int list" where
  "prune w windows q = map fst (filter (\<lambda>(win, zone). keeps w win zone q) windows)"

subsection \<open>Partitioning a batch\<close>

record window_acc =
  acc_ops :: "doc_op list"
  acc_event_min :: "int option"
  acc_event_max :: "int option"

record window_batch =
  wb_window :: int
  wb_batch :: commit_batch
  wb_event_min :: "int option"
  wb_event_max :: "int option"

definition empty_acc :: window_acc where
  "empty_acc = \<lparr>acc_ops = [], acc_event_min = None, acc_event_max = None\<rparr>"

definition acc_push ::
    "time_lib \<Rightarrow> string option \<Rightarrow> time_format option \<Rightarrow> located_doc \<Rightarrow> window_acc \<Rightarrow> window_acc" where
  "acc_push lib event_field event_format d acc =
     (let ev = (case event_field of None \<Rightarrow> None | Some evf \<Rightarrow> field_micros lib (ld_doc d) evf event_format)
      in (case ev of
            None \<Rightarrow> acc
          | Some e \<Rightarrow> acc\<lparr>acc_event_min := Some (opt_min (acc_event_min acc) e),
                          acc_event_max := Some (opt_max (acc_event_max acc) e)\<rparr>)
         \<lparr>acc_ops := acc_ops acc @ [Upsert d]\<rparr>)"

fun place_windows ::
    "time_lib \<Rightarrow> time_windowing \<Rightarrow> time_format option \<Rightarrow> string option \<Rightarrow> time_format option
      \<Rightarrow> doc_op list \<Rightarrow> (int, window_acc) btree \<times> doc_op list
      \<Rightarrow> (int, window_acc) btree \<times> doc_op list" where
  "place_windows lib w wfm evf evm [] st = st"
| "place_windows lib w wfm evf evm (Upsert d # xs) (m, ds) =
     place_windows lib w wfm evf evm xs
       (bt_upsert (doc_window lib w (ld_doc d) wfm) empty_acc (acc_push lib evf evm d) m, ds)"
| "place_windows lib w wfm evf evm (Delete k # xs) (m, ds) =
     place_windows lib w wfm evf evm xs (m, ds @ [Delete k])"

definition window_sub_batch :: "commit_batch \<Rightarrow> int \<times> window_acc \<Rightarrow> window_batch" where
  "window_sub_batch b wa =
     \<lparr>wb_window = fst wa,
      wb_batch = with_safe_checkpoint (safe_checkpoint b)
        (new_commit_batch (acc_ops (snd wa)) (checkpoint b) (batch_id b @ ''#w'' @ show_int (fst wa))),
      wb_event_min = acc_event_min (snd wa),
      wb_event_max = acc_event_max (snd wa)\<rparr>"

definition window_partition_batch ::
    "time_lib \<Rightarrow> time_windowing \<Rightarrow> commit_batch \<Rightarrow> time_format option \<Rightarrow> string option
      \<Rightarrow> time_format option \<Rightarrow> window_batch list \<times> doc_op list" where
  "window_partition_batch lib w b wfm evf evm =
     (let (by_window, ds) = place_windows lib w wfm evf evm (ops b) ([], []) in
      (map (window_sub_batch b) by_window, ds))"

subsection \<open>The window of a timestamp\<close>

lemma granularity_pos [simp]: "0 < granularity_micros g"
  by (cases g) (simp_all add: granularity_micros_def)

lemma granularity_small: "granularity_micros g \<le> 604800000000"
  by (cases g) (simp_all add: granularity_micros_def)

text \<open>Timestamps whose window start and end are \<open>i64\<close> values: all but the last week at either end.\<close>

definition windowable :: "int \<Rightarrow> bool" where
  "windowable t \<longleftrightarrow> i64_min + 604800000000 \<le> t \<and> t \<le> i64_max - 604800000000"

lemma div_mult_bounds: "0 < (l::int) \<Longrightarrow> t div l * l \<le> t \<and> t < t div l * l + l"
  using pos_mod_bound [of l t] pos_mod_sign [of l t] div_mult_mod_eq [of t l] by linarith

lemma window_of_windowable:
  assumes "windowable t"
  shows "window_of w t = t div granularity_micros (tw_granularity w) * granularity_micros (tw_granularity w)"
    and "window_of w t \<le> t" and "t < window_of w t + granularity_micros (tw_granularity w)"
    and "wrap_i64 (window_of w t + granularity_micros (tw_granularity w))
         = window_of w t + granularity_micros (tw_granularity w)"
proof -
  let ?l = "granularity_micros (tw_granularity w)"
  have b: "t div ?l * ?l \<le> t" "t < t div ?l * ?l + ?l" using div_mult_bounds [of ?l t] by simp_all
  have l: "0 < ?l" "?l \<le> 604800000000" using granularity_small by simp_all
  have "in_i64 (t div ?l * ?l)" "in_i64 (t div ?l * ?l + ?l)"
    using b l assms unfolding windowable_def in_i64_def by linarith+
  then have eq: "window_of w t = t div ?l * ?l" and e: "wrap_i64 (t div ?l * ?l + ?l) = t div ?l * ?l + ?l"
    by (simp_all add: window_of_def Let_def wrap_i64_id)
  show "window_of w t = t div ?l * ?l" by (fact eq)
  show "window_of w t \<le> t" "t < window_of w t + ?l" using b eq by simp_all
  show "wrap_i64 (window_of w t + ?l) = window_of w t + ?l" using e eq by simp
qed

lemma window_overlaps_of:
  assumes "windowable t" and "in_bounds t (lo, hi)"
  shows "window_overlaps w (window_of w t) lo hi"
  using window_of_windowable [OF assms(1), of w] assms(2)
  by (auto simp: window_overlaps_def in_bounds_def Let_def split: option.splits)

subsection \<open>Partitioning\<close>

text \<open>The accumulator of one window over the upserts that fall in it.\<close>

fun upserts_in ::
    "time_lib \<Rightarrow> time_windowing \<Rightarrow> time_format option \<Rightarrow> int \<Rightarrow> doc_op list \<Rightarrow> located_doc list" where
  "upserts_in lib w wfm win [] = []"
| "upserts_in lib w wfm win (Upsert d # xs) =
     (if doc_window lib w (ld_doc d) wfm = win then d # upserts_in lib w wfm win xs
      else upserts_in lib w wfm win xs)"
| "upserts_in lib w wfm win (Delete k # xs) = upserts_in lib w wfm win xs"

lemma set_upserts_in:
  "set (upserts_in lib w wfm win os) = {d. Upsert d \<in> set os \<and> doc_window lib w (ld_doc d) wfm = win}"
  by (induction lib w wfm win os rule: upserts_in.induct) auto

definition acc_of ::
    "time_lib \<Rightarrow> string option \<Rightarrow> time_format option \<Rightarrow> window_acc option \<Rightarrow> located_doc list
      \<Rightarrow> window_acc option" where
  "acc_of lib evf evm a ds =
     (if ds = [] then a
      else Some (fold (acc_push lib evf evm) ds (case a of None \<Rightarrow> empty_acc | Some x \<Rightarrow> x)))"

lemma place_windows_get:
  "bt_get (fst (place_windows lib w wfm evf evm os (m, ds))) win
     = acc_of lib evf evm (bt_get m win) (upserts_in lib w wfm win os)"
  "snd (place_windows lib w wfm evf evm os (m, ds)) = ds @ filter (\<lambda>x. x \<in> range Delete) os"
proof (induction lib w wfm evf evm os "(m, ds)" arbitrary: m ds rule: place_windows.induct)
  case (2 lib w wfm evf evm d xs m ds)
  { case 1 show ?case using "2.hyps"(1) by (auto simp: acc_of_def) }
  { case 2 show ?case using "2.hyps"(2) by auto }
next
  case (3 lib w wfm evf evm k xs m ds)
  { case 1 show ?case using "3.hyps"(1) by auto }
  { case 2 show ?case using "3.hyps"(2) by auto }
qed (simp_all add: acc_of_def)

lemma place_windows_ok:
  "bt_ok m \<Longrightarrow> bt_ok (fst (place_windows lib w wfm evf evm os (m, ds)))"
  by (induction lib w wfm evf evm os "(m, ds)" arbitrary: m ds rule: place_windows.induct) auto

lemma acc_push_ops [simp]: "acc_ops (acc_push lib evf evm d a) = acc_ops a @ [Upsert d]"
  by (simp add: acc_push_def Let_def split: option.splits)

lemma fold_acc_ops: "acc_ops (fold (acc_push lib evf evm) ds a) = acc_ops a @ map Upsert ds"
  by (induction ds arbitrary: a) auto


text \<open>The event times of the documents, and the exact span the accumulator keeps of them.\<close>

definition event_of :: "time_lib \<Rightarrow> string option \<Rightarrow> time_format option \<Rightarrow> located_doc \<Rightarrow> int option" where
  "event_of lib evf evm d =
     (case evf of None \<Rightarrow> None | Some f \<Rightarrow> field_micros lib (ld_doc d) f evm)"

fun somes :: "'a option list \<Rightarrow> 'a list" where
  "somes [] = []"
| "somes (None # es) = somes es"
| "somes (Some v # es) = v # somes es"

lemma somes_append [simp]: "somes (xs @ ys) = somes xs @ somes ys"
  by (induction xs rule: somes.induct) auto

definition span_of :: "int option list \<Rightarrow> int option \<times> int option" where
  "span_of es =
     (let vs = somes es in
      if vs = [] then (None, None) else (Some (Min (set vs)), Some (Max (set vs))))"

lemma span_of_snoc:
  "span_of (es @ [e]) =
     (case e of
        None \<Rightarrow> span_of es
      | Some v \<Rightarrow> (Some (opt_min (fst (span_of es)) v), Some (opt_max (snd (span_of es)) v)))"
proof (cases e)
  case None
  then show ?thesis by (simp add: span_of_def)
next
  case (Some v)
  have "Min (set (somes es) \<union> {v}) = min (Min (set (somes es))) v"
    "Max (set (somes es) \<union> {v}) = max (Max (set (somes es))) v" if "somes es \<noteq> []"
    using that by (simp_all add: Min_Un Max_Un del: Un_insert_right)
  then show ?thesis
    using Some by (auto simp: span_of_def opt_min_def opt_max_def Let_def min.commute max.commute)
qed

lemma fold_acc_span:
  "(acc_event_min (fold (acc_push lib evf evm) ds empty_acc),
    acc_event_max (fold (acc_push lib evf evm) ds empty_acc)) = span_of (map (event_of lib evf evm) ds)"
proof (induction ds rule: rev_induct)
  case Nil
  then show ?case by (simp add: span_of_def empty_acc_def)
next
  case (snoc d ds)
  let ?a = "fold (acc_push lib evf evm) ds empty_acc"
  have "acc_event_min (acc_push lib evf evm d ?a) =
          (case event_of lib evf evm d of None \<Rightarrow> acc_event_min ?a | Some v \<Rightarrow> Some (opt_min (acc_event_min ?a) v))"
    "acc_event_max (acc_push lib evf evm d ?a) =
          (case event_of lib evf evm d of None \<Rightarrow> acc_event_max ?a | Some v \<Rightarrow> Some (opt_max (acc_event_max ?a) v))"
    by (simp_all add: acc_push_def event_of_def Let_def split: option.splits)
  moreover have "acc_event_min ?a = fst (span_of (map (event_of lib evf evm) ds))"
    "acc_event_max ?a = snd (span_of (map (event_of lib evf evm) ds))"
    using snoc by (metis fst_conv, metis snd_conv)
  ultimately show ?case by (simp add: span_of_snoc split: option.splits)
qed

subsection \<open>Properties\<close>

lemma window_partition_spec:
  "case window_partition_batch lib w b wfm evf evm of (subs, ds) \<Rightarrow>
     sorted_wrt (<) (map wb_window subs)
     \<and> set (map wb_window subs) = {doc_window lib w (ld_doc d) wfm |d. Upsert d \<in> set (ops b)}
     \<and> (\<forall>s \<in> set subs.
          ops (wb_batch s) = map Upsert (upserts_in lib w wfm (wb_window s) (ops b))
          \<and> checkpoint (wb_batch s) = checkpoint b
          \<and> from_checkpoint (wb_batch s) = None
          \<and> safe_checkpoint (wb_batch s) = safe_checkpoint b
          \<and> (wb_event_min s, wb_event_max s)
              = span_of (map (event_of lib evf evm) (upserts_in lib w wfm (wb_window s) (ops b))))
     \<and> distinct (map (batch_id \<circ> wb_batch) subs)
     \<and> ds = filter (\<lambda>x. x \<in> range Delete) (ops b)"
proof -
  obtain m ds where p: "place_windows lib w wfm evf evm (ops b) ([], []) = (m, ds)" by fastforce
  have get: "bt_get m win = acc_of lib evf evm None (upserts_in lib w wfm win (ops b))" for win
    using place_windows_get(1) [of lib w wfm evf evm "ops b" "[]" "[]" win] p by simp
  have ds: "ds = filter (\<lambda>x. x \<in> range Delete) (ops b)"
    using place_windows_get(2) [of lib w wfm evf evm "ops b" "[]" "[]"] p by simp
  have ok: "bt_ok m" using place_windows_ok [of "[]" lib w wfm evf evm "ops b" "[]"] p by simp
  have keys: "map wb_window (map (window_sub_batch b) m) = bt_keys m"
    by (simp add: window_sub_batch_def bt_keys_def comp_def)
  have sorted: "sorted_wrt (<) (bt_keys m)" using ok by (rule bt.keys_sorted)
  have ids: "distinct (map (batch_id \<circ> wb_batch) (map (window_sub_batch b) m))"
  proof -
    have "map (batch_id \<circ> wb_batch) (map (window_sub_batch b) m)
          = map (\<lambda>k. batch_id b @ ''#w'' @ show_int k) (bt_keys m)"
      by (simp add: window_sub_batch_def bt_keys_def comp_def with_safe_checkpoint_def new_commit_batch_def)
    then show ?thesis using bt.keys_distinct [OF ok] by (simp add: distinct_map inj_on_def)
  qed
  have dom: "set (bt_keys m) = {doc_window lib w (ld_doc d) wfm |d. Upsert d \<in> set (ops b)}"
  proof -
    have "win \<in> set (bt_keys m) \<longleftrightarrow> set (upserts_in lib w wfm win (ops b)) \<noteq> {}" for win
      unfolding bt_keys_get get by (simp add: acc_of_def)
    then show ?thesis by (auto simp: set_upserts_in)
  qed
  have sub: "ops (wb_batch s) = map Upsert (upserts_in lib w wfm (wb_window s) (ops b))
          \<and> (wb_event_min s, wb_event_max s)
              = span_of (map (event_of lib evf evm) (upserts_in lib w wfm (wb_window s) (ops b)))
          \<and> checkpoint (wb_batch s) = checkpoint b \<and> from_checkpoint (wb_batch s) = None
          \<and> safe_checkpoint (wb_batch s) = safe_checkpoint b"
    if "s \<in> set (map (window_sub_batch b) m)" for s
  proof -
    from that obtain win acc where s: "s = window_sub_batch b (win, acc)" "(win, acc) \<in> set m" by auto
    then have "bt_get m win = Some acc" using bt_mem_get [OF ok] by blast
    then have "acc = fold (acc_push lib evf evm) (upserts_in lib w wfm win (ops b)) empty_acc"
      by (auto simp: get acc_of_def split: if_splits)
    then show ?thesis
      using s(1) fold_acc_span [of lib evf evm "upserts_in lib w wfm win (ops b)"]
      by (simp add: window_sub_batch_def with_safe_checkpoint_def new_commit_batch_def fold_acc_ops
                    empty_acc_def)
  qed
  show ?thesis
    using sorted dom ids sub ds unfolding window_partition_batch_def p Let_def
    by (simp only: prod.case keys) blast
qed

lemma window_sub_batch_id:
  "s \<in> set (fst (window_partition_batch lib w b wfm evf evm)) \<Longrightarrow>
     batch_id (wb_batch s) = batch_id b @ ''#w'' @ show_int (wb_window s)"
  by (auto simp: window_partition_batch_def window_sub_batch_def with_safe_checkpoint_def new_commit_batch_def
      split: prod.splits)

text \<open>C33. Partitioning by window: the sub-batches are in ascending window order, one for each window some
  upserted document falls in. Each holds exactly the upserts of its window, in order, the batch's
  checkpoint and resume floor but no resume point, and the exact minimum and maximum of their event times
  as its zone map; the ids are distinct. The deletes are returned apart, all of them, in order.\<close>

theorem window_partition_exact:
  "case window_partition_batch lib w b wfm evf evm of (subs, ds) \<Rightarrow>
     sorted_wrt (<) (map wb_window subs)
     \<and> set (map wb_window subs) = {doc_window lib w (ld_doc d) wfm |d. Upsert d \<in> set (ops b)}
     \<and> (\<forall>s \<in> set subs.
          ops (wb_batch s) = map Upsert (upserts_in lib w wfm (wb_window s) (ops b))
          \<and> checkpoint (wb_batch s) = checkpoint b
          \<and> from_checkpoint (wb_batch s) = None
          \<and> safe_checkpoint (wb_batch s) = safe_checkpoint b
          \<and> (wb_event_min s, wb_event_max s)
              = span_of (map (event_of lib evf evm) (upserts_in lib w wfm (wb_window s) (ops b))))
     \<and> distinct (map (batch_id \<circ> wb_batch) subs)
     \<and> ds = filter (\<lambda>x. x \<in> range Delete) (ops b)"
  by (rule window_partition_spec)

theorem window_partition_exact_witness:
  "case window_partition_batch
      \<lparr>parse_rfc3339 = (\<lambda>_. None), parse_ymd = (\<lambda>_. None), fmt_f64 = (\<lambda>_. [])\<rparr>
      (new_windowing ''ts'' Hourly)
      (new_commit_batch [Delete (new_key [] []), Upsert \<lparr>ld_doc = new_document (new_key [] []) []\<rparr>]
         (iceberg 4) ''b'') None None None of (subs, ds) \<Rightarrow>
     (\<forall>s \<in> set subs. checkpoint (wb_batch s) = iceberg 4) \<and> ds = [Delete (new_key [] [])]"
  using window_partition_exact
    [where lib = "\<lparr>parse_rfc3339 = (\<lambda>_. None), parse_ymd = (\<lambda>_. None), fmt_f64 = (\<lambda>_. [])\<rparr>"
        and w = "new_windowing ''ts'' Hourly"
        and b = "new_commit_batch [Delete (new_key [] []), Upsert \<lparr>ld_doc = new_document (new_key [] []) []\<rparr>]
         (iceberg 4) ''b''" and wfm = None and evf = None and evm = None]
  by (auto simp: new_commit_batch_def)

text \<open>The window of a timestamp is the unique multiple of the window length that starts at or before it
  and ends after it, for all timestamps but the first and last week of the \<open>i64\<close> range.\<close>

lemma window_of_contains:
  assumes "windowable t"
  shows "window_of w t \<le> t \<and> t < window_of w t + granularity_micros (tw_granularity w)
    \<and> granularity_micros (tw_granularity w) dvd window_of w t
    \<and> (\<forall>s. granularity_micros (tw_granularity w) dvd s \<and> s \<le> t
            \<and> t < s + granularity_micros (tw_granularity w) \<longrightarrow> s = window_of w t)"
proof -
  let ?l = "granularity_micros (tw_granularity w)"
  note wo = window_of_windowable [OF assms, of w]
  have "s = window_of w t" if dv: "?l dvd s" "s \<le> t" "t < s + ?l" for s
  proof -
    obtain k where k: "s = ?l * k" using dv(1) by (elim dvdE)
    have "t div ?l = k" using dv(2,3) unfolding k by (intro int_div_pos_eq [of _ _ _ "t - ?l * k"]) simp_all
    then show ?thesis using wo(1) k by simp
  qed
  then show ?thesis using wo by auto
qed

lemma window_of_contains_witness:
  "window_of (new_windowing ''ts'' Daily) 1782000000000001 = 1782000000000000"
proof -
  let ?w = "new_windowing ''ts'' Daily"
  have l: "granularity_micros (tw_granularity ?w) = 86400000000"
    by (simp add: new_windowing_def granularity_micros_def)
  have "windowable 1782000000000001" by (simp add: windowable_def i64_min_def i64_max_def)
  from window_of_contains [OF this, of ?w, unfolded l]
  have "\<forall>s. 86400000000 dvd s \<and> s \<le> 1782000000000001 \<and> 1782000000000001 < s + 86400000000
          \<longrightarrow> s = window_of ?w 1782000000000001" by blast
  from this [rule_format, of 1782000000000000] show ?thesis by simp
qed

end
