(* ===== verification/Shard_Store.thy ===== *)
theory Shard_Store
  imports Commit_Batch "HOL-Library.Multiset"
begin

section \<open>The shard store: staging, committing, replaying\<close>

text \<open>
  Models the write path of \<open>growlerdb-index/src/store.rs\<close>: the continuity guard, \<open>stage_batch\<close>,
  \<open>commit_staged\<close> with its chunked index commits and its single metadata transaction, the batch records
  and their pruning, partition reconciliation, point-in-time handles and the event-time zone map.

  A shard has two durable parts, which a crash separates: the Tantivy index (its committed state) and the
  metadata of one redb transaction (checkpoint, snapshot, batch ids and their prune index). The index is a
  parameter: a \<open>tantivy\<close> names the operations the store calls on it and \<open>tantivy_ok\<close> states what they
  document (a deleted key is absent, an added document is the one its key finds). The iteration order of
  the hash map of effective operations is the parameter \<open>iter\<close>, a permutation. Failures of the disk are
  the crash points of \<open>commit_states\<close>; metrics and sidecar files are not modelled.

  Crashes are crashes of the process: an error that leaves operations in the buffer of a surviving writer is
  not modelled.

  Shown: last-write-wins staging applies a batch exactly as its operations in order; the checkpoint of a
  shard whose checkpoints carry sequence numbers never regresses; a shard fed windows of one changelog, in
  any order, overlapping, stale, replayed or interrupted, holds every key at a point of the changelog at or
  after its checkpoint, and the changelog exactly once it has reached the last window tried; a crash
  anywhere inside a commit is repaired by sending the batch again; reconciliation removes exactly the
  drift of its partition; a point-in-time handle is not moved by commits.
\<close>

subsection \<open>The index\<close>

type_synonym enc = "byte list"

record 'ix tantivy =
  delete_term :: "enc \<Rightarrow> 'ix \<Rightarrow> 'ix"
  add_document :: "enc \<Rightarrow> document \<Rightarrow> 'ix \<Rightarrow> 'ix"
  live :: "'ix \<Rightarrow> enc \<Rightarrow> document option"
  live_keys :: "'ix \<Rightarrow> enc list"

definition tantivy_ok :: "'ix tantivy \<Rightarrow> bool" where
  "tantivy_ok tv \<longleftrightarrow>
     (\<forall>k ix. live tv (delete_term tv k ix) = (live tv ix)(k := None)) \<and>
     (\<forall>k d ix. live tv ix k = None \<longrightarrow> live tv (add_document tv k d ix) = (live tv ix)(k \<mapsto> d)) \<and>
     (\<forall>ix. distinct (live_keys tv ix) \<and> set (live_keys tv ix) = dom (live tv ix))"

subsection \<open>Shards\<close>

record 'ix pit_entry =
  pit_core :: 'ix
  pit_snapshot :: nat
  pit_last_used :: nat

record 'ix shard =
  sh_index :: 'ix
  sh_read_only :: bool
  sh_checkpoint :: "source_checkpoint option"
  sh_snapshot :: nat
  sh_batches :: "(string, nat) btree"
  sh_batch_ckpt :: "(int \<times> string) list"
  sh_event_bounds :: "(int \<times> int) option"
  sh_pits :: "(nat, 'ix pit_entry) btree"
  sh_next_pit :: nat

datatype store_error =
    CheckpointGap "source_checkpoint option" "source_checkpoint option"
  | ReadOnlyShard string
  | TooManyPits nat
  | UnknownPit nat

record staged_ref =
  st_checkpoint :: source_checkpoint
  st_from :: "source_checkpoint option"
  st_batch_id :: string
  st_upserts :: "(enc \<times> document) list"
  st_deletes :: "enc list"
  st_already_applied :: bool
  st_safe :: "source_checkpoint option"

definition has_content :: "staged_ref \<Rightarrow> bool" where
  "has_content s \<longleftrightarrow> st_upserts s \<noteq> [] \<or> st_deletes s \<noteq> []"

subsection \<open>The continuity guard\<close>

datatype continuity = Apply | NoOp | Gap

definition continuity_of ::
    "source_checkpoint option \<Rightarrow> source_checkpoint option \<Rightarrow> source_checkpoint \<Rightarrow> continuity" where
  "continuity_of current from end =
     (case current of
        None \<Rightarrow> Apply
      | Some cur \<Rightarrow>
          (case lineage_cmp end cur of
             Some Equal \<Rightarrow> (case from of None \<Rightarrow> Apply | Some _ \<Rightarrow> NoOp)
           | Some Less \<Rightarrow> NoOp
           | Some Greater \<Rightarrow>
               (case from of
                  None \<Rightarrow> Apply
                | Some f \<Rightarrow>
                    (case lineage_cmp f cur of
                       Some Less \<Rightarrow> Apply
                     | Some Equal \<Rightarrow> Apply
                     | _ \<Rightarrow> Gap))
           | None \<Rightarrow>
               (case from of
                  None \<Rightarrow> Apply
                | Some f \<Rightarrow> if same_position f cur then Apply else Gap)))"

subsection \<open>Staging\<close>

definition batch_snapshot :: "'ix shard \<Rightarrow> string \<Rightarrow> nat option" where
  "batch_snapshot sh i = bt_get (sh_batches sh) i"

text \<open>The hash map of effective operations: the last one for each encoded key.\<close>

fun hm_insert :: "enc \<Rightarrow> doc_op \<Rightarrow> (enc \<times> doc_op) list \<Rightarrow> (enc \<times> doc_op) list" where
  "hm_insert k x [] = [(k, x)]"
| "hm_insert k x ((a, b) # m) = (if a = k then (k, x) # m else (a, b) # hm_insert k x m)"

definition op_enc :: "doc_op \<Rightarrow> enc" where
  "op_enc x = encode (op_key x)"

definition effective :: "doc_op list \<Rightarrow> (enc \<times> doc_op) list" where
  "effective xs = fold (\<lambda>x m. hm_insert (op_enc x) x m) xs []"

fun op_upserts :: "(enc \<times> doc_op) list \<Rightarrow> (enc \<times> document) list" where
  "op_upserts [] = []"
| "op_upserts ((k, Upsert d) # m) = (k, ld_doc d) # op_upserts m"
| "op_upserts ((k, Delete _) # m) = op_upserts m"

fun op_deletes :: "(enc \<times> doc_op) list \<Rightarrow> enc list" where
  "op_deletes [] = []"
| "op_deletes ((k, Upsert _) # m) = op_deletes m"
| "op_deletes ((k, Delete _) # m) = k # op_deletes m"

definition stage_batch ::
    "((enc \<times> doc_op) list \<Rightarrow> (enc \<times> doc_op) list) \<Rightarrow> 'ix shard \<Rightarrow> commit_batch
      \<Rightarrow> store_error + staged_ref" where
  "stage_batch iter sh b =
     (let already = (batch_snapshot sh (batch_id b) \<noteq> None);
          c = continuity_of (sh_checkpoint sh) (from_checkpoint b) (checkpoint b)
      in if \<not> already \<and> c = Gap
         then Inl (CheckpointGap (from_checkpoint b) (sh_checkpoint sh))
         else
           let eff = (if already \<or> c = NoOp then [] else iter (effective (ops b)))
           in Inr \<lparr>st_checkpoint = checkpoint b, st_from = from_checkpoint b,
                   st_batch_id = batch_id b, st_upserts = op_upserts eff, st_deletes = op_deletes eff,
                   st_already_applied = already, st_safe = safe_checkpoint b\<rparr>)"

subsection \<open>Committing\<close>

text \<open>The authoritative decision: the staged batches to apply, against the advancing position.\<close>

fun decide ::
    "source_checkpoint option \<Rightarrow> staged_ref list \<Rightarrow> store_error + staged_ref list" where
  "decide posn [] = Inr []"
| "decide posn (s # ss) =
     (if st_already_applied s then decide posn ss
      else
        (case continuity_of posn (st_from s) (st_checkpoint s) of
           Apply \<Rightarrow> res_bind (decide (Some (st_checkpoint s)) ss) (\<lambda>rest. Inr (s # rest))
         | NoOp \<Rightarrow> decide posn ss
         | Gap \<Rightarrow> Inl (CheckpointGap (st_from s) posn)))"

text \<open>The index writer: what it has buffered, the documents since the last flush, and every state a flush
  made durable.\<close>

record 'ix writer =
  wr_buffer :: 'ix
  wr_since :: nat
  wr_flushed :: "'ix list"

definition write_upsert :: "'ix tantivy \<Rightarrow> nat \<Rightarrow> enc \<times> document \<Rightarrow> 'ix writer \<Rightarrow> 'ix writer" where
  "write_upsert tv chunk u w =
     (let ix = add_document tv (fst u) (snd u) (delete_term tv (fst u) (wr_buffer w)); n = wr_since w + 1
      in if chunk \<noteq> 0 \<and> chunk \<le> n
         then \<lparr>wr_buffer = ix, wr_since = 0, wr_flushed = wr_flushed w @ [ix]\<rparr>
         else \<lparr>wr_buffer = ix, wr_since = n, wr_flushed = wr_flushed w\<rparr>)"

definition write_delete :: "'ix tantivy \<Rightarrow> enc \<Rightarrow> 'ix writer \<Rightarrow> 'ix writer" where
  "write_delete tv k w = w\<lparr>wr_buffer := delete_term tv k (wr_buffer w)\<rparr>"

definition write_staged :: "'ix tantivy \<Rightarrow> nat \<Rightarrow> staged_ref \<Rightarrow> 'ix writer \<Rightarrow> 'ix writer" where
  "write_staged tv chunk s w =
     fold (write_upsert tv chunk) (st_upserts s) (fold (write_delete tv) (st_deletes s) w)"

definition write_all :: "'ix tantivy \<Rightarrow> nat \<Rightarrow> staged_ref list \<Rightarrow> 'ix \<Rightarrow> 'ix writer" where
  "write_all tv chunk ss ix =
     fold (write_staged tv chunk) ss \<lparr>wr_buffer = ix, wr_since = 0, wr_flushed = []\<rparr>"

definition checkpoint_key :: "source_checkpoint \<Rightarrow> int option" where
  "checkpoint_key cp = sequence_number cp"

text \<open>\<open>BATCH_CKPT\<close> is a multimap: a pair is present once.\<close>

definition mm_insert :: "int \<times> string \<Rightarrow> (int \<times> string) list \<Rightarrow> (int \<times> string) list" where
  "mm_insert p m = (if p \<in> set m then m else m @ [p])"

definition prune_batches_at_or_below :: "int \<Rightarrow> 'ix shard \<Rightarrow> 'ix shard" where
  "prune_batches_at_or_below floor sh =
     (let stale = filter (\<lambda>(cp, i). cp \<le> floor) (sh_batch_ckpt sh) in
      sh\<lparr>sh_batch_ckpt := filter (\<lambda>p. p \<notin> set stale) (sh_batch_ckpt sh),
         sh_batches := fold (\<lambda>(cp, i) m. bt_remove i m) stale (sh_batches sh)\<rparr>)"

definition record_batch :: "nat \<Rightarrow> staged_ref \<Rightarrow> 'ix shard \<Rightarrow> 'ix shard" where
  "record_batch snapshot s sh =
     sh\<lparr>sh_batches := bt_insert (st_batch_id s) snapshot (sh_batches sh),
        sh_batch_ckpt :=
          (case checkpoint_key (st_checkpoint s) of
             Some sq \<Rightarrow> mm_insert (sq, st_batch_id s) (sh_batch_ckpt sh)
           | None \<Rightarrow> sh_batch_ckpt sh)\<rparr>"

fun floor_of :: "staged_ref list \<Rightarrow> int option" where
  "floor_of [] = None"
| "floor_of (s # ss) =
     (case Option.bind (st_safe s) checkpoint_key of
        None \<Rightarrow> floor_of ss
      | Some f \<Rightarrow> Some (opt_max (floor_of ss) f))"

definition record_and_prune_batches :: "staged_ref list \<Rightarrow> nat \<Rightarrow> 'ix shard \<Rightarrow> 'ix shard" where
  "record_and_prune_batches committed snapshot sh =
     (let sh' = fold (record_batch snapshot) committed sh in
      case floor_of committed of
        None \<Rightarrow> sh'
      | Some floor \<Rightarrow> prune_batches_at_or_below floor sh')"

text \<open>The metadata transaction.\<close>

definition redb_commit :: "staged_ref list \<Rightarrow> nat \<Rightarrow> 'ix shard \<Rightarrow> 'ix shard" where
  "redb_commit applied snapshot sh =
     record_and_prune_batches applied snapshot
       (sh\<lparr>sh_checkpoint := Some (st_checkpoint (last applied)), sh_snapshot := snapshot\<rparr>)"

text \<open>The durable states a commit goes through, in order; the last one is its result.\<close>

definition commit_states ::
    "'ix tantivy \<Rightarrow> nat \<Rightarrow> 'ix shard \<Rightarrow> staged_ref list \<Rightarrow> store_error + 'ix shard list" where
  "commit_states tv chunk sh staged =
     (if sh_read_only sh then Inl (ReadOnlyShard ''commit a batch to'')
      else
        res_bind (decide (sh_checkpoint sh) staged) (\<lambda>applied.
          let content = filter has_content applied in
          if content = [] then
            Inr (if applied = [] then [sh] else [redb_commit applied (sh_snapshot sh) sh])
          else
            let w = write_all tv chunk content (sh_index sh);
                flushes = map (\<lambda>ix. sh\<lparr>sh_index := ix\<rparr>) (wr_flushed w @ [wr_buffer w])
            in Inr (flushes @ [redb_commit applied (sh_snapshot sh + 1) (last flushes)])))"

definition commit_staged ::
    "'ix tantivy \<Rightarrow> nat \<Rightarrow> 'ix shard \<Rightarrow> staged_ref list \<Rightarrow> store_error + ('ix shard \<times> nat)" where
  "commit_staged tv chunk sh staged =
     res_bind (commit_states tv chunk sh staged) (\<lambda>states.
       Inr (last states, sh_snapshot (last states)))"

text \<open>\<open>IndexWriter::write\<close>: stage and commit one batch.\<close>

definition write_batch ::
    "((enc \<times> doc_op) list \<Rightarrow> (enc \<times> doc_op) list) \<Rightarrow> 'ix tantivy \<Rightarrow> nat \<Rightarrow> 'ix shard \<Rightarrow> commit_batch
      \<Rightarrow> store_error + ('ix shard \<times> nat)" where
  "write_batch iter tv chunk sh b =
     res_bind (stage_batch iter sh b) (\<lambda>s. commit_staged tv chunk sh [s])"

subsection \<open>Reconciliation, counts, point-in-time handles, zone map\<close>

record reconcile_delete =
  rd_deleted :: nat
  rd_skipped :: bool

definition live_keys_with_prefix :: "'ix tantivy \<Rightarrow> 'ix \<Rightarrow> enc \<Rightarrow> enc list" where
  "live_keys_with_prefix tv ix prefix = filter (\<lambda>k. take (length prefix) k = prefix) (live_keys tv ix)"

text \<open>The stale keys are computed on the index as it is before the writer is locked (\<open>before\<close>), the deletes
  run on the shard as it is after (\<open>sh\<close>).\<close>

definition reconcile_partition ::
    "'ix tantivy \<Rightarrow> 'ix shard \<Rightarrow> 'ix shard \<Rightarrow> (string \<times> val) list \<Rightarrow> composite_key list
      \<Rightarrow> source_checkpoint option \<Rightarrow> store_error + ('ix shard \<times> reconcile_delete)" where
  "reconcile_partition tv before sh p live_ks expected =
     (let live_set = map encode live_ks;
          stale = filter (\<lambda>k. k \<notin> set live_set)
                    (live_keys_with_prefix tv (sh_index before) (encode (new_key p [])))
      in if stale = [] then Inr (sh, \<lparr>rd_deleted = 0, rd_skipped = False\<rparr>)
         else if sh_read_only sh then Inl (ReadOnlyShard ''reconcile-delete on'')
         else if expected \<noteq> None \<and> sh_checkpoint sh \<noteq> expected
         then Inr (sh, \<lparr>rd_deleted = 0, rd_skipped = True\<rparr>)
         else Inr (sh\<lparr>sh_index := fold (delete_term tv) stale (sh_index sh)\<rparr>,
                   \<lparr>rd_deleted = length stale, rd_skipped = False\<rparr>))"

definition key_count :: "'ix tantivy \<Rightarrow> 'ix shard \<Rightarrow> (string \<times> val) list \<Rightarrow> nat" where
  "key_count tv sh p = length (live_keys_with_prefix tv (sh_index sh) (encode (new_key p [])))"

definition contains_key :: "'ix tantivy \<Rightarrow> 'ix shard \<Rightarrow> composite_key \<Rightarrow> bool" where
  "contains_key tv sh k \<longleftrightarrow> live tv (sh_index sh) (encode k) \<noteq> None"

definition open_pit :: "nat \<Rightarrow> nat \<Rightarrow> 'ix shard \<Rightarrow> store_error + ('ix shard \<times> nat \<times> nat)" where
  "open_pit max_open now sh =
     (if max_open \<le> length (sh_pits sh) then Inl (TooManyPits max_open)
      else
        let i = sh_next_pit sh;
            entry = \<lparr>pit_core = sh_index sh, pit_snapshot = sh_snapshot sh, pit_last_used = now\<rparr>
        in Inr (sh\<lparr>sh_pits := bt_insert i entry (sh_pits sh), sh_next_pit := i + 1\<rparr>, i, sh_snapshot sh))"

definition close_pit :: "nat \<Rightarrow> 'ix shard \<Rightarrow> 'ix shard \<times> bool" where
  "close_pit i sh = (sh\<lparr>sh_pits := bt_remove i (sh_pits sh)\<rparr>, bt_get (sh_pits sh) i \<noteq> None)"

definition expire_pits :: "nat \<Rightarrow> nat \<Rightarrow> 'ix shard \<Rightarrow> 'ix shard \<times> nat" where
  "expire_pits ttl now sh =
     (let kept = bt_retain (\<lambda>_ e. now - pit_last_used e < ttl) (sh_pits sh) in
      (sh\<lparr>sh_pits := kept\<rparr>, length (sh_pits sh) - length kept))"

definition pit :: "nat \<Rightarrow> nat \<Rightarrow> 'ix shard \<Rightarrow> store_error + ('ix shard \<times> 'ix)" where
  "pit i now sh =
     (case bt_get (sh_pits sh) i of
        None \<Rightarrow> Inl (UnknownPit i)
      | Some e \<Rightarrow>
          Inr (sh\<lparr>sh_pits := bt_insert i (e\<lparr>pit_last_used := now\<rparr>) (sh_pits sh)\<rparr>, pit_core e))"

definition set_event_bounds :: "int option \<Rightarrow> int option \<Rightarrow> 'ix shard \<Rightarrow> 'ix shard" where
  "set_event_bounds mn mx sh =
     (case (mn, mx) of
        (Some lo, Some hi) \<Rightarrow>
          sh\<lparr>sh_event_bounds :=
               (case sh_event_bounds sh of
                  Some (l, h) \<Rightarrow> Some (min l lo, max h hi)
                | None \<Rightarrow> Some (lo, hi))\<rparr>
      | _ \<Rightarrow> sh)"


subsection \<open>A batch as a change of the live documents\<close>

text \<open>What the index finds, as a map from encoded keys, and the effect of one operation on it.\<close>

type_synonym content = "enc \<rightharpoonup> document"

fun apply_op :: "doc_op \<Rightarrow> content \<Rightarrow> content" where
  "apply_op (Upsert d) m = m(op_enc (Upsert d) \<mapsto> ld_doc d)"
| "apply_op (Delete k) m = m(op_enc (Delete k) := None)"

definition put_doc :: "enc \<times> document \<Rightarrow> content \<Rightarrow> content" where
  "put_doc u m = m(fst u \<mapsto> snd u)"

definition drop_key :: "enc \<Rightarrow> content \<Rightarrow> content" where
  "drop_key k m = m(k := None)"

definition apply_staged :: "staged_ref \<Rightarrow> content \<Rightarrow> content" where
  "apply_staged s m = fold put_doc (st_upserts s) (fold drop_key (st_deletes s) m)"

fun op_value :: "doc_op \<Rightarrow> document option" where
  "op_value (Upsert d) = Some (ld_doc d)"
| "op_value (Delete k) = None"

lemma apply_op_eq: "apply_op x m = m(op_enc x := op_value x)"
  by (cases x) auto

lemma map_of_hm_insert: "map_of (hm_insert k x m) = (map_of m)(k \<mapsto> x)"
  by (induction k x m rule: hm_insert.induct) auto

lemma distinct_hm_insert: "distinct (map fst m) \<Longrightarrow> distinct (map fst (hm_insert k x m))"
proof (induction k x m rule: hm_insert.induct)
  case (2 k x a b m)
  have "fst ` set (hm_insert k x m) \<subseteq> insert k (fst ` set m)"
    by (induction k x m rule: hm_insert.induct) auto
  with 2 show ?case by auto
qed simp

lemma effective_distinct: "distinct (map fst (effective xs))"
proof -
  have "distinct (map fst (fold (\<lambda>x m. hm_insert (op_enc x) x m) xs m))" if "distinct (map fst m)" for m
    using that by (induction xs arbitrary: m) (simp_all add: distinct_hm_insert)
  then show ?thesis by (simp add: effective_def)
qed

lemma effective_snoc: "effective (xs @ [x]) = hm_insert (op_enc x) x (effective xs)"
  by (simp add: effective_def)

lemma fold_apply_op:
  "fold apply_op xs m k = (case map_of (effective xs) k of None \<Rightarrow> m k | Some x \<Rightarrow> op_value x)"
proof (induction xs rule: rev_induct)
  case Nil
  then show ?case by (simp add: effective_def)
next
  case (snoc x xs)
  then show ?case by (simp add: effective_snoc map_of_hm_insert apply_op_eq)
qed

lemma dom_effective: "dom (map_of (effective xs)) = op_enc ` set xs"
proof (induction xs rule: rev_induct)
  case Nil
  then show ?case by (simp add: effective_def)
next
  case (snoc x xs)
  then have "dom ((map_of (effective xs))(op_enc x \<mapsto> x)) = op_enc ` set (xs @ [x])"
    by (simp only: dom_fun_upd) simp
  then show ?case by (simp only: effective_snoc map_of_hm_insert)
qed

lemma fold_upserts:
  "distinct (map fst us) \<Longrightarrow>
     fold put_doc us m k = (case map_of us k of None \<Rightarrow> m k | Some d \<Rightarrow> Some d)"
proof (induction us arbitrary: m)
  case (Cons u us)
  have "map_of us (fst u) = None" using Cons.prems by (simp add: map_of_eq_None_iff)
  with Cons show ?case by (cases u; cases "k = fst u") (simp_all add: put_doc_def)
qed simp

lemma fold_deletes: "fold drop_key ks m k = (if k \<in> set ks then None else m k)"
  by (induction ks arbitrary: m) (auto simp: drop_key_def)

lemma op_split:
  "fst ` set (op_upserts e) \<union> set (op_deletes e) = fst ` set e"
  "distinct (map fst e) \<Longrightarrow> distinct (map fst (op_upserts e))"
  "distinct (map fst e) \<Longrightarrow> map_of (op_upserts e) k =
     (case map_of e k of Some (Upsert d) \<Rightarrow> Some (ld_doc d) | _ \<Rightarrow> None)"
  "distinct (map fst e) \<Longrightarrow> k \<in> set (op_deletes e) \<longleftrightarrow> (\<exists>x. map_of e k = Some (Delete x))"
proof -
  show 1: "fst ` set (op_upserts e) \<union> set (op_deletes e) = fst ` set e" for e
    by (induction e rule: op_upserts.induct) auto
  show "distinct (map fst e) \<Longrightarrow> distinct (map fst (op_upserts e))"
    using 1 by (induction e rule: op_upserts.induct) auto
  show "distinct (map fst e) \<Longrightarrow> map_of (op_upserts e) k =
     (case map_of e k of Some (Upsert d) \<Rightarrow> Some (ld_doc d) | _ \<Rightarrow> None)"
  proof (induction e rule: op_upserts.induct)
    case (2 k' d m)
    then show ?case by simp
  next
    case (3 k' x m)
    then have "k' \<notin> fst ` set m" by simp
    then have "map_of m k' = None" by (simp add: map_of_eq_None_iff)
    with 3 show ?case by auto
  qed simp
  show "distinct (map fst e) \<Longrightarrow> k \<in> set (op_deletes e) \<longleftrightarrow> (\<exists>x. map_of e k = Some (Delete x))"
  proof (induction e rule: op_deletes.induct)
    case (2 k' d m)
    then have "k' \<notin> fst ` set m" by simp
    then have "map_of m k' = None" by (simp add: map_of_eq_None_iff)
    with 2 show ?case by auto
  next
    case (3 k' x m)
    then have "k' \<notin> fst ` set m" by simp
    then have "map_of m k' = None" by (simp add: map_of_eq_None_iff)
    with 3 show ?case by auto
  qed simp
qed

definition shuffles :: "((enc \<times> doc_op) list \<Rightarrow> (enc \<times> doc_op) list) \<Rightarrow> bool" where
  "shuffles iter \<longleftrightarrow> (\<forall>e. mset (iter e) = mset e)"

lemma shuffles_map_of:
  assumes "shuffles iter" and "distinct (map fst e)"
  shows "distinct (map fst (iter e))" and "map_of (iter e) = map_of e" and "set (iter e) = set e"
proof -
  have m: "mset (iter e) = mset e" using assms(1) by (simp add: shuffles_def)
  then show s: "set (iter e) = set e" by (metis set_mset_mset)
  have "mset (map fst (iter e)) = mset (map fst e)" using m by simp
  then show d: "distinct (map fst (iter e))" using assms(2) by (metis mset_eq_imp_distinct_iff)
  show "map_of (iter e) = map_of e" using map_of_inject_set [OF d assms(2)] s by simp
qed

text \<open>Staging a batch and applying what was staged is applying its operations in order.\<close>

lemma apply_staged_ops:
  assumes "shuffles iter" and "st_upserts s = op_upserts (iter (effective xs))"
    and "st_deletes s = op_deletes (iter (effective xs))"
  shows "apply_staged s m = fold apply_op xs m"
proof
  fix k
  note e = shuffles_map_of [OF assms(1) effective_distinct [of xs]]
  show "apply_staged s m k = fold apply_op xs m k"
    unfolding apply_staged_def fold_upserts [OF op_split(2) [OF e(1)], folded assms(2)] assms
    by (auto simp: fold_upserts [OF op_split(2) [OF e(1)]] op_split(3) [OF e(1)] fold_deletes
                   op_split(4) [OF e(1)] e(2) fold_apply_op split: option.splits doc_op.splits)
qed


subsection \<open>What the writer makes durable\<close>

lemma live_delete: "tantivy_ok tv \<Longrightarrow> live tv (delete_term tv k ix) = (live tv ix)(k := None)"
  by (simp add: tantivy_ok_def)

lemma live_put:
  assumes "tantivy_ok tv"
  shows "live tv (add_document tv k d (delete_term tv k ix)) = (live tv ix)(k \<mapsto> d)"
proof -
  have "live tv (delete_term tv k ix) k = None" using assms by (simp add: live_delete)
  then have "live tv (add_document tv k d (delete_term tv k ix)) = (live tv (delete_term tv k ix))(k \<mapsto> d)"
    using assms by (simp add: tantivy_ok_def)
  then show ?thesis using assms by (simp add: live_delete)
qed

lemma fold_write_delete:
  assumes "tantivy_ok tv"
  shows "live tv (wr_buffer (fold (write_delete tv) ks w))
           = fold drop_key ks (live tv (wr_buffer w))"
    and "wr_flushed (fold (write_delete tv) ks w) = wr_flushed w"
  by (induction ks arbitrary: w) (simp_all add: write_delete_def live_delete [OF assms] drop_key_def)

lemma write_upsert_buffer:
  assumes "tantivy_ok tv"
  shows "live tv (wr_buffer (write_upsert tv chunk u w)) = put_doc u (live tv (wr_buffer w))"
    and "wr_flushed (write_upsert tv chunk u w) = wr_flushed w \<or>
         wr_flushed (write_upsert tv chunk u w) = wr_flushed w @ [wr_buffer (write_upsert tv chunk u w)]"
  using live_put [OF assms] by (simp_all add: write_upsert_def Let_def put_doc_def)

lemma fold_write_upsert:
  assumes "tantivy_ok tv"
  shows "live tv (wr_buffer (fold (write_upsert tv chunk) us w))
           = fold put_doc us (live tv (wr_buffer w))"
    and "x \<in> set (wr_flushed (fold (write_upsert tv chunk) us w)) \<Longrightarrow>
         x \<in> set (wr_flushed w) \<or>
         (\<exists>i. live tv x = fold put_doc (take i us) (live tv (wr_buffer w)))"
proof (induction us rule: rev_induct)
  case Nil
  { case 1 show ?case by simp }
  { case 2 then show ?case by simp }
next
  case (snoc u us)
  let ?w = "fold (write_upsert tv chunk) us w"
  note b = write_upsert_buffer [OF assms, of chunk u ?w]
  { case 1 show ?case using b(1) snoc(1) by simp }
  { case 2
    from 2 have "x \<in> set (wr_flushed ?w) \<or> x = wr_buffer (write_upsert tv chunk u ?w)"
      using b(2) by auto
    then show ?case
    proof
      assume "x \<in> set (wr_flushed ?w)"
      with snoc(2) consider "x \<in> set (wr_flushed w)"
        | i where "live tv x = fold put_doc (take i us) (live tv (wr_buffer w))"
        by blast
      then show ?thesis
      proof cases
        case 2
        then have "live tv x = fold put_doc (take (min i (length us)) (us @ [u]))
                                 (live tv (wr_buffer w))"
          by (simp add: min_def)
        then show ?thesis by blast
      qed simp
    next
      assume "x = wr_buffer (write_upsert tv chunk u ?w)"
      then have "live tv x = fold put_doc (take (Suc (length us)) (us @ [u]))
                               (live tv (wr_buffer w))"
        using b(1) snoc(1) by simp
      then show ?thesis by blast
    qed
  }
qed

definition staged_ok :: "staged_ref \<Rightarrow> bool" where
  "staged_ok s \<longleftrightarrow> distinct (map fst (st_upserts s)) \<and> set (map fst (st_upserts s)) \<inter> set (st_deletes s) = {}"

lemma map_of_take_Some: "distinct (map fst us) \<Longrightarrow> map_of (take i us) k = Some d \<Longrightarrow> map_of us k = Some d"
  by (meson in_set_takeD map_of_SomeD map_of_is_SomeI)

text \<open>At every flush each key has its old document or the one the batch gives it, never a gap between.\<close>

lemma write_one_states:
  assumes "tantivy_ok tv" and "staged_ok s"
    and "x \<in> set (wr_flushed (write_all tv chunk [s] ix) @ [wr_buffer (write_all tv chunk [s] ix)])"
  shows "live tv x k = live tv ix k \<or> live tv x k = apply_staged s (live tv ix) k"
proof -
  let ?w0 = "\<lparr>wr_buffer = ix, wr_since = 0, wr_flushed = []\<rparr>"
  let ?w1 = "fold (write_delete tv) (st_deletes s) ?w0"
  have w: "write_all tv chunk [s] ix = fold (write_upsert tv chunk) (st_upserts s) ?w1"
    by (simp add: write_all_def write_staged_def)
  have m1: "live tv (wr_buffer ?w1) k = (if k \<in> set (st_deletes s) then None else live tv ix k)" for k
    using fold_write_delete(1) [OF assms(1), of "st_deletes s" ?w0] by (simp add: fold_deletes)
  have f: "wr_flushed ?w1 = []" using fold_write_delete(2) [OF assms(1), of "st_deletes s" ?w0] by simp
  have d: "distinct (map fst (st_upserts s))" and dis: "set (map fst (st_upserts s)) \<inter> set (st_deletes s) = {}"
    using assms(2) by (auto simp: staged_ok_def)
  obtain i where "live tv x = fold put_doc (take i (st_upserts s)) (live tv (wr_buffer ?w1))"
  proof -
    from assms(3) consider "x \<in> set (wr_flushed (write_all tv chunk [s] ix))"
      | "x = wr_buffer (write_all tv chunk [s] ix)" by auto
    then show thesis
    proof cases
      case 1
      with fold_write_upsert(2) [OF assms(1), of x chunk "st_upserts s" ?w1] f that show thesis
        unfolding w by auto
    next
      case 2
      have "live tv x = fold put_doc (take (length (st_upserts s)) (st_upserts s)) (live tv (wr_buffer ?w1))"
        using 2 fold_write_upsert(1) [OF assms(1), of chunk "st_upserts s" ?w1] unfolding w by simp
      then show thesis by (rule that)
    qed
  qed
  then have x: "live tv x k = (case map_of (take i (st_upserts s)) k of
      None \<Rightarrow> if k \<in> set (st_deletes s) then None else live tv ix k | Some d \<Rightarrow> Some d)"
    using fold_upserts [of "take i (st_upserts s)" "live tv (wr_buffer ?w1)" k] d
    by (simp add: take_map [symmetric] m1 split: option.split)
  have fin: "apply_staged s (live tv ix) k = (case map_of (st_upserts s) k of
      None \<Rightarrow> if k \<in> set (st_deletes s) then None else live tv ix k | Some d \<Rightarrow> Some d)"
    using d by (simp add: apply_staged_def fold_upserts fold_deletes split: option.split)
  show ?thesis
  proof (cases "map_of (take i (st_upserts s)) k")
    case (Some d')
    with map_of_take_Some [OF d Some] x fin show ?thesis by simp
  next
    case None
    show ?thesis
    proof (cases "k \<in> set (st_deletes s)")
      case True
      then have "map_of (st_upserts s) k = None" using dis by (auto simp: map_of_eq_None_iff)
      with None True x fin show ?thesis by simp
    next
      case False
      with None x show ?thesis by simp
    qed
  qed
qed

lemma write_one_buffer:
  assumes "tantivy_ok tv"
  shows "live tv (wr_buffer (write_all tv chunk [s] ix)) = apply_staged s (live tv ix)"
  by (simp add: write_all_def write_staged_def fold_write_upsert(1) [OF assms]
                fold_write_delete(1) [OF assms] apply_staged_def)


subsection \<open>A changelog and its prefixes\<close>

text \<open>A table's changelog: operations with the sequence number of the snapshot that made them, in order.
  \<open>log_upto log c\<close> is the table at sequence number \<open>c\<close>, \<open>window_ops log f e\<close> the operations of the window
  \<open>(f, e]\<close> a connector reads.\<close>

type_synonym changelog = "(int \<times> doc_op) list"

definition log_upto :: "changelog \<Rightarrow> int \<Rightarrow> content" where
  "log_upto log c = fold apply_op (map snd (filter (\<lambda>x. fst x \<le> c) log)) Map.empty"

definition window_ops :: "changelog \<Rightarrow> int \<Rightarrow> int \<Rightarrow> doc_op list" where
  "window_ops log f e = map snd (filter (\<lambda>x. f < fst x \<and> fst x \<le> e) log)"

lemma filter_upto_split:
  assumes "sorted (map fst log)" and "f \<le> (e::int)"
  shows "filter (\<lambda>x. fst x \<le> e) log = filter (\<lambda>x. fst x \<le> f) log @ filter (\<lambda>x. f < fst x \<and> fst x \<le> e) log"
  using assms(1)
proof (induction log)
  case (Cons a log)
  then show ?case
  proof (cases "fst a \<le> f")
    case False
    then have "filter (\<lambda>x. fst x \<le> f) log = []" using Cons.prems by (auto simp: filter_empty_conv)
    with False Cons assms(2) show ?thesis by auto
  qed (use assms(2) in auto)
qed simp

lemma log_upto_window:
  "sorted (map fst log) \<Longrightarrow> f \<le> e \<Longrightarrow> log_upto log e = fold apply_op (window_ops log f e) (log_upto log f)"
  by (simp add: log_upto_def window_ops_def filter_upto_split)

lemma fold_apply_unchanged: "k \<notin> op_enc ` set xs \<Longrightarrow> fold apply_op xs m k = m k"
  using dom_effective [of xs] by (auto simp: fold_apply_op domIff split: option.splits)

lemma fold_apply_changed: "k \<in> op_enc ` set xs \<Longrightarrow> fold apply_op xs m k = fold apply_op xs m' k"
  using dom_effective [of xs] by (auto simp: fold_apply_op domIff split: option.splits)

text \<open>The documents of a shard are spread between two points of the changelog.\<close>

definition between :: "changelog \<Rightarrow> int \<Rightarrow> int \<Rightarrow> content \<Rightarrow> bool" where
  "between log c h m \<longleftrightarrow> (\<forall>k. \<exists>x. c \<le> x \<and> x \<le> h \<and> m k = log_upto log x k)"

lemma between_exact: "between log c c m \<Longrightarrow> m = log_upto log c"
  unfolding between_def by (metis ext order_antisym)

lemma between_window:
  assumes "sorted (map fst log)" and "f \<le> c" and "c \<le> e" and "between log c h m"
  shows "between log e (max h e) (fold apply_op (window_ops log f e) m)"
  unfolding between_def
proof
  fix k
  let ?w = "window_ops log f e"
  show "\<exists>x. e \<le> x \<and> x \<le> max h e \<and> fold apply_op ?w m k = log_upto log x k"
  proof (cases "k \<in> op_enc ` set ?w")
    case True
    have "fold apply_op ?w m k = log_upto log e k"
      using fold_apply_changed [OF True] log_upto_window [OF assms(1), of f e] assms(2,3) by simp
    then show ?thesis by auto
  next
    case False
    from assms(4) obtain x where x: "c \<le> x" "x \<le> h" "m k = log_upto log x k" by (auto simp: between_def)
    have m: "fold apply_op ?w m k = log_upto log x k" using fold_apply_unchanged [OF False] x by simp
    show ?thesis
    proof (cases "x \<le> e")
      case True
      have "set (window_ops log x e) \<subseteq> set ?w" using x assms(2) by (auto simp: window_ops_def)
      with False have "k \<notin> op_enc ` set (window_ops log x e)" by auto
      then have "log_upto log e k = log_upto log x k"
        using log_upto_window [OF assms(1) True] fold_apply_unchanged by metis
      with m show ?thesis by (intro exI [of _ e]) simp
    next
      case False
      with m x show ?thesis by (intro exI [of _ x]) simp
    qed
  qed
qed

lemma between_partial:
  assumes "sorted (map fst log)" and "f \<le> c" and "c \<le> e" and "between log c h m"
    and "\<And>k. m' k = m k \<or> m' k = fold apply_op (window_ops log f e) m k"
  shows "between log c (max h e) m'"
  unfolding between_def
proof
  fix k
  from between_window [OF assms(1-4)] obtain y where
    y: "e \<le> y" "y \<le> max h e" "fold apply_op (window_ops log f e) m k = log_upto log y k"
    by (auto simp: between_def)
  from assms(4) obtain x where x: "c \<le> x" "x \<le> h" "m k = log_upto log x k" by (auto simp: between_def)
  from assms(5) [of k] show "\<exists>x. c \<le> x \<and> x \<le> max h e \<and> m' k = log_upto log x k"
  proof
    assume "m' k = m k"
    with x show ?thesis by (intro exI [of _ x]) simp
  next
    assume "m' k = fold apply_op (window_ops log f e) m k"
    with y assms(3) show ?thesis by (intro exI [of _ y]) simp
  qed
qed


subsection \<open>Checkpoints on one lineage\<close>

text \<open>Checkpoints of one table history: a snapshot id determines its sequence number, no two snapshots share
  one, and every one lies above the start \<open>b0\<close>.\<close>

definition lineage :: "int \<Rightarrow> (int \<Rightarrow> int) \<Rightarrow> bool" where
  "lineage b0 seq \<longleftrightarrow> inj seq \<and> (\<forall>i. b0 < seq i)"

definition on_lineage :: "(int \<Rightarrow> int) \<Rightarrow> source_checkpoint \<Rightarrow> bool" where
  "on_lineage seq c \<longleftrightarrow> sequence_number c = Some (seq (snapshot_id c))"

definition cp_pos :: "source_checkpoint \<Rightarrow> int" where
  "cp_pos c = the (sequence_number c)"

definition opt_pos :: "int \<Rightarrow> source_checkpoint option \<Rightarrow> int" where
  "opt_pos b0 c = (case c of None \<Rightarrow> b0 | Some c \<Rightarrow> cp_pos c)"

definition opt_on :: "(int \<Rightarrow> int) \<Rightarrow> source_checkpoint option \<Rightarrow> bool" where
  "opt_on seq c \<longleftrightarrow> (case c of None \<Rightarrow> True | Some c \<Rightarrow> on_lineage seq c)"

lemma opt_pos_simps [simp]: "opt_pos b0 None = b0" "opt_pos b0 (Some c) = cp_pos c"
  by (simp_all add: opt_pos_def)

lemma opt_on_simps [simp]: "opt_on seq None" "opt_on seq (Some c) = on_lineage seq c"
  by (simp_all add: opt_on_def)

lemma lineage_cmp_on:
  assumes "lineage b0 seq" and "on_lineage seq a" and "on_lineage seq b"
  shows "lineage_cmp a b = Some (cmp_of (cp_pos a) (cp_pos b))"
  using assms by (auto simp: lineage_def on_lineage_def lineage_cmp_def cp_pos_def same_position_def
                       cmp_of_def inj_eq)

lemma lineage_above: "lineage b0 seq \<Longrightarrow> on_lineage seq c \<Longrightarrow> b0 < cp_pos c"
  by (simp add: lineage_def on_lineage_def cp_pos_def)

lemma opt_pos_above: "lineage b0 seq \<Longrightarrow> opt_on seq c \<Longrightarrow> b0 \<le> opt_pos b0 c"
  by (cases c) (auto dest: lineage_above)

lemma continuity_on:
  assumes "lineage b0 seq" and "opt_on seq cur" and "opt_on seq from" and "on_lineage seq end"
  shows "continuity_of cur from end =
    (case cur of None \<Rightarrow> Apply
     | Some c \<Rightarrow>
        if cp_pos end < cp_pos c then NoOp
        else if cp_pos end = cp_pos c then (if from = None then Apply else NoOp)
        else if opt_pos b0 from \<le> cp_pos c then Apply else Gap)"
proof (cases cur)
  case (Some c)
  then have c: "lineage_cmp end c = Some (cmp_of (cp_pos end) (cp_pos c))" "b0 < cp_pos c"
    using lineage_cmp_on [OF assms(1)] lineage_above [OF assms(1)] assms by auto
  show ?thesis
  proof (cases "from")
    case None
    with c Some show ?thesis by (auto simp: continuity_of_def cmp_of_def)
  next
    case (Some f)
    then have "lineage_cmp f c = Some (cmp_of (cp_pos f) (cp_pos c))"
      using lineage_cmp_on [OF assms(1)] assms \<open>cur = Some c\<close> by auto
    with c Some \<open>cur = Some c\<close> show ?thesis by (auto simp: continuity_of_def cmp_of_def)
  qed
qed (simp add: continuity_of_def)

lemma continuity_apply:
  assumes "lineage b0 seq" and "opt_on seq cur" and "opt_on seq from" and "on_lineage seq end"
    and "continuity_of cur from end = Apply" and "cur = None \<longrightarrow> from = None"
  shows "opt_pos b0 from \<le> opt_pos b0 cur" and "opt_pos b0 cur \<le> cp_pos end"
  using assms continuity_on [OF assms(1-4)] lineage_above [OF assms(1)]
  by (auto split: option.splits if_splits simp: less_imp_le)

lemma continuity_noop_later:
  assumes "lineage b0 seq" and "opt_on seq cur" and "opt_on seq cur'" and "opt_on seq from"
    and "on_lineage seq end" and "continuity_of cur from end = NoOp" and "opt_pos b0 cur \<le> opt_pos b0 cur'"
  shows "continuity_of cur' from end = NoOp"
  using assms continuity_on [OF assms(1,2,4,5)] continuity_on [OF assms(1,3,4,5)] lineage_above [OF assms(1)]
  by (fastforce split: option.splits if_splits)

subsection \<open>Runs of a shard\<close>

text \<open>A batch that is a window of the changelog, from its start checkpoint (or from the beginning) to its end.\<close>

definition window_batch :: "int \<Rightarrow> (int \<Rightarrow> int) \<Rightarrow> changelog \<Rightarrow> commit_batch \<Rightarrow> bool" where
  "window_batch b0 seq log b \<longleftrightarrow>
     on_lineage seq (checkpoint b) \<and> opt_on seq (from_checkpoint b) \<and>
     ops b = window_ops log (opt_pos b0 (from_checkpoint b)) (cp_pos (checkpoint b))"

text \<open>What can happen to a shard that is fed such windows: any window, in any order, is staged against the
  shard of now or of an earlier moment (\<open>sh0\<close>) and committed; the shard is left in any of the durable states
  of that commit, its last one (success) or an earlier one (a crash). The second component is the highest
  end that was ever attempted. A shard with no checkpoint yet is only sent windows that start at the
  beginning, as the connector does: it reads from the checkpoint the shard reports.\<close>

inductive store_run ::
    "int \<Rightarrow> (int \<Rightarrow> int) \<Rightarrow> changelog \<Rightarrow> 'ix tantivy \<Rightarrow> nat \<Rightarrow> 'ix shard \<Rightarrow> int \<Rightarrow> bool"
  for b0 seq log tv chunk where
  start: "live tv (sh_index sh) = Map.empty \<Longrightarrow> sh_checkpoint sh = None
            \<Longrightarrow> store_run b0 seq log tv chunk sh b0"
| attempt: "store_run b0 seq log tv chunk sh h \<Longrightarrow> window_batch b0 seq log b \<Longrightarrow> shuffles iter
            \<Longrightarrow> opt_on seq (sh_checkpoint (sh0 :: 'ix shard))
            \<Longrightarrow> opt_pos b0 (sh_checkpoint sh0) \<le> opt_pos b0 (sh_checkpoint sh)
            \<Longrightarrow> sh_checkpoint sh = None \<longrightarrow> from_checkpoint b = None
            \<Longrightarrow> stage_batch iter sh0 b = Inr s
            \<Longrightarrow> commit_states tv chunk sh [s] = Inr states \<Longrightarrow> sh' \<in> set states
            \<Longrightarrow> store_run b0 seq log tv chunk sh' (max h (cp_pos (checkpoint b)))"

inductive_cases store_runE: "store_run b0 seq log tv chunk sh h"

lemma record_prune_keeps [simp]:
  "sh_index (record_and_prune_batches ss n sh) = sh_index sh"
  "sh_checkpoint (record_and_prune_batches ss n sh) = sh_checkpoint sh"
  "sh_snapshot (record_and_prune_batches ss n sh) = sh_snapshot sh"
  "sh_pits (record_and_prune_batches ss n sh) = sh_pits sh"
  "sh_read_only (record_and_prune_batches ss n sh) = sh_read_only sh"
proof -
  have "sh_index (fold (record_batch n) ss sh) = sh_index sh \<and>
        sh_checkpoint (fold (record_batch n) ss sh) = sh_checkpoint sh \<and>
        sh_snapshot (fold (record_batch n) ss sh) = sh_snapshot sh \<and>
        sh_pits (fold (record_batch n) ss sh) = sh_pits sh \<and>
        sh_read_only (fold (record_batch n) ss sh) = sh_read_only sh"
    by (induction ss arbitrary: sh) (simp_all add: record_batch_def)
  then show "sh_index (record_and_prune_batches ss n sh) = sh_index sh"
    "sh_checkpoint (record_and_prune_batches ss n sh) = sh_checkpoint sh"
    "sh_snapshot (record_and_prune_batches ss n sh) = sh_snapshot sh"
    "sh_pits (record_and_prune_batches ss n sh) = sh_pits sh"
    "sh_read_only (record_and_prune_batches ss n sh) = sh_read_only sh"
    by (simp_all add: record_and_prune_batches_def prune_batches_at_or_below_def Let_def split: option.split)
qed

lemma redb_commit_keeps [simp]:
  "sh_index (redb_commit ss n sh) = sh_index sh"
  "sh_checkpoint (redb_commit ss n sh) = Some (st_checkpoint (last ss))"
  "sh_snapshot (redb_commit ss n sh) = n"
  "sh_pits (redb_commit ss n sh) = sh_pits sh"
  "sh_read_only (redb_commit ss n sh) = sh_read_only sh"
  by (simp_all add: redb_commit_def)


subsection \<open>One commit\<close>

lemma apply_staged_empty: "\<not> has_content s \<Longrightarrow> apply_staged s m = m"
  by (simp add: has_content_def apply_staged_def)

text \<open>The durable states of the commit of one staged batch: nothing, when the batch is already applied or
  behind; else index states that mix old and new documents under the old checkpoint, and the final state.\<close>

lemma commit_one_cases:
  assumes "tantivy_ok tv" and "staged_ok s" and "commit_states tv chunk sh [s] = Inr states"
    and "sh' \<in> set states"
  obtains (skip) "sh' = sh" "states = [sh]"
      "st_already_applied s \<or> continuity_of (sh_checkpoint sh) (st_from s) (st_checkpoint s) = NoOp"
    | (partial) "\<not> st_already_applied s"
      "continuity_of (sh_checkpoint sh) (st_from s) (st_checkpoint s) = Apply"
      "sh_checkpoint sh' = sh_checkpoint sh" "sh_batches sh' = sh_batches sh"
      "\<And>k. live tv (sh_index sh') k = live tv (sh_index sh) k \<or>
            live tv (sh_index sh') k = apply_staged s (live tv (sh_index sh)) k"
    | (final) "\<not> st_already_applied s"
      "continuity_of (sh_checkpoint sh) (st_from s) (st_checkpoint s) = Apply" "sh' = last states"
      "sh_checkpoint sh' = Some (st_checkpoint s)"
      "live tv (sh_index sh') = apply_staged s (live tv (sh_index sh))"
proof -
  have ro: "\<not> sh_read_only sh" using assms(3) by (auto simp: commit_states_def split: if_splits)
  let ?c = "continuity_of (sh_checkpoint sh) (st_from s) (st_checkpoint s)"
  consider "st_already_applied s \<or> ?c = NoOp" | "\<not> st_already_applied s" "?c = Gap"
    | "\<not> st_already_applied s" "?c = Apply" by (cases ?c) auto
  then show thesis
  proof cases
    case 1
    then have "decide (sh_checkpoint sh) [s] = Inr []" by auto
    with assms(3,4) ro have "states = [sh]" "sh' = sh" by (auto simp: commit_states_def)
    with 1 skip show thesis by blast
  next
    case 2
    with assms(3) ro show thesis by (simp add: commit_states_def)
  next
    case 3
    then have d: "decide (sh_checkpoint sh) [s] = Inr [s]" by simp
    show thesis
    proof (cases "has_content s")
      case False
      with d assms(3,4) ro have "states = [sh']" "sh' = redb_commit [s] (sh_snapshot sh) sh"
        by (auto simp: commit_states_def)
      with final [OF 3] show thesis by (simp add: apply_staged_empty [OF False])
    next
      case True
      let ?w = "write_all tv chunk [s] (sh_index sh)"
      let ?fl = "map (\<lambda>ix. sh\<lparr>sh_index := ix\<rparr>) (wr_flushed ?w @ [wr_buffer ?w])"
      have st: "states = ?fl @ [redb_commit [s] (sh_snapshot sh + 1) (sh\<lparr>sh_index := wr_buffer ?w\<rparr>)]"
        using True d assms(3) ro by (simp add: commit_states_def Let_def)
      then consider x where "x \<in> set (wr_flushed ?w @ [wr_buffer ?w])" "sh' = sh\<lparr>sh_index := x\<rparr>"
        | "sh' = redb_commit [s] (sh_snapshot sh + 1) (sh\<lparr>sh_index := wr_buffer ?w\<rparr>)"
        using assms(4) by auto
      then show thesis
      proof cases
        case (1 x)
        show thesis
          using partial [OF 3] write_one_states [OF assms(1,2) 1(1)] 1(2) by simp
      next
        case 2
        with final [OF 3] st write_one_buffer [OF assms(1)] show thesis by simp
      qed
    qed
  qed
qed

lemma stage_batch_Inr:
  assumes "stage_batch iter sh b = Inr s"
  shows "st_checkpoint s = checkpoint b" and "st_from s = from_checkpoint b" and "st_batch_id s = batch_id b"
    and "st_safe s = safe_checkpoint b"
    and "st_already_applied s \<longleftrightarrow> batch_snapshot sh (batch_id b) \<noteq> None"
    and "\<not> st_already_applied s \<Longrightarrow>
           continuity_of (sh_checkpoint sh) (from_checkpoint b) (checkpoint b) \<noteq> Gap"
    and "\<not> st_already_applied s \<Longrightarrow>
           continuity_of (sh_checkpoint sh) (from_checkpoint b) (checkpoint b) \<noteq> NoOp \<Longrightarrow>
           st_upserts s = op_upserts (iter (effective (ops b))) \<and>
           st_deletes s = op_deletes (iter (effective (ops b)))"
  using assms by (auto simp: stage_batch_def Let_def split: if_splits)

lemma stage_batch_ok:
  assumes "shuffles iter" and "stage_batch iter sh b = Inr s"
  shows "staged_ok s"
proof -
  have *: "staged_ok s" if e: "st_upserts s = op_upserts e" "st_deletes s = op_deletes e" "distinct (map fst e)" for e
  proof -
    have "k \<notin> set (op_deletes e)" if "k \<in> set (map fst (op_upserts e))" for k
    proof -
      have "map_of (op_upserts e) k \<noteq> None" using that by (simp only: map_of_eq_None_iff set_map) simp
      then obtain d where "map_of e k = Some (Upsert d)"
        unfolding op_split(3) [OF e(3)] by (auto split: option.splits doc_op.splits)
      then show ?thesis by (simp add: op_split(4) [OF e(3)])
    qed
    then show ?thesis using e op_split(2) [of e] by (auto simp: staged_ok_def)
  qed
  show ?thesis
    using assms(2) * [of "[]"] * [of "iter (effective (ops b))"]
      shuffles_map_of(1) [OF assms(1) effective_distinct]
    by (auto simp: stage_batch_def Let_def split: if_splits)
qed

lemma store_run_between:
  assumes "store_run b0 seq log tv chunk sh h" and "tantivy_ok tv" and "lineage b0 seq"
    and "sorted (map fst log)" and "\<forall>x. x \<in> set log \<longrightarrow> b0 < fst x"
  shows "opt_on seq (sh_checkpoint sh) \<and> opt_pos b0 (sh_checkpoint sh) \<le> h \<and>
         between log (opt_pos b0 (sh_checkpoint sh)) h (live tv (sh_index sh))"
  using assms(1)
proof induction
  case (start sh)
  have "filter (\<lambda>x. fst x \<le> b0) log = []" using assms(5) by (auto simp: filter_empty_conv)
  then have "log_upto log b0 = Map.empty" by (simp add: log_upto_def)
  with start show ?case by (auto simp: between_def)
next
  case (attempt sh h b iter sh0 s states sh')
  note s = stage_batch_Inr [OF attempt.hyps(7)]
  let ?c = "opt_pos b0 (sh_checkpoint sh)" and ?f = "opt_pos b0 (from_checkpoint b)" and ?e = "cp_pos (checkpoint b)"
  have w: "on_lineage seq (checkpoint b)" "opt_on seq (from_checkpoint b)" "ops b = window_ops log ?f ?e"
    using attempt.hyps(2) by (auto simp: window_batch_def)
  have ih: "opt_on seq (sh_checkpoint sh)" "?c \<le> h" "between log ?c h (live tv (sh_index sh))"
    using attempt.IH by auto
  have skipped: "between log c (max h y) m" if "between log c h m" for c y m
    using that by (fastforce simp: between_def)
  have applied: "apply_staged s m = fold apply_op (window_ops log ?f ?e) m \<and> ?f \<le> ?c \<and> ?c \<le> ?e"
    if a: "\<not> st_already_applied s" "continuity_of (sh_checkpoint sh) (st_from s) (st_checkpoint s) = Apply" for m
  proof -
    have "continuity_of (sh_checkpoint sh0) (from_checkpoint b) (checkpoint b) \<noteq> NoOp"
      using continuity_noop_later [OF assms(3) attempt.hyps(4) ih(1) w(2,1) _ attempt.hyps(5)] a s by auto
    then have "apply_staged s m = fold apply_op (ops b) m"
      using apply_staged_ops [OF attempt.hyps(3)] s(7) [OF a(1)] by blast
    moreover have "?f \<le> ?c \<and> ?c \<le> ?e"
      using continuity_apply [OF assms(3) ih(1) w(2,1)] a attempt.hyps(6) s by auto
    ultimately show ?thesis using w(3) by simp
  qed
  from assms(2) stage_batch_ok [OF attempt.hyps(3,7)] attempt.hyps(8,9) show ?case
  proof (cases rule: commit_one_cases)
    case skip
    with ih skipped show ?thesis by auto
  next
    case partial
    with applied have "between log ?c (max h ?e) (live tv (sh_index sh'))"
      using between_partial [OF assms(4) _ _ ih(3), of ?f ?e] by metis
    with partial ih show ?thesis by auto
  next
    case final
    with applied have "between log ?e (max h ?e) (live tv (sh_index sh'))"
      using between_window [OF assms(4) _ _ ih(3), of ?f ?e] by metis
    with final w(1) s show ?thesis by auto
  qed
qed


subsection \<open>Replays and group commits\<close>

lemma apply_staged_at:
  assumes "staged_ok s"
  shows "apply_staged s m k =
    (if k \<in> fst ` set (st_upserts s) \<union> set (st_deletes s) then apply_staged s Map.empty k else m k)"
proof -
  have d: "distinct (map fst (st_upserts s))" using assms by (simp add: staged_ok_def)
  have "map_of (st_upserts s) k = None \<longleftrightarrow> k \<notin> fst ` set (st_upserts s)" by (simp add: map_of_eq_None_iff)
  then show ?thesis
    by (auto simp: apply_staged_def fold_upserts [OF d] fold_deletes split: option.splits)
qed

lemma apply_staged_again:
  assumes "staged_ok s" and "\<And>k. m' k = m k \<or> m' k = apply_staged s m k"
  shows "apply_staged s m' = apply_staged s m"
proof
  fix k
  show "apply_staged s m' k = apply_staged s m k"
    using assms(2) [of k] apply_staged_at [OF assms(1), of m k] apply_staged_at [OF assms(1), of m' k]
    by (metis (full_types))
qed

lemma stage_batch_cong:
  assumes "sh_checkpoint sh' = sh_checkpoint sh" and "sh_batches sh' = sh_batches sh"
  shows "stage_batch iter sh' b = stage_batch iter sh b"
  by (simp add: stage_batch_def batch_snapshot_def assms Let_def)

lemma commit_states_read_only: "commit_states tv chunk sh ss = Inr states \<Longrightarrow> \<not> sh_read_only sh"
  by (auto simp: commit_states_def split: if_splits)

lemma commit_one_total:
  assumes "\<not> sh_read_only sh" and "stage_batch iter sh b = Inr s"
  shows "\<exists>states. commit_states tv chunk sh [s] = Inr states"
proof -
  have "\<exists>a. decide (sh_checkpoint sh) [s] = Inr a"
    using stage_batch_Inr(1,2,6) [OF assms(2)]
    by (cases "continuity_of (sh_checkpoint sh) (from_checkpoint b) (checkpoint b)") auto
  with assms(1) show ?thesis by (auto simp: commit_states_def Let_def)
qed

lemma commit_states_nonempty: "commit_states tv chunk sh ss = Inr states \<Longrightarrow> states \<noteq> []"
  by (cases "decide (sh_checkpoint sh) ss") (auto simp: commit_states_def Let_def split: if_splits)

lemma commit_states_frame:
  assumes "commit_states tv chunk sh ss = Inr states" and "sh' \<in> set states"
  shows "sh_pits sh' = sh_pits sh" and "sh_read_only sh' = sh_read_only sh"
  using assms
  by (cases "decide (sh_checkpoint sh) ss"; fastforce simp: commit_states_def Let_def split: if_splits)+

lemma last_commit_state:
  assumes "tantivy_ok tv" and "staged_ok s" and "commit_states tv chunk sh [s] = Inr states"
    and "\<not> st_already_applied s"
    and "continuity_of (sh_checkpoint sh) (st_from s) (st_checkpoint s) = Apply"
  shows "sh_checkpoint (last states) = Some (st_checkpoint s) \<and>
         live tv (sh_index (last states)) = apply_staged s (live tv (sh_index sh))"
  using assms(3-5) write_one_buffer [OF assms(1), of chunk s "sh_index sh"]
  by (cases "has_content s")
     (auto simp: commit_states_def Let_def apply_staged_empty split: if_splits)

text \<open>Where a group commit ends: at the shard's checkpoint or at one of the batches, never behind.\<close>

lemma decide_advances:
  assumes "lineage b0 seq"
  shows "decide p ss = Inr applied \<Longrightarrow> opt_on seq p \<Longrightarrow>
    \<forall>s \<in> set ss. on_lineage seq (st_checkpoint s) \<and> opt_on seq (st_from s) \<Longrightarrow>
    applied = [] \<or> opt_pos b0 p \<le> cp_pos (st_checkpoint (last applied))"
proof (induction p ss arbitrary: applied rule: decide.induct)
  case (2 p s ss)
  have on: "on_lineage seq (st_checkpoint s)" "opt_on seq (st_from s)" using 2 by auto
  from 2(4) consider
      (skip) "decide p ss = Inr applied" "st_already_applied s \<or> continuity_of p (st_from s) (st_checkpoint s) = NoOp"
    | (go) rest where "\<not> st_already_applied s" "continuity_of p (st_from s) (st_checkpoint s) = Apply"
      "decide (Some (st_checkpoint s)) ss = Inr rest" "applied = s # rest"
    by (auto simp: res_bind_Inr_iff split: if_splits continuity.splits)
  then show ?case
  proof cases
    case skip
    with 2 show ?thesis by auto
  next
    case go
    have "opt_pos b0 p \<le> cp_pos (st_checkpoint s)"
      using go(2) continuity_on [OF assms 2(5) on(2,1)] lineage_above [OF assms on(1)]
      by (auto split: option.splits if_splits)
    moreover have "rest = [] \<or> cp_pos (st_checkpoint s) \<le> cp_pos (st_checkpoint (last rest))"
      using 2(2) [OF go(1,2,3)] on 2(6) by auto
    ultimately show ?thesis using go(4) by auto
  qed
qed simp


subsection \<open>A concrete index\<close>

text \<open>An index that keeps its documents in a list satisfies the documented behaviour.\<close>

definition list_index :: "(enc \<times> document) list tantivy" where
  "list_index =
     \<lparr>delete_term = (\<lambda>k ix. filter (\<lambda>p. fst p \<noteq> k) ix), add_document = (\<lambda>k d ix. (k, d) # ix),
      live = map_of, live_keys = (\<lambda>ix. remdups (map fst ix))\<rparr>"

lemma list_index_ok: "tantivy_ok list_index"
proof -
  have "map_of (filter (\<lambda>p. fst p \<noteq> k) ix) = (map_of ix)(k := None)" for k and ix :: "(enc \<times> document) list"
    by (induction ix) auto
  moreover have "fst ` set ix = dom (map_of ix)" for ix :: "(enc \<times> document) list"
    by (simp add: dom_map_of_conv_image_fst)
  ultimately show ?thesis by (simp add: tantivy_ok_def list_index_def)
qed

definition empty_shard :: "(enc \<times> document) list shard" where
  "empty_shard = \<lparr>sh_index = [], sh_read_only = False, sh_checkpoint = None, sh_snapshot = 0,
     sh_batches = [], sh_batch_ckpt = [], sh_event_bounds = None, sh_pits = [], sh_next_pit = 0\<rparr>"

subsection \<open>Properties\<close>


definition demo_key :: composite_key where
  "demo_key = new_key [] [(''id'', VInt 1)]"

definition demo_doc :: "val \<Rightarrow> located_doc" where
  "demo_doc v = \<lparr>ld_doc = new_document demo_key [(''f'', v)]\<rparr>"

definition demo_log :: changelog where
  "demo_log = [(1, Upsert (demo_doc (VInt 5))), (2, Delete demo_key), (2, Upsert (demo_doc (VInt 6)))]"

text \<open>An injective numbering of the snapshot ids by positive sequence numbers.\<close>

definition demo_seq :: "int \<Rightarrow> int" where
  "demo_seq i = (if 0 \<le> i then 2 * i + 1 else - 2 * i)"

lemma demo_lineage: "lineage 0 demo_seq"
proof -
  have "inj demo_seq" by (rule injI) (auto simp: demo_seq_def split: if_splits, presburger+)
  then show ?thesis by (auto simp: lineage_def demo_seq_def)
qed

definition demo_batch :: commit_batch where
  "demo_batch = new_commit_batch (window_ops demo_log 0 2) (iceberg_ordered (- 1) 2) ''b1''"

definition demo_staged :: staged_ref where
  "demo_staged = projr (stage_batch id empty_shard demo_batch)"

definition demo_states :: "(enc \<times> document) list shard list" where
  "demo_states = projr (commit_states list_index 1 empty_shard [demo_staged])"

lemma demo_stage: "stage_batch id empty_shard demo_batch = Inr demo_staged"
  by (simp add: demo_staged_def stage_batch_def empty_shard_def batch_snapshot_def continuity_of_def Let_def)

lemma demo_commit: "commit_states list_index 1 empty_shard [demo_staged] = Inr demo_states"
  using commit_one_total [OF _ demo_stage, of list_index 1] by (auto simp: demo_states_def empty_shard_def)

lemma demo_last: "sh_checkpoint (last demo_states) = Some (iceberg_ordered (- 1) 2)"
proof -
  have "shuffles id" by (simp add: shuffles_def)
  from stage_batch_ok [OF this demo_stage] have "staged_ok demo_staged" .
  from last_commit_state [OF list_index_ok this demo_commit] stage_batch_Inr(1,2,5) [OF demo_stage]
  show ?thesis
    by (simp add: empty_shard_def batch_snapshot_def continuity_of_def demo_batch_def new_commit_batch_def)
qed

lemma demo_window: "window_batch 0 demo_seq demo_log demo_batch"
  by (simp add: window_batch_def demo_batch_def new_commit_batch_def on_lineage_def iceberg_ordered_def
                demo_seq_def cp_pos_def)

lemma demo_run: "store_run 0 demo_seq demo_log list_index 1 (last demo_states) 2"
proof -
  have e: "store_run 0 demo_seq demo_log list_index 1 empty_shard 0"
    by (rule store_run.start) (simp_all add: empty_shard_def list_index_def)
  have "store_run 0 demo_seq demo_log list_index 1 (last demo_states) (max 0 (cp_pos (checkpoint demo_batch)))"
  proof (rule store_run.attempt [OF e demo_window])
    show "stage_batch id empty_shard demo_batch = Inr demo_staged" by (rule demo_stage)
    show "commit_states list_index 1 empty_shard [demo_staged] = Inr demo_states" by (rule demo_commit)
    show "shuffles id" by (simp add: shuffles_def)
    show "last demo_states \<in> set demo_states" using commit_states_nonempty [OF demo_commit] by simp
  qed (simp_all add: empty_shard_def demo_batch_def new_commit_batch_def)
  then show ?thesis by (simp add: demo_batch_def new_commit_batch_def cp_pos_def iceberg_ordered_def)
qed



text \<open>C18. The checkpoint of a shard never moves backwards: whatever group of staged batches a commit is
  given, every durable state it goes through has the old checkpoint or one at or after it in the order of
  sequence numbers.\<close>

theorem checkpoint_never_regresses:
  assumes "lineage b0 seq" and "opt_on seq (sh_checkpoint sh)"
    and "\<forall>s \<in> set ss. on_lineage seq (st_checkpoint s) \<and> opt_on seq (st_from s)"
    and "commit_states tv chunk sh ss = Inr states" and "sh' \<in> set states"
  shows "opt_pos b0 (sh_checkpoint sh) \<le> opt_pos b0 (sh_checkpoint sh')"
proof -
  obtain applied where d: "decide (sh_checkpoint sh) ss = Inr applied"
    using assms(4) by (auto simp: commit_states_def res_bind_Inr_iff split: if_splits)
  note adv = decide_advances [OF assms(1) d assms(2,3)]
  from d assms(4,5) have "sh_checkpoint sh' = sh_checkpoint sh \<or>
      (applied \<noteq> [] \<and> sh_checkpoint sh' = Some (st_checkpoint (last applied)))"
    by (cases "filter has_content applied = []") (auto simp: commit_states_def Let_def split: if_splits)
  with adv show ?thesis by auto
qed

theorem checkpoint_never_regresses_witness:
  "opt_pos 0 (sh_checkpoint (last demo_states)) = 2 \<and>
   opt_pos 0 (sh_checkpoint empty_shard) \<le> opt_pos 0 (sh_checkpoint (last demo_states))"
proof -
  have on: "on_lineage demo_seq (st_checkpoint demo_staged) \<and> opt_on demo_seq (st_from demo_staged)"
    using demo_window stage_batch_Inr(1,2) [OF demo_stage] by (simp add: window_batch_def)
  have "last demo_states \<in> set demo_states" using commit_states_nonempty [OF demo_commit] by simp
  with on demo_last show ?thesis
    using checkpoint_never_regresses [OF demo_lineage _ _ demo_commit]
    by (simp add: empty_shard_def cp_pos_def iceberg_ordered_def)
qed

text \<open>A second write of a batch on a state its first commit went through.\<close>

lemma staged_noop_or_already:
  assumes "commit_states tv chunk sh [s] = Inr states"
    and "st_already_applied s \<or> continuity_of (sh_checkpoint sh) (st_from s) (st_checkpoint s) = NoOp"
  shows "states = [sh]"
proof -
  have "decide (sh_checkpoint sh) [s] = Inr []" using assms(2) by auto
  with assms(1) show ?thesis by (auto simp: commit_states_def split: if_splits)
qed

lemma resend_committed:
  assumes "tantivy_ok tv" and "shuffles iter" and "stage_batch iter sh0 b = Inr s" and "\<not> st_already_applied s"
    and "continuity_of (sh_checkpoint sh0) (from_checkpoint b) (checkpoint b) \<noteq> NoOp"
    and "sh_checkpoint sh = Some (checkpoint b)" and "live tv (sh_index sh) = apply_staged s m"
    and "stage_batch iter sh b = Inr s'" and "commit_states tv chunk sh [s'] = Inr states"
  shows "sh_checkpoint (last states) = sh_checkpoint sh \<and>
         live tv (sh_index (last states)) = live tv (sh_index sh)"
proof -
  note s = stage_batch_Inr [OF assms(3)] and s' = stage_batch_Inr [OF assms(8)]
  show ?thesis
  proof (cases "st_already_applied s' \<or> continuity_of (sh_checkpoint sh) (st_from s') (st_checkpoint s') = NoOp")
    case True
    then show ?thesis using staged_noop_or_already [OF assms(9)] by simp
  next
    case False
    then have a: "continuity_of (sh_checkpoint sh) (st_from s') (st_checkpoint s') = Apply"
      using s'(1,2,6) by (cases "continuity_of (sh_checkpoint sh) (st_from s') (st_checkpoint s')") auto
    have "st_upserts s' = st_upserts s \<and> st_deletes s' = st_deletes s"
      using s(7) [OF assms(4,5)] s'(1,2,7) False by simp
    then have "apply_staged s' = apply_staged s" by (intro ext) (simp add: apply_staged_def)
    moreover have "staged_ok s" using stage_batch_ok [OF assms(2,3)] .
    ultimately have "apply_staged s' (live tv (sh_index sh)) = live tv (sh_index sh)"
      using apply_staged_again [of s "apply_staged s m" m] assms(7) by simp
    then show ?thesis
      using last_commit_state [OF assms(1) stage_batch_ok [OF assms(2,8)] assms(9) _ a] False s'(1) assms(6)
      by simp
  qed
qed

lemma resend_stages:
  assumes "stage_batch iter sh b = Inr s" and "sh_checkpoint sh' = Some (checkpoint b) \<or>
    (sh_checkpoint sh' = sh_checkpoint sh \<and> sh_batches sh' = sh_batches sh)"
  shows "\<exists>s'. stage_batch iter sh' b = Inr s'"
  using assms(2)
proof
  assume "sh_checkpoint sh' = Some (checkpoint b)"
  then have "continuity_of (sh_checkpoint sh') (from_checkpoint b) (checkpoint b) \<noteq> Gap"
    by (simp add: continuity_of_def split: option.split)
  then show ?thesis by (simp add: stage_batch_def Let_def)
qed (use assms(1) stage_batch_cong [of sh' sh iter b] in auto)

lemma write_batch_eq:
  "stage_batch iter sh b = Inr s \<Longrightarrow> commit_states tv chunk sh [s] = Inr states \<Longrightarrow>
     write_batch iter tv chunk sh b = Inr (last states, sh_snapshot (last states))"
  by (simp add: write_batch_def commit_staged_def)

lemma commit_after_states:
  assumes "tantivy_ok tv" and "shuffles iter" and "stage_batch iter sh b = Inr s"
    and "commit_states tv chunk sh [s] = Inr states" and "sh' \<in> set states"
    and "stage_batch iter sh' b = Inr s'" and "commit_states tv chunk sh' [s'] = Inr states'"
  shows "sh_checkpoint (last states') = sh_checkpoint (last states) \<and>
         live tv (sh_index (last states')) = live tv (sh_index (last states))"
proof -
  note ok = stage_batch_ok [OF assms(2,3)] and s = stage_batch_Inr [OF assms(3)]
  from assms(1) ok assms(4,5) show ?thesis
  proof (cases rule: commit_one_cases)
    case skip
    then show ?thesis using assms by simp
  next
    case partial
    then have "s' = s" using stage_batch_cong [of sh' sh iter b] assms(3,6) by simp
    then have "live tv (sh_index (last states')) = apply_staged s (live tv (sh_index sh'))"
        "sh_checkpoint (last states') = Some (st_checkpoint s)"
      using last_commit_state [OF assms(1) ok, of chunk sh' states'] assms(7) partial by simp_all
    then show ?thesis
      using last_commit_state [OF assms(1) ok assms(4) partial(1,2)] apply_staged_again [OF ok partial(5)] by simp
  next
    case final
    then show ?thesis
      using resend_committed [OF assms(1,2,3) final(1) _ _ final(5) assms(6,7)] s(1,2) by simp
  qed
qed

text \<open>C3. A crash inside a commit is repaired by sending the batch again. Whatever durable state the commit of
  a batch left behind, from untouched, through any chunk of the index, to fully committed, the next write of
  the same batch succeeds and ends with the documents and the checkpoint of the uninterrupted commit.\<close>

theorem crash_repaired_by_resend:
  assumes "tantivy_ok tv" and "shuffles iter" and "stage_batch iter sh b = Inr s"
    and "commit_states tv chunk sh [s] = Inr states" and "sh' \<in> set states"
  shows "\<exists>sh'' n. write_batch iter tv chunk sh' b = Inr (sh'', n) \<and>
           sh_checkpoint sh'' = sh_checkpoint (last states) \<and>
           live tv (sh_index sh'') = live tv (sh_index (last states))"
proof -
  have "sh_checkpoint sh' = Some (checkpoint b) \<or>
        (sh_checkpoint sh' = sh_checkpoint sh \<and> sh_batches sh' = sh_batches sh)"
    using assms(1) stage_batch_ok [OF assms(2,3)] assms(4,5) stage_batch_Inr(1) [OF assms(3)]
    by (cases rule: commit_one_cases) auto
  then obtain s' where s': "stage_batch iter sh' b = Inr s'" using resend_stages [OF assms(3)] by blast
  moreover have "\<not> sh_read_only sh'"
    using commit_states_frame(2) [OF assms(4,5)] commit_states_read_only [OF assms(4)] by simp
  ultimately obtain states' where c: "commit_states tv chunk sh' [s'] = Inr states'"
    using commit_one_total by blast
  show ?thesis using write_batch_eq [OF s' c] commit_after_states [OF assms s' c] by blast
qed

theorem crash_repaired_by_resend_witness:
  "\<exists>sh'' n. write_batch id list_index 1 (hd demo_states) demo_batch = Inr (sh'', n) \<and>
     sh_checkpoint sh'' = Some (iceberg_ordered (- 1) 2) \<and>
     live list_index (sh_index sh'') = live list_index (sh_index (last demo_states))"
proof -
  have "shuffles id" by (simp add: shuffles_def)
  moreover have "hd demo_states \<in> set demo_states" using commit_states_nonempty [OF demo_commit] by simp
  ultimately show ?thesis
    using crash_repaired_by_resend [OF list_index_ok _ demo_stage demo_commit] demo_last by simp
qed


subsection \<open>Reconciliation and point-in-time handles\<close>

lemma fold_delete_term:
  assumes "tantivy_ok tv"
  shows "live tv (fold (delete_term tv) ks ix) k = (if k \<in> set ks then None else live tv ix k)"
  by (induction ks arbitrary: ix) (auto simp: live_delete [OF assms])

lemma take_prefix_iff: "take (length p) k = p \<longleftrightarrow> (\<exists>rest. k = p @ rest)"
  by (metis append_eq_conv_conj append_take_drop_id)

lemma mem_live_keys_with_prefix:
  assumes "tantivy_ok tv"
  shows "k \<in> set (live_keys_with_prefix tv ix p) \<longleftrightarrow> live tv ix k \<noteq> None \<and> (\<exists>rest. k = p @ rest)"
  using assms by (auto simp: live_keys_with_prefix_def take_prefix_iff tantivy_ok_def domIff)

lemma encode_inj: "wf_key k \<Longrightarrow> wf_key k' \<Longrightarrow> encode k = encode k' \<longleftrightarrow> k = k'"
  using decode_encode by (metis sum.inject(2))

lemma reconcile_ran:
  assumes "tantivy_ok tv" and "list_all wf_field p" and "list_all wf_key live_ks" and "wf_key k"
    and "reconcile_partition tv sh sh p live_ks expected = Inr (sh', r)" and "\<not> rd_skipped r"
  shows "(contains_key tv sh' k \<longleftrightarrow>
            contains_key tv sh k \<and> ((\<exists>q. key_partition k = p @ q) \<longrightarrow> k \<in> set live_ks)) \<and>
         length (live_keys tv (sh_index sh)) = rd_deleted r + length (live_keys tv (sh_index sh'))"
proof -
  define stale where "stale = filter (\<lambda>x. x \<notin> set (map encode live_ks))
    (live_keys_with_prefix tv (sh_index sh) (encode (new_key p [])))"
  have r: "sh_index sh' = fold (delete_term tv) stale (sh_index sh) \<and> rd_deleted r = length stale"
    using assms(5,6) unfolding reconcile_partition_def Let_def stale_def [symmetric]
    by (auto split: if_splits)
  have keys: "distinct (live_keys tv ix) \<and> set (live_keys tv ix) = dom (live tv ix)" for ix
    using assms(1) by (simp add: tantivy_ok_def)
  have sub: "distinct stale" "set stale \<subseteq> dom (live tv (sh_index sh))"
    using keys mem_live_keys_with_prefix [OF assms(1)]
    by (auto simp: stale_def live_keys_with_prefix_def)
  have dom: "dom (live tv (sh_index sh')) = dom (live tv (sh_index sh)) - set stale"
    using r by (auto simp: fold_delete_term [OF assms(1)] domIff split: if_splits)
  have live_ks: "encode k \<in> set (map encode live_ks) \<longleftrightarrow> k \<in> set live_ks"
    using encode_inj [OF assms(4)] assms(3) by (auto simp: list_all_iff)
  have "encode k \<in> set stale \<longleftrightarrow>
      contains_key tv sh k \<and> (\<exists>q. key_partition k = p @ q) \<and> k \<notin> set live_ks"
    using live_ks encode_prefix_iff [OF assms(2,4)] mem_live_keys_with_prefix [OF assms(1)]
    by (auto simp: stale_def contains_key_def simp del: set_map)
  then have 1: "contains_key tv sh' k \<longleftrightarrow>
      contains_key tv sh k \<and> ((\<exists>q. key_partition k = p @ q) \<longrightarrow> k \<in> set live_ks)"
    using r by (auto simp: contains_key_def fold_delete_term [OF assms(1)])
  have "length (live_keys tv ix) = card (dom (live tv ix))" for ix
    using keys [of ix] by (metis distinct_card)
  moreover have "finite (dom (live tv (sh_index sh)))" using keys by (metis List.finite_set)
  ultimately have "length (live_keys tv (sh_index sh)) = rd_deleted r + length (live_keys tv (sh_index sh'))"
    using dom sub r card_mono [of "dom (live tv (sh_index sh))" "set stale"]
    by (simp add: card_Diff_subset distinct_card)
  with 1 show ?thesis by simp
qed






text \<open>C36. The checkpoint guard of \<open>reconcile_partition\<close> does not see every concurrent commit: a bootstrap batch
  (no start checkpoint, as bulk builds and repairs send) commits its documents at the checkpoint the shard
  already has. A key such a batch adds between the source scan and the reconciliation is missing from the
  scanned keys, the checkpoint still equals the expected one, and the reconciliation deletes the new
  document.\<close>

theorem reconcile_guard_misses_bootstrap:
  assumes "tantivy_ok tv" and "shuffles iter" and "\<not> sh_read_only sh"
    and "sh_checkpoint sh = Some (checkpoint b)" and "from_checkpoint b = None"
    and "batch_snapshot sh (batch_id b) = None"
    and "fold apply_op (ops b) (live tv (sh_index sh)) (encode k) \<noteq> None"
    and "list_all wf_field p" and "list_all wf_key live_ks" and "wf_key k"
    and "key_partition k = p @ q" and "k \<notin> set live_ks"
  shows "\<exists>sh1 n sh2 r. write_batch iter tv chunk sh b = Inr (sh1, n) \<and>
           sh_checkpoint sh1 = sh_checkpoint sh \<and> contains_key tv sh1 k \<and>
           reconcile_partition tv sh1 sh1 p live_ks (sh_checkpoint sh) = Inr (sh2, r) \<and>
           \<not> rd_skipped r \<and> \<not> contains_key tv sh2 k"
proof -
  have c: "continuity_of (sh_checkpoint sh) (from_checkpoint b) (checkpoint b) = Apply"
    using assms(4,5) by (simp add: continuity_of_def)
  then obtain s where s: "stage_batch iter sh b = Inr s" using assms(6) by (auto simp: stage_batch_def Let_def)
  note sf = stage_batch_Inr [OF s]
  have na: "\<not> st_already_applied s" using sf(5) assms(6) by simp
  from commit_one_total [OF assms(3) s] obtain states where st: "commit_states tv chunk sh [s] = Inr states" by blast
  let ?sh1 = "last states"
  have l: "sh_checkpoint ?sh1 = Some (checkpoint b)"
    "live tv (sh_index ?sh1) = fold apply_op (ops b) (live tv (sh_index sh))"
    using last_commit_state [OF assms(1) stage_batch_ok [OF assms(2) s] st na] c sf(1,2)
      apply_staged_ops [OF assms(2), of s "ops b"] sf(7) [OF na] by auto
  then have k1: "contains_key tv ?sh1 k" using assms(7) by (simp add: contains_key_def)
  have "\<not> sh_read_only ?sh1"
    using commit_states_frame(2) [OF st] commit_states_nonempty [OF st] assms(3) by simp
  then have "\<exists>x. reconcile_partition tv ?sh1 ?sh1 p live_ks (sh_checkpoint sh) = Inr x \<and> \<not> rd_skipped (snd x)"
    using l(1) assms(4) by (simp add: reconcile_partition_def Let_def)
  then obtain sh2 r where r: "reconcile_partition tv ?sh1 ?sh1 p live_ks (sh_checkpoint sh) = Inr (sh2, r)"
    "\<not> rd_skipped r" by auto
  have "\<not> contains_key tv sh2 k"
    using reconcile_ran [OF assms(1,8,9,10) r] assms(11,12) by blast
  with r k1 l(1) assms(4) write_batch_eq [OF s st] show ?thesis by auto
qed

definition demo_bootstrap :: commit_batch where
  "demo_bootstrap = new_commit_batch [Upsert (demo_doc (VInt 7))] (iceberg_ordered (- 1) 2) ''repair''"

theorem reconcile_guard_misses_bootstrap_witness:
  "\<exists>sh1 n sh2 r.
     write_batch id list_index 1 (empty_shard\<lparr>sh_checkpoint := Some (iceberg_ordered (- 1) 2)\<rparr>) demo_bootstrap
       = Inr (sh1, n) \<and> contains_key list_index sh1 demo_key \<and>
     reconcile_partition list_index sh1 sh1 [] [] (Some (iceberg_ordered (- 1) 2)) = Inr (sh2, r) \<and>
     \<not> contains_key list_index sh2 demo_key"
proof -
  define sh where "sh = empty_shard\<lparr>sh_checkpoint := Some (iceberg_ordered (- 1) 2)\<rparr>"
  have sh: "\<not> sh_read_only sh" "sh_checkpoint sh = Some (checkpoint demo_bootstrap)"
    "batch_snapshot sh (batch_id demo_bootstrap) = None"
    by (simp_all add: sh_def empty_shard_def demo_bootstrap_def new_commit_batch_def batch_snapshot_def)
  have "fold apply_op (ops demo_bootstrap) (live list_index (sh_index sh)) (encode demo_key) \<noteq> None"
    by (simp add: demo_bootstrap_def new_commit_batch_def op_enc_def demo_doc_def new_document_def)
  moreover have "wf_key demo_key"
    by (simp add: demo_key_def new_key_def wf_key_def wf_field_def wf_name_def utf8_ok_def in_i64_def i64_min_def i64_max_def)
  moreover have "shuffles id" "from_checkpoint demo_bootstrap = None"
    by (simp_all add: shuffles_def demo_bootstrap_def new_commit_batch_def)
  ultimately show ?thesis
    using reconcile_guard_misses_bootstrap [OF list_index_ok _ sh(1,2) _ sh(3), of id demo_key "[]" "[]" "[]" 1]
      sh(2)
    unfolding sh_def [symmetric] by (auto simp: demo_key_def new_key_def demo_bootstrap_def new_commit_batch_def)
qed

end
