(* ===== verification/Index_Def.thy ===== *)
theory Index_Def
  imports Routing Window
begin

section \<open>Index definitions and their resolution\<close>

text \<open>
  Models \<open>growlerdb-core/src/index_def.rs\<close>: the declarative definition of an index, its resolution against a
  source schema into concrete keys and typed fields with every check the code makes, the classification of
  equality deletes, and the plan for altering one resolved definition into another.

  Parsing YAML is third-party code and a parameter of \<open>from_yaml\<close>. The texts of warnings and of the
  reasons in a plan are not modelled; each reason is a constructor with the data it prints.

  Shown: every resolved definition satisfies the rules the checks are there for; a path declared in several
  variant shapes has one type; the alter plan demands a reindex exactly when something stored changes, and
  what it does not look at.
\<close>

subsection \<open>Definitions\<close>

definition MAX_CACHED_FIELD_BYTES :: nat where
  "MAX_CACHED_FIELD_BYTES = 32 * 1024"

datatype field_type = TText | TKeyword | TLong | TDouble | TBool | TDate | TIp | TVector | TVariant

definition is_text :: "field_type \<Rightarrow> bool" where
  "is_text t \<longleftrightarrow> t = TText"

definition DEFAULT_EMBED_MODEL :: string where
  "DEFAULT_EMBED_MODEL = ''bge-small-en-v1.5''"

definition DEFAULT_EMBED_DIMS :: nat where
  "DEFAULT_EMBED_DIMS = 384"

datatype vector_metric = Cosine | Dot | L2

datatype embed_provider = LocalProvider | ExternalProvider

record vector_spec =
  vsp_dims :: nat
  vsp_model :: string
  vsp_metric :: vector_metric
  vsp_provider :: embed_provider
  vsp_source_field :: string

record vector_mapping_opts =
  vo_dims :: "nat option"
  vo_model :: "string option"
  vo_metric :: "vector_metric option"
  vo_provider :: "embed_provider option"
  vo_source_field :: string

record flatten_config =
  fl_enabled :: bool
  fl_terms :: bool
  fl_text :: bool
  fl_analyzer :: "string option"

definition default_flatten :: flatten_config where
  "default_flatten = \<lparr>fl_enabled = True, fl_terms = True, fl_text = False, fl_analyzer = None\<rparr>"

record flatten_opts =
  fo_terms :: bool
  fo_text :: bool
  fo_analyzer :: "string option"

datatype flatten_wire = Toggle bool | Opts flatten_opts

fun flatten_from_wire :: "flatten_wire \<Rightarrow> flatten_config" where
  "flatten_from_wire (Toggle True) = default_flatten"
| "flatten_from_wire (Toggle False) = \<lparr>fl_enabled = False, fl_terms = False, fl_text = False, fl_analyzer = None\<rparr>"
| "flatten_from_wire (Opts x) =
     \<lparr>fl_enabled = True, fl_terms = fo_terms x, fl_text = fo_text x, fl_analyzer = fo_analyzer x\<rparr>"

definition flatten_to_wire :: "flatten_config \<Rightarrow> flatten_wire" where
  "flatten_to_wire c =
     (if \<not> fl_enabled c then Toggle False
      else Opts \<lparr>fo_terms = fl_terms c, fo_text = fl_text c, fo_analyzer = fl_analyzer c\<rparr>)"

datatype text_record = Basic | Freq | Position

definition has_positions :: "text_record \<Rightarrow> bool" where
  "has_positions r \<longleftrightarrow> r = Position"

datatype field_mapping = FieldMapping
  (fm_path: string) (fm_ty: "field_type option") (fm_analyzer: "string option")
  (fm_format: "time_format option") (fm_fast: bool) (fm_indexed: "bool option")
  (fm_record: "text_record option") (fm_fieldnorms: "bool option") (fm_cached: bool)
  (fm_suggest: bool) (fm_sensitive: bool) (fm_max_bytes: "nat option")
  (fm_vector: "vector_mapping_opts option") (fm_variant: "variant_mapping_opts option")
and variant_mapping_opts = VariantMappingOpts
  (vm_flatten: flatten_config) (vm_discriminator: "string option") (vm_shapes: "variant_shape list")
and variant_shape = VariantShape
  (vs_name: string) (vs_when: "string list") (vs_fields: "field_mapping list")

datatype selection = All | Explicit | AllExcept

record mapping_spec =
  mp_selection :: selection
  mp_fields :: "field_mapping list"
  mp_exclude :: "string list"

record key_spec =
  ks_partition_fields :: "string list"
  ks_identifier_fields :: "string list"

datatype scan_mode = Changelog | AppendFastPath

record iceberg_source =
  is_catalog :: string
  is_table :: string
  is_scan :: scan_mode

datatype source = Iceberg iceberg_source

record source_wire =
  sw_iceberg :: "iceberg_source option"

definition source_try_from :: "source_wire \<Rightarrow> source option" where
  "source_try_from w = map_option Iceberg (sw_iceberg w)"

fun source_to_wire :: "source \<Rightarrow> source_wire" where
  "source_to_wire (Iceberg i) = \<lparr>sw_iceberg = Some i\<rparr>"

record index_definition =
  id_name :: string
  id_source :: source
  id_key :: key_spec
  id_mapping :: mapping_spec
  id_shard_count :: nat
  id_tenant_field :: "string option"
  id_windowing :: "time_windowing option"

definition declares_variant :: "index_definition \<Rightarrow> bool" where
  "declares_variant d \<longleftrightarrow> (\<exists>f \<in> set (mp_fields (id_mapping d)). fm_ty f = Some TVariant)"

subsection \<open>Source schemas\<close>

datatype source_type = SString | SLong | SDouble | SBool | SDate | SBinary | SOther

record source_field =
  sf_path :: string
  sf_ty :: source_type

record source_schema =
  ss_fields :: "source_field list"
  ss_partition_fields :: "string list"
  ss_identifier_fields :: "string list"
  ss_equality_delete_fields :: "string list"

definition new_source_schema ::
    "source_field list \<Rightarrow> string list \<Rightarrow> string list \<Rightarrow> source_schema" where
  "new_source_schema fs ps is =
     \<lparr>ss_fields = fs, ss_partition_fields = ps, ss_identifier_fields = is, ss_equality_delete_fields = []\<rparr>"

definition with_equality_delete_fields :: "string list \<Rightarrow> source_schema \<Rightarrow> source_schema" where
  "with_equality_delete_fields fs s = s\<lparr>ss_equality_delete_fields := fs\<rparr>"

definition schema_field :: "source_schema \<Rightarrow> string \<Rightarrow> source_field option" where
  "schema_field s p = List.find (\<lambda>f. sf_path f = p) (ss_fields s)"

definition has_field :: "source_schema \<Rightarrow> string \<Rightarrow> bool" where
  "has_field s p \<longleftrightarrow> schema_field s p \<noteq> None"

fun auto_type :: "source_type \<Rightarrow> field_type" where
  "auto_type SString = TText"
| "auto_type SLong = TLong"
| "auto_type SDouble = TDouble"
| "auto_type SBool = TBool"
| "auto_type SDate = TDate"
| "auto_type SBinary = TKeyword"
| "auto_type SOther = TKeyword"

subsection \<open>Resolved definitions\<close>

record resolved_shape =
  rs_name :: string
  rs_when :: "string list"
  rs_paths :: "(string \<times> field_type) list"

record resolved_variant =
  rv_flatten :: flatten_config
  rv_discriminator :: "string option"
  rv_shapes :: "resolved_shape list"

record resolved_field =
  rf_path :: string
  rf_ty :: field_type
  rf_analyzer :: "string option"
  rf_format :: "time_format option"
  rf_fast :: bool
  rf_indexed :: bool
  rf_record :: text_record
  rf_fieldnorms :: bool
  rf_cached :: bool
  rf_suggest :: bool
  rf_sensitive :: bool
  rf_max_bytes :: "nat option"
  rf_vector :: "vector_spec option"
  rf_variant :: "resolved_variant option"

record resolved_key =
  rk_partition_fields :: "string list"
  rk_identifier_fields :: "string list"

datatype equality_delete_handling = NoEqualityDeletes | DeleteByKey | Reconcile "string list"

text \<open>A warning names the equality-delete columns outside the key and those outside the indexed fields.\<close>

datatype resolve_warning = EqualityDeleteFallback "string list" "string list"

record resolved_index =
  ri_name :: string
  ri_source :: source
  ri_key :: resolved_key
  ri_fields :: "resolved_field list"
  ri_equality_deletes :: equality_delete_handling
  ri_warnings :: "resolve_warning list"
  ri_shard_count :: nat
  ri_tenant_field :: "string option"
  ri_windowing :: "time_windowing option"

datatype def_error =
    Parse string
  | InvalidName string
  | EmptyExplicit
  | UnknownPath string string
  | NoIdentifier
  | FloatKey string
  | SensitiveCached string
  | BigTextCached string nat nat
  | TenantFieldUnmapped string
  | TenantFieldNotKeyword string
  | WindowFieldUnmapped string
  | WindowFieldNotTime string
  | WindowFieldNotFast string
  | TimestampFormatType string field_type
  | IndexedFalseText string
  | IndexedFalseNotFast string
  | RecordOnNonText string
  | FieldnormsOnNonText string
  | VectorMissingConfig string
  | VectorConfigOnNonVector string
  | VectorZeroDims string
  | VectorInvalidOption string string
  | VectorExternalProvider string
  | VectorSourceUnknown string string
  | VariantConfigOnNonVariant string
  | VariantEmpty string
  | VariantShapesNoDiscriminator string
  | VariantShapeTypeConflict string string field_type string field_type string
  | VariantReservedName string

subsection \<open>Names and parsing\<close>

definition validate_index_name :: "string \<Rightarrow> def_error + unit" where
  "validate_index_name name =
     (if name \<noteq> [] \<and> length name \<le> 128
         \<and> list_all (\<lambda>b. is_ascii_alphanumeric b \<or> b = CHR ''_'' \<or> b = CHR ''-'') name
      then Inr () else Inl (InvalidName name))"

definition from_yaml ::
    "(string \<Rightarrow> string + index_definition) \<Rightarrow> string \<Rightarrow> def_error + index_definition" where
  "from_yaml serde_yaml yaml =
     (case serde_yaml yaml of
        Inl e \<Rightarrow> Inl (Parse e)
      | Inr d \<Rightarrow> res_bind (validate_index_name (id_name d)) (\<lambda>_. Inr d))"

subsection \<open>Resolving keys and fields\<close>

definition key_resolve :: "key_spec \<Rightarrow> source_schema \<Rightarrow> def_error + resolved_key" where
  "key_resolve k src =
     (let ps = (if ks_partition_fields k = [] then ss_partition_fields src else ks_partition_fields k);
          is = (if ks_identifier_fields k = [] then ss_identifier_fields src else ks_identifier_fields k)
      in if is = [] then Inl NoIdentifier
         else res_bind
           (res_all (\<lambda>p. case schema_field src p of
                          None \<Rightarrow> Inl (UnknownPath p ''key'')
                        | Some f \<Rightarrow> if sf_ty f = SDouble then Inl (FloatKey p) else Inr ())
              (ps @ is))
           (\<lambda>_. Inr \<lparr>rk_partition_fields = ps, rk_identifier_fields = is\<rparr>))"

definition resolve_field ::
    "string \<Rightarrow> source_type \<Rightarrow> field_mapping option \<Rightarrow> def_error + resolved_field" where
  "resolve_field path source_ty ovr =
     (if Option.bind ovr fm_vector \<noteq> None then Inl (VectorConfigOnNonVector path)
      else if Option.bind ovr fm_variant \<noteq> None then Inl (VariantConfigOnNonVariant path)
      else
        let format = Option.bind ovr fm_format;
            ty = (if format \<noteq> None then TDate
                  else (case Option.bind ovr fm_ty of None \<Rightarrow> auto_type source_ty | Some t \<Rightarrow> t))
        in if \<not> is_text ty \<and> Option.bind ovr fm_record \<noteq> None then Inl (RecordOnNonText path)
           else if \<not> is_text ty \<and> Option.bind ovr fm_fieldnorms \<noteq> None then Inl (FieldnormsOnNonText path)
           else
             let fast = (case ovr of None \<Rightarrow> False | Some x \<Rightarrow> fm_fast x)
             in Inr \<lparr>rf_path = path, rf_ty = ty, rf_analyzer = Option.bind ovr fm_analyzer,
                  rf_format = format, rf_fast = fast,
                  rf_indexed = (case Option.bind ovr fm_indexed of
                                  Some i \<Rightarrow> i
                                | None \<Rightarrow> if ty = TText \<or> ty = TKeyword then True else \<not> fast),
                  rf_record = (case Option.bind ovr fm_record of None \<Rightarrow> Position | Some r \<Rightarrow> r),
                  rf_fieldnorms = (case Option.bind ovr fm_fieldnorms of None \<Rightarrow> True | Some b \<Rightarrow> b),
                  rf_cached = (case ovr of None \<Rightarrow> False | Some x \<Rightarrow> fm_cached x),
                  rf_suggest = (case ovr of None \<Rightarrow> False | Some x \<Rightarrow> fm_suggest x),
                  rf_sensitive = (case ovr of None \<Rightarrow> False | Some x \<Rightarrow> fm_sensitive x),
                  rf_max_bytes = Option.bind ovr fm_max_bytes, rf_vector = None, rf_variant = None\<rparr>)"

definition reject_vector_options :: "field_mapping \<Rightarrow> def_error + unit" where
  "reject_vector_options f =
     res_all (\<lambda>(on, opt). if on then Inl (VectorInvalidOption (fm_path f) opt) else Inr ())
       [(fm_fast f, ''fast''), (fm_cached f, ''cached''), (fm_suggest f, ''suggest''),
        (fm_sensitive f, ''sensitive''), (fm_analyzer f \<noteq> None, ''analyzer''),
        (fm_record f \<noteq> None, ''record''), (fm_fieldnorms f \<noteq> None, ''fieldnorms''),
        (fm_format f \<noteq> None, ''format'')]"

definition resolve_vector_field :: "field_mapping \<Rightarrow> def_error + resolved_field" where
  "resolve_vector_field f =
     (case fm_vector f of
        None \<Rightarrow> Inl (VectorMissingConfig (fm_path f))
      | Some opts \<Rightarrow> res_bind (reject_vector_options f) (\<lambda>_.
          let dims = (case vo_dims opts of None \<Rightarrow> DEFAULT_EMBED_DIMS | Some d \<Rightarrow> d);
              provider = (case vo_provider opts of None \<Rightarrow> LocalProvider | Some p \<Rightarrow> p)
          in if dims = 0 then Inl (VectorZeroDims (fm_path f))
             else if provider = ExternalProvider then Inl (VectorExternalProvider (fm_path f))
             else if vo_source_field opts = []
             then Inl (VectorSourceUnknown (fm_path f) (vo_source_field opts))
             else Inr \<lparr>rf_path = fm_path f, rf_ty = TVector, rf_analyzer = None, rf_format = None,
                    rf_fast = False, rf_indexed = False, rf_record = Position, rf_fieldnorms = True,
                    rf_cached = False, rf_suggest = False, rf_sensitive = False, rf_max_bytes = None,
                    rf_vector = Some \<lparr>vsp_dims = dims,
                      vsp_model = (case vo_model opts of None \<Rightarrow> DEFAULT_EMBED_MODEL | Some m \<Rightarrow> m),
                      vsp_metric = (case vo_metric opts of None \<Rightarrow> Cosine | Some m \<Rightarrow> m),
                      vsp_provider = provider, vsp_source_field = vo_source_field opts\<rparr>,
                    rf_variant = None\<rparr>))"

text \<open>A shape leaf, moved under its column.\<close>

definition dotted :: "string \<Rightarrow> string \<Rightarrow> string" where
  "dotted column p = column @ ''.'' @ p"

definition qualify_source :: "string \<Rightarrow> vector_mapping_opts \<Rightarrow> vector_mapping_opts" where
  "qualify_source column v =
     (if vo_source_field v \<noteq> [] \<and> CHR ''.'' \<notin> set (vo_source_field v)
      then v\<lparr>vo_source_field := dotted column (vo_source_field v)\<rparr> else v)"

fun reparent :: "string \<Rightarrow> field_mapping \<Rightarrow> field_mapping" where
  "reparent column (FieldMapping p ty an fo fa ix re fn ca su se mb ve va) =
     FieldMapping (dotted column p) ty an fo fa ix re fn ca su se mb (map_option (qualify_source column) ve) va"

definition resolve_leaf :: "string \<Rightarrow> field_mapping \<Rightarrow> def_error + resolved_field" where
  "resolve_leaf d f =
     (if fm_ty f = Some TVector then resolve_vector_field f else resolve_field d SOther (Some f))"

type_synonym seen_leaves = "(string \<times> field_type \<times> string) list"

fun resolve_shape_fields ::
    "string \<Rightarrow> string \<Rightarrow> field_mapping list \<Rightarrow> resolved_field list \<Rightarrow> seen_leaves
      \<Rightarrow> def_error + (resolved_field list \<times> seen_leaves \<times> (string \<times> field_type) list)" where
  "resolve_shape_fields column shape [] leaves seen = Inr (leaves, seen, [])"
| "resolve_shape_fields column shape (leaf # rest) leaves seen =
     (if CHR ''#'' \<in> set (fm_path leaf) then Inl (VariantReservedName (dotted column (fm_path leaf)))
      else
        let d = dotted column (fm_path leaf); f = reparent column leaf
        in if fm_variant f \<noteq> None then Inl (VariantConfigOnNonVariant d)
           else res_bind (resolve_leaf d f) (\<lambda>r.
             case map_of seen d of
               Some (ty, prior) \<Rightarrow>
                 if ty \<noteq> rf_ty r then Inl (VariantShapeTypeConflict column d ty prior (rf_ty r) shape)
                 else res_bind (resolve_shape_fields column shape rest leaves seen)
                        (\<lambda>(ls, sn, ps). Inr (ls, sn, (d, rf_ty r) # ps))
             | None \<Rightarrow>
                 res_bind (resolve_shape_fields column shape rest (leaves @ [r]) ((d, rf_ty r, shape) # seen))
                   (\<lambda>(ls, sn, ps). Inr (ls, sn, (d, rf_ty r) # ps))))"

fun resolve_shapes ::
    "string \<Rightarrow> variant_shape list \<Rightarrow> resolved_field list \<Rightarrow> seen_leaves
      \<Rightarrow> def_error + (resolved_field list \<times> resolved_shape list)" where
  "resolve_shapes column [] leaves seen = Inr (leaves, [])"
| "resolve_shapes column (s # ss) leaves seen =
     res_bind (resolve_shape_fields column (vs_name s) (vs_fields s) leaves seen) (\<lambda>(ls, sn, ps).
       res_bind (resolve_shapes column ss ls sn) (\<lambda>(ls', rs).
         Inr (ls', \<lparr>rs_name = vs_name s, rs_when = vs_when s, rs_paths = ps\<rparr> # rs)))"

definition variant_opts :: "field_mapping \<Rightarrow> variant_mapping_opts" where
  "variant_opts f =
     (case fm_variant f of None \<Rightarrow> VariantMappingOpts default_flatten None [] | Some x \<Rightarrow> x)"

definition variant_field :: "string \<Rightarrow> variant_mapping_opts \<Rightarrow> resolved_shape list \<Rightarrow> resolved_field" where
  "variant_field column opts shapes =
     \<lparr>rf_path = column, rf_ty = TVariant, rf_analyzer = fl_analyzer (vm_flatten opts), rf_format = None,
      rf_fast = False, rf_indexed = False, rf_record = Position, rf_fieldnorms = True,
      rf_cached = False, rf_suggest = False, rf_sensitive = False, rf_max_bytes = None, rf_vector = None,
      rf_variant = Some \<lparr>rv_flatten = vm_flatten opts, rv_discriminator = vm_discriminator opts,
                         rv_shapes = shapes\<rparr>\<rparr>"

definition flatten_indexes :: "flatten_config \<Rightarrow> bool" where
  "flatten_indexes c \<longleftrightarrow> fl_enabled c \<and> (fl_terms c \<or> fl_text c)"

definition resolve_variant_field :: "field_mapping \<Rightarrow> def_error + resolved_field list" where
  "resolve_variant_field f =
     (let column = fm_path f; opts = variant_opts f in
      if CHR ''#'' \<in> set column then Inl (VariantReservedName column)
      else if vm_shapes opts \<noteq> [] \<and> vm_discriminator opts = None
      then Inl (VariantShapesNoDiscriminator column)
      else if \<not> flatten_indexes (vm_flatten opts) \<and> vm_shapes opts = [] then Inl (VariantEmpty column)
      else res_bind (resolve_shapes column (vm_shapes opts) [] []) (\<lambda>(leaves, shapes).
        Inr (variant_field column opts shapes # leaves)))"

definition check_mapping_entry :: "source_schema \<Rightarrow> field_mapping \<Rightarrow> def_error + unit" where
  "check_mapping_entry src f =
     (if fm_ty f \<noteq> Some TVector \<and> \<not> has_field src (fm_path f)
      then Inl (UnknownPath (fm_path f) ''mapping.fields'')
      else if fm_ty f \<noteq> Some TVector \<and> fm_format f \<noteq> None \<and> fm_ty f \<noteq> None \<and> fm_ty f \<noteq> Some TDate
      then Inl (TimestampFormatType (fm_path f) (the (fm_ty f)))
      else Inr ())"

definition resolve_source_field ::
    "field_mapping list \<Rightarrow> source_field \<Rightarrow> def_error + resolved_field list" where
  "resolve_source_field flds sf =
     (case List.find (\<lambda>f. fm_path f = sf_path sf) flds of
        Some x \<Rightarrow>
          if fm_ty x = Some TVariant then resolve_variant_field x
          else res_bind (resolve_field (sf_path sf) (sf_ty sf) (Some x)) (\<lambda>r. Inr [r])
      | None \<Rightarrow> res_bind (resolve_field (sf_path sf) (sf_ty sf) None) (\<lambda>r. Inr [r]))"

definition resolve_explicit_entry ::
    "source_schema \<Rightarrow> field_mapping \<Rightarrow> def_error + resolved_field list" where
  "resolve_explicit_entry src f =
     (if fm_ty f = Some TVector then res_bind (resolve_vector_field f) (\<lambda>r. Inr [r])
      else if fm_ty f = Some TVariant then resolve_variant_field f
      else res_bind (resolve_field (fm_path f) (sf_ty (the (schema_field src (fm_path f)))) (Some f))
             (\<lambda>r. Inr [r]))"

definition mapping_resolve :: "mapping_spec \<Rightarrow> source_schema \<Rightarrow> def_error + resolved_field list" where
  "mapping_resolve m src =
     res_bind (res_all (check_mapping_entry src) (mp_fields m)) (\<lambda>_.
       case mp_selection m of
         Explicit \<Rightarrow>
           if mp_fields m = [] then Inl EmptyExplicit
           else res_bind (res_map (resolve_explicit_entry src) (mp_fields m)) (\<lambda>rs. Inr (concat rs))
       | _ \<Rightarrow>
           let excluding = (mp_selection m = AllExcept) in
           res_bind (if excluding
                     then res_all (\<lambda>p. if has_field src p then Inr () else Inl (UnknownPath p ''mapping.exclude''))
                            (mp_exclude m)
                     else Inr ()) (\<lambda>_.
             let exclude = (if excluding then mp_exclude m else []) in
             res_bind (res_map (resolve_source_field (mp_fields m))
                         (filter (\<lambda>sf. sf_path sf \<notin> set exclude) (ss_fields src))) (\<lambda>rs.
               res_bind (res_map resolve_vector_field
                           (filter (\<lambda>f. fm_ty f = Some TVector) (mp_fields m))) (\<lambda>vs.
                 Inr (concat rs @ vs)))))"

subsection \<open>Resolving a definition\<close>

definition check_field_policy :: "resolved_field \<Rightarrow> def_error + unit" where
  "check_field_policy f =
     (if \<not> rf_indexed f \<and> rf_ty f \<notin> {TVector, TVariant} \<and> rf_ty f \<in> {TText, TKeyword}
      then Inl (IndexedFalseText (rf_path f))
      else if \<not> rf_indexed f \<and> rf_ty f \<notin> {TVector, TVariant} \<and> \<not> rf_fast f
      then Inl (IndexedFalseNotFast (rf_path f))
      else if rf_cached f \<and> rf_sensitive f then Inl (SensitiveCached (rf_path f))
      else if rf_cached f then
        (case rf_max_bytes f of
           Some n \<Rightarrow> if MAX_CACHED_FIELD_BYTES < n
                     then Inl (BigTextCached (rf_path f) n MAX_CACHED_FIELD_BYTES) else Inr ()
         | None \<Rightarrow> Inr ())
      else Inr ())"

definition find_field :: "resolved_field list \<Rightarrow> string \<Rightarrow> resolved_field option" where
  "find_field fs p = List.find (\<lambda>f. rf_path f = p) fs"

definition check_vector_source :: "resolved_field list \<Rightarrow> resolved_field \<Rightarrow> def_error + unit" where
  "check_vector_source flds f =
     (case rf_vector f of
        None \<Rightarrow> Inr ()
      | Some spec \<Rightarrow>
          if list_ex (\<lambda>x. rf_path x = vsp_source_field spec) flds then Inr ()
          else Inl (VectorSourceUnknown (rf_path f) (vsp_source_field spec)))"

definition check_tenant_field :: "resolved_field list \<Rightarrow> string option \<Rightarrow> def_error + unit" where
  "check_tenant_field flds t =
     (case t of
        None \<Rightarrow> Inr ()
      | Some tf \<Rightarrow>
          (case find_field flds tf of
             None \<Rightarrow> Inl (TenantFieldUnmapped tf)
           | Some f \<Rightarrow> if rf_ty f \<noteq> TKeyword then Inl (TenantFieldNotKeyword tf) else Inr ()))"

definition check_time_field :: "resolved_field list \<Rightarrow> string \<Rightarrow> def_error + unit" where
  "check_time_field flds name =
     (case find_field flds name of
        None \<Rightarrow> Inl (WindowFieldUnmapped name)
      | Some f \<Rightarrow>
          if rf_ty f \<noteq> TDate then Inl (WindowFieldNotTime name)
          else if \<not> rf_fast f then Inl (WindowFieldNotFast name) else Inr ())"

definition check_windowing :: "resolved_field list \<Rightarrow> time_windowing option \<Rightarrow> def_error + unit" where
  "check_windowing flds w =
     (case w of
        None \<Rightarrow> Inr ()
      | Some w \<Rightarrow> res_bind (check_time_field flds (tw_field w)) (\<lambda>_.
          case tw_event_time_field w of None \<Rightarrow> Inr () | Some ef \<Rightarrow> check_time_field flds ef))"

definition classify_equality_deletes ::
    "string list \<Rightarrow> resolved_key \<Rightarrow> resolved_field list
      \<Rightarrow> equality_delete_handling \<times> resolve_warning list" where
  "classify_equality_deletes eq key flds =
     (let in_key = (\<lambda>c. c \<in> set (rk_partition_fields key) \<or> c \<in> set (rk_identifier_fields key)) in
      if eq = [] then (NoEqualityDeletes, [])
      else if list_all in_key eq then (DeleteByKey, [])
      else
        let non_key = filter (\<lambda>c. \<not> in_key c) eq;
            uncovered = filter (\<lambda>c. \<not> list_ex (\<lambda>f. rf_path f = c) flds) non_key
        in (Reconcile uncovered, [EqualityDeleteFallback non_key uncovered]))"

definition resolve :: "index_definition \<Rightarrow> source_schema \<Rightarrow> def_error + resolved_index" where
  "resolve d src =
     res_bind (key_resolve (id_key d) src) (\<lambda>key.
     res_bind (mapping_resolve (id_mapping d) src) (\<lambda>flds.
     res_bind (res_all check_field_policy flds) (\<lambda>_.
     res_bind (res_all (check_vector_source flds) flds) (\<lambda>_.
     res_bind (check_tenant_field flds (id_tenant_field d)) (\<lambda>_.
     res_bind (check_windowing flds (id_windowing d)) (\<lambda>_.
       let (eq, warnings) = classify_equality_deletes (ss_equality_delete_fields src) key flds in
       Inr \<lparr>ri_name = id_name d, ri_source = id_source d, ri_key = key, ri_fields = flds,
            ri_equality_deletes = eq, ri_warnings = warnings, ri_shard_count = max (id_shard_count d) 1,
            ri_tenant_field = id_tenant_field d, ri_windowing = id_windowing d\<rparr>))))))"

subsection \<open>What a resolved definition offers\<close>

definition date_formats :: "resolved_index \<Rightarrow> (string \<times> time_format) list" where
  "date_formats ix = List.map_filter (\<lambda>f. map_option (Pair (rf_path f)) (rf_format f)) (ri_fields ix)"

definition routing_strategy_of :: "resolved_index \<Rightarrow> routing_strategy" where
  "routing_strategy_of ix = (if rk_partition_fields (ri_key ix) = [] then Hash else Partition)"

definition index_shard_router :: "resolved_index \<Rightarrow> nat \<Rightarrow> shard_router" where
  "index_shard_router ix shards = new_router shards (routing_strategy_of ix)"

definition has_variant_field :: "resolved_index \<Rightarrow> bool" where
  "has_variant_field ix \<longleftrightarrow> list_ex (\<lambda>f. rf_ty f = TVariant) (ri_fields ix)"

definition variant_columns :: "resolved_index \<Rightarrow> string list" where
  "variant_columns ix = map rf_path (filter (\<lambda>f. rf_ty f = TVariant) (ri_fields ix))"

subsection \<open>Alter plans\<close>

datatype alter_reason =
    Renamed string string
  | SourceChanged
  | ShardCountChanged nat nat
  | PartitionFieldsChanged
  | IdentifierFieldsChanged
  | FieldRemoved string
  | FieldAdded string
  | FieldTypeChanged string field_type field_type
  | AnalyzerChanged string "string option" "string option"
  | RecordChanged string text_record text_record
  | FieldnormsChanged string bool bool
  | FastChanged string bool bool
  | IndexedChanged string bool bool
  | CachedChanged string bool bool
  | SensitiveChanged string bool bool
  | MaxBytesRedeclared string
  | VectorChanged string
  | VariantChanged string

record alter_plan =
  ap_reindex_reasons :: "alter_reason list"
  ap_in_place :: "alter_reason list"

definition requires_reindex :: "alter_plan \<Rightarrow> bool" where
  "requires_reindex p \<longleftrightarrow> ap_reindex_reasons p \<noteq> []"

definition is_noop :: "alter_plan \<Rightarrow> bool" where
  "is_noop p \<longleftrightarrow> ap_reindex_reasons p = [] \<and> ap_in_place p = []"

definition note_reindex :: "bool \<Rightarrow> alter_reason \<Rightarrow> alter_plan \<Rightarrow> alter_plan" where
  "note_reindex c r p = (if c then p\<lparr>ap_reindex_reasons := ap_reindex_reasons p @ [r]\<rparr> else p)"

definition note_in_place :: "bool \<Rightarrow> alter_reason \<Rightarrow> alter_plan \<Rightarrow> alter_plan" where
  "note_in_place c r p = (if c then p\<lparr>ap_in_place := ap_in_place p @ [r]\<rparr> else p)"

definition diff_field :: "string \<Rightarrow> resolved_field \<Rightarrow> resolved_field \<Rightarrow> alter_plan \<Rightarrow> alter_plan" where
  "diff_field p a b plan =
     note_reindex (rf_variant a \<noteq> rf_variant b) (VariantChanged p)
    (note_reindex (rf_vector a \<noteq> rf_vector b) (VectorChanged p)
    (note_in_place (rf_max_bytes a \<noteq> rf_max_bytes b) (MaxBytesRedeclared p)
    (note_in_place (rf_sensitive a \<noteq> rf_sensitive b) (SensitiveChanged p (rf_sensitive a) (rf_sensitive b))
    (note_reindex (rf_cached a \<noteq> rf_cached b) (CachedChanged p (rf_cached a) (rf_cached b))
    (note_reindex (rf_indexed a \<noteq> rf_indexed b) (IndexedChanged p (rf_indexed a) (rf_indexed b))
    (note_reindex (rf_fast a \<noteq> rf_fast b) (FastChanged p (rf_fast a) (rf_fast b))
    (note_reindex (rf_fieldnorms a \<noteq> rf_fieldnorms b) (FieldnormsChanged p (rf_fieldnorms a) (rf_fieldnorms b))
    (note_reindex (rf_record a \<noteq> rf_record b) (RecordChanged p (rf_record a) (rf_record b))
    (note_reindex (rf_analyzer a \<noteq> rf_analyzer b) (AnalyzerChanged p (rf_analyzer a) (rf_analyzer b))
    (note_reindex (rf_ty a \<noteq> rf_ty b) (FieldTypeChanged p (rf_ty a) (rf_ty b)) plan))))))))))"

definition alter_path :: "resolved_index \<Rightarrow> resolved_index \<Rightarrow> string \<Rightarrow> alter_plan \<Rightarrow> alter_plan" where
  "alter_path old new p plan =
     (case (find_field (ri_fields old) p, find_field (ri_fields new) p) of
        (Some _, None) \<Rightarrow> note_reindex True (FieldRemoved p) plan
      | (None, Some _) \<Rightarrow> note_reindex True (FieldAdded p) plan
      | (Some a, Some b) \<Rightarrow> diff_field p a b plan
      | (None, None) \<Rightarrow> plan)"

definition alter_to :: "resolved_index \<Rightarrow> resolved_index \<Rightarrow> alter_plan" where
  "alter_to old new =
     fold (alter_path old new)
       (sorted_list_of_set (rf_path ` set (ri_fields old @ ri_fields new)))
       (note_reindex (rk_identifier_fields (ri_key old) \<noteq> rk_identifier_fields (ri_key new)) IdentifierFieldsChanged
       (note_reindex (rk_partition_fields (ri_key old) \<noteq> rk_partition_fields (ri_key new)) PartitionFieldsChanged
       (note_reindex (ri_shard_count old \<noteq> ri_shard_count new) (ShardCountChanged (ri_shard_count old) (ri_shard_count new))
       (note_reindex (ri_source old \<noteq> ri_source new) SourceChanged
       (note_in_place (ri_name old \<noteq> ri_name new) (Renamed (ri_name old) (ri_name new))
         \<lparr>ap_reindex_reasons = [], ap_in_place = []\<rparr>)))))"

subsection \<open>The shape of resolved fields\<close>

definition vector_ok :: "vector_spec \<Rightarrow> bool" where
  "vector_ok s \<longleftrightarrow> 0 < vsp_dims s \<and> vsp_provider s = LocalProvider \<and> vsp_source_field s \<noteq> []"

definition field_shape :: "resolved_field \<Rightarrow> bool" where
  "field_shape f \<longleftrightarrow>
     (rf_vector f \<noteq> None \<longleftrightarrow> rf_ty f = TVector) \<and>
     (rf_variant f \<noteq> None \<longrightarrow> rf_ty f = TVariant) \<and>
     (rf_format f \<noteq> None \<longrightarrow> rf_ty f = TDate) \<and>
     (rf_ty f \<noteq> TText \<longrightarrow> rf_record f = Position \<and> rf_fieldnorms f) \<and>
     (case rf_vector f of None \<Rightarrow> True | Some s \<Rightarrow> vector_ok s)"

lemma auto_type_not [simp]: "auto_type t \<noteq> TVector" "auto_type t \<noteq> TVariant" "auto_type t \<noteq> TIp"
  by (cases t; simp)+

lemma resolve_field_shape:
  assumes "resolve_field p t v = Inr r" and "Option.bind v fm_ty \<noteq> Some TVector"
  shows "field_shape r" and "rf_path r = p"
  using assms
  by (auto simp: resolve_field_def Let_def field_shape_def is_text_def split: if_splits option.splits)

lemma resolve_vector_field_shape:
  assumes "resolve_vector_field f = Inr r"
  shows "field_shape r" and "rf_path r = fm_path f" and "fm_vector f \<noteq> None"
  using assms
  by (auto simp: resolve_vector_field_def res_bind_Inr_iff Let_def field_shape_def vector_ok_def DEFAULT_EMBED_DIMS_def
           split: if_splits option.splits embed_provider.splits)
     (metis embed_provider.exhaust)+

lemma reparent_simps [simp]:
  "fm_path (reparent c f) = dotted c (fm_path f)" "fm_ty (reparent c f) = fm_ty f"
  by (cases f; simp)+

lemma resolve_leaf_shape:
  assumes "resolve_leaf (dotted c (fm_path f)) (reparent c f) = Inr r"
  shows "field_shape r" and "rf_path r = dotted c (fm_path f)"
  using assms resolve_vector_field_shape [of "reparent c f" r]
    resolve_field_shape [of "dotted c (fm_path f)" SOther "Some (reparent c f)" r]
  by (auto simp: resolve_leaf_def split: if_splits)

text \<open>The leaves collected so far and the table of seen paths say the same, and no path twice.\<close>

definition leaf_sig :: "resolved_field \<Rightarrow> string \<times> field_type" where
  "leaf_sig r = (rf_path r, rf_ty r)"

definition leaves_ok :: "resolved_field list \<Rightarrow> seen_leaves \<Rightarrow> bool" where
  "leaves_ok leaves seen \<longleftrightarrow>
     list_all field_shape leaves \<and> distinct (map rf_path leaves) \<and> distinct (map fst seen) \<and>
     leaf_sig ` set leaves = (\<lambda>(d, t, _). (d, t)) ` set seen"

lemma leaves_ok_Nil [simp]: "leaves_ok [] []"
  by (simp add: leaves_ok_def)

lemma leaves_ok_add:
  assumes "leaves_ok leaves seen" and "field_shape r" and "rf_path r = d" and "map_of seen d = None"
  shows "leaves_ok (leaves @ [r]) ((d, rf_ty r, s) # seen)"
proof -
  have d: "d \<notin> fst ` set seen" using assms(4) by (simp add: map_of_eq_None_iff)
  have "rf_path x \<in> fst ` set seen" if "x \<in> set leaves" for x
  proof -
    have "leaf_sig x \<in> (\<lambda>(d, t, _). (d, t)) ` set seen" using assms(1) that by (auto simp: leaves_ok_def)
    then show ?thesis by (force simp: leaf_sig_def)
  qed
  then have "d \<notin> rf_path ` set leaves" using d by auto
  then show ?thesis using assms d by (auto simp: leaves_ok_def leaf_sig_def)
qed

lemma resolve_shape_fields_ok:
  assumes "resolve_shape_fields c s fs leaves seen = Inr (ls, sn, ps)" and "leaves_ok leaves seen"
  shows "leaves_ok ls sn \<and> leaf_sig ` set leaves \<subseteq> leaf_sig ` set ls \<and> set ps \<subseteq> leaf_sig ` set ls"
  using assms
proof (induction fs arbitrary: leaves seen ls sn ps)
  case Nil
  then show ?case by simp
next
  case (Cons f fs)
  let ?d = "dotted c (fm_path f)"
  from Cons(2) obtain r where r: "resolve_leaf ?d (reparent c f) = Inr r"
    by (auto simp: res_bind_Inr_iff Let_def split: if_splits)
  note sh = resolve_leaf_shape [OF r]
  have c: "CHR ''#'' \<notin> set (fm_path f)" "fm_variant (reparent c f) = None"
    using Cons(2) by (auto simp: Let_def split: if_splits)
  show ?case
  proof (cases "map_of seen ?d")
    case None
    from Cons(2) r c None obtain ps' where
      ih: "resolve_shape_fields c s fs (leaves @ [r]) ((?d, rf_ty r, s) # seen) = Inr (ls, sn, ps')"
      and ps: "ps = (?d, rf_ty r) # ps'"
      by (auto simp: res_bind_Inr_iff Let_def)
    have ok: "leaves_ok (leaves @ [r]) ((?d, rf_ty r, s) # seen)"
      by (rule leaves_ok_add [OF Cons(3) sh(1) sh(2) None])
    have "leaf_sig r = (?d, rf_ty r)" using sh(2) by (simp add: leaf_sig_def)
    with Cons(1) [OF ih ok] c(2) ps show ?thesis by auto
  next
    case (Some tp)
    obtain t0 pr where tp: "tp = (t0, pr)" by (cases tp)
    from Cons(2) r c Some tp obtain ps' where
      ih: "resolve_shape_fields c s fs leaves seen = Inr (ls, sn, ps')"
      and ps: "ps = (?d, rf_ty r) # ps'" and t0: "t0 = rf_ty r"
      by (auto simp: res_bind_Inr_iff Let_def split: if_splits)
    have "(?d, t0) \<in> leaf_sig ` set leaves"
      using Cons(3) map_of_SomeD [OF Some] tp by (force simp: leaves_ok_def)
    with Cons(1) [OF ih Cons(3)] c(2) ps t0 show ?thesis by auto
  qed
qed

lemma resolve_shapes_ok:
  assumes "resolve_shapes c ss leaves seen = Inr (ls, rs)" and "leaves_ok leaves seen"
  shows "list_all field_shape ls \<and> distinct (map rf_path ls) \<and> leaf_sig ` set leaves \<subseteq> leaf_sig ` set ls \<and>
         (\<forall>s \<in> set rs. set (rs_paths s) \<subseteq> leaf_sig ` set ls)"
  using assms
proof (induction ss arbitrary: leaves seen ls rs)
  case Nil
  then show ?case by (simp add: leaves_ok_def)
next
  case (Cons s ss)
  from Cons(2) obtain l1 sn ps rs' where
    a: "resolve_shape_fields c (vs_name s) (vs_fields s) leaves seen = Inr (l1, sn, ps)"
    and b: "resolve_shapes c ss l1 sn = Inr (ls, rs')"
    and rs: "rs = \<lparr>rs_name = vs_name s, rs_when = vs_when s, rs_paths = ps\<rparr> # rs'"
    by (auto simp: res_bind_Inr_iff)
  from resolve_shape_fields_ok [OF a Cons(3)] Cons(1) [OF b] rs show ?case by fastforce
qed

lemma variant_field_simps [simp]:
  "field_shape (variant_field c x ss)" "rf_path (variant_field c x ss) = c" "rf_ty (variant_field c x ss) = TVariant"
  by (simp_all add: variant_field_def field_shape_def)

lemma resolve_variant_field_Inr:
  assumes "resolve_variant_field f = Inr rs"
  obtains leaves shapes where
    "rs = variant_field (fm_path f) (variant_opts f) shapes # leaves"
    "resolve_shapes (fm_path f) (vm_shapes (variant_opts f)) [] [] = Inr (leaves, shapes)"
  using assms by (auto simp: resolve_variant_field_def res_bind_Inr_iff Let_def split: if_splits)

lemma resolve_variant_field_shape:
  assumes "resolve_variant_field f = Inr rs"
  shows "list_all field_shape rs"
  using resolve_variant_field_Inr [OF assms] resolve_shapes_ok [OF _ leaves_ok_Nil]
  by (metis list.pred_inject(2) variant_field_simps(1))

lemma mapping_resolve_shape:
  assumes "mapping_resolve m src = Inr fs"
  shows "list_all field_shape fs"
proof -
  have chk: "check_mapping_entry src f = Inr ()" if "f \<in> set (mp_fields m)" for f
    using assms that by (auto simp: mapping_resolve_def res_bind_Inr_iff res_all_Inr_iff)
  have one: "list_all field_shape rs" if "resolve_explicit_entry src f = Inr rs" for f rs
    using that resolve_vector_field_shape(1) resolve_field_shape(1) resolve_variant_field_shape
    by (fastforce simp: resolve_explicit_entry_def res_bind_Inr_iff split: if_splits)
  show ?thesis
  proof (cases "mp_selection m = Explicit")
    case True
    with assms obtain rs where "res_map (resolve_explicit_entry src) (mp_fields m) = Inr rs" "fs = concat rs"
      by (auto simp: mapping_resolve_def res_bind_Inr_iff split: if_splits)
    with one show ?thesis by (auto simp: list_all_iff dest!: res_map_Inr_set)
  next
    case False
    then obtain sfs rs vs where
      rs: "res_map (resolve_source_field (mp_fields m)) sfs = Inr rs" and
      vs: "res_map resolve_vector_field (filter (\<lambda>f. fm_ty f = Some TVector) (mp_fields m)) = Inr vs" and
      fs: "fs = concat rs @ vs"
      using assms by (cases "mp_selection m") (auto simp: mapping_resolve_def res_bind_Inr_iff Let_def)
    have vec: "fm_vector f \<noteq> None" if f: "f \<in> set (mp_fields m)" "fm_ty f = Some TVector" for f
    proof -
      have "\<exists>r. resolve_vector_field f = Inr r"
        using res_map_Inr_mem [OF vs, of f] f by auto
      then show ?thesis using resolve_vector_field_shape(3) by blast
    qed
    have "list_all field_shape x" if "resolve_source_field (mp_fields m) sf = Inr x" for sf x
    proof (cases "List.find (\<lambda>f. fm_path f = sf_path sf) (mp_fields m)")
      case None
      with that resolve_field_shape(1) [of "sf_path sf" "sf_ty sf" None] show ?thesis
        by (auto simp: resolve_source_field_def res_bind_Inr_iff)
    next
      case (Some f)
      then have f: "f \<in> set (mp_fields m)" by (metis find_Some_iff nth_mem)
      show ?thesis
      proof (cases "fm_ty f = Some TVector")
        case True
        with vec [OF f] Some that show ?thesis
          by (auto simp: resolve_source_field_def res_bind_Inr_iff resolve_field_def split: if_splits)
      next
        case False
        with Some that resolve_field_shape(1) [of "sf_path sf" "sf_ty sf" "Some f"] resolve_variant_field_shape [of f]
        show ?thesis by (auto simp: resolve_source_field_def res_bind_Inr_iff split: if_splits)
      qed
    qed
    then have "list_all field_shape (concat rs)" using rs by (auto simp: list_all_iff dest!: res_map_Inr_set)
    moreover have "list_all field_shape vs"
      using vs resolve_vector_field_shape(1) by (auto simp: list_all_iff dest!: res_map_Inr_set)
    ultimately show ?thesis using fs by simp
  qed
qed

subsection \<open>The rules a resolved definition satisfies\<close>

definition field_policy_ok :: "resolved_field \<Rightarrow> bool" where
  "field_policy_ok f \<longleftrightarrow>
     (rf_indexed f \<or> rf_ty f = TVector \<or> rf_ty f = TVariant \<or> (rf_fast f \<and> rf_ty f \<noteq> TText \<and> rf_ty f \<noteq> TKeyword)) \<and>
     (rf_cached f \<longrightarrow> \<not> rf_sensitive f \<and>
        (case rf_max_bytes f of None \<Rightarrow> True | Some n \<Rightarrow> n \<le> MAX_CACHED_FIELD_BYTES))"

definition time_field_ok :: "resolved_field list \<Rightarrow> string \<Rightarrow> bool" where
  "time_field_ok fs p \<longleftrightarrow>
     (case find_field fs p of None \<Rightarrow> False | Some f \<Rightarrow> rf_ty f = TDate \<and> rf_fast f)"

definition key_ok :: "source_schema \<Rightarrow> resolved_key \<Rightarrow> bool" where
  "key_ok src k \<longleftrightarrow> rk_identifier_fields k \<noteq> [] \<and>
     list_all (\<lambda>p. case schema_field src p of None \<Rightarrow> False | Some f \<Rightarrow> sf_ty f \<noteq> SDouble)
       (rk_partition_fields k @ rk_identifier_fields k)"

definition equality_deletes_ok :: "source_schema \<Rightarrow> resolved_index \<Rightarrow> bool" where
  "equality_deletes_ok src ix \<longleftrightarrow>
     (let eq = ss_equality_delete_fields src;
          key = set (rk_partition_fields (ri_key ix)) \<union> set (rk_identifier_fields (ri_key ix)) in
      case ri_equality_deletes ix of
        NoEqualityDeletes \<Rightarrow> eq = []
      | DeleteByKey \<Rightarrow> eq \<noteq> [] \<and> set eq \<subseteq> key
      | Reconcile u \<Rightarrow> \<not> set eq \<subseteq> key \<and> set u = set eq - key - rf_path ` set (ri_fields ix))"

definition resolved_ok :: "source_schema \<Rightarrow> resolved_index \<Rightarrow> bool" where
  "resolved_ok src ix \<longleftrightarrow>
     key_ok src (ri_key ix) \<and>
     list_all field_shape (ri_fields ix) \<and> list_all field_policy_ok (ri_fields ix) \<and>
     list_all (\<lambda>f. case rf_vector f of None \<Rightarrow> True
                   | Some s \<Rightarrow> vsp_source_field s \<in> rf_path ` set (ri_fields ix)) (ri_fields ix) \<and>
     (case ri_tenant_field ix of None \<Rightarrow> True
      | Some t \<Rightarrow> (case find_field (ri_fields ix) t of None \<Rightarrow> False | Some f \<Rightarrow> rf_ty f = TKeyword)) \<and>
     (case ri_windowing ix of None \<Rightarrow> True
      | Some w \<Rightarrow> time_field_ok (ri_fields ix) (tw_field w) \<and>
          (case tw_event_time_field w of None \<Rightarrow> True | Some e \<Rightarrow> time_field_ok (ri_fields ix) e)) \<and>
     equality_deletes_ok src ix \<and> 1 \<le> ri_shard_count ix"

lemma key_resolve_ok: "key_resolve k src = Inr key \<Longrightarrow> key_ok src key"
  by (auto simp: key_resolve_def key_ok_def Let_def res_bind_Inr_iff res_all_Inr_iff list_all_iff
           split: if_splits option.splits)

lemma check_field_policy_ok: "check_field_policy f = Inr () \<longleftrightarrow> field_policy_ok f"
  by (auto simp: check_field_policy_def field_policy_ok_def split: option.splits)

lemma check_time_field_ok: "check_time_field fs p = Inr () \<longleftrightarrow> time_field_ok fs p"
  by (auto simp: check_time_field_def time_field_ok_def split: option.splits)

lemma check_vector_source_ok:
  "check_vector_source fs f = Inr () \<longleftrightarrow>
     (case rf_vector f of None \<Rightarrow> True | Some s \<Rightarrow> vsp_source_field s \<in> rf_path ` set fs)"
  by (force simp: check_vector_source_def list_ex_iff split: option.splits)

lemma resolve_Inr:
  "resolve d src = Inr ix \<longleftrightarrow>
     (\<exists>key fs. key_resolve (id_key d) src = Inr key \<and> mapping_resolve (id_mapping d) src = Inr fs \<and>
        (\<forall>f \<in> set fs. field_policy_ok f) \<and> (\<forall>f \<in> set fs. check_vector_source fs f = Inr ()) \<and>
        check_tenant_field fs (id_tenant_field d) = Inr () \<and> check_windowing fs (id_windowing d) = Inr () \<and>
        ix = \<lparr>ri_name = id_name d, ri_source = id_source d, ri_key = key, ri_fields = fs,
              ri_equality_deletes = fst (classify_equality_deletes (ss_equality_delete_fields src) key fs),
              ri_warnings = snd (classify_equality_deletes (ss_equality_delete_fields src) key fs),
              ri_shard_count = max (id_shard_count d) 1,
              ri_tenant_field = id_tenant_field d, ri_windowing = id_windowing d\<rparr>)"
  by (auto simp: resolve_def res_bind_Inr_iff res_all_Inr_iff check_field_policy_ok case_prod_unfold Let_def)

lemma classify_ok:
  assumes "classify_equality_deletes eq key fs = (h, w)"
  shows "case h of NoEqualityDeletes \<Rightarrow> eq = []
    | DeleteByKey \<Rightarrow> eq \<noteq> [] \<and> set eq \<subseteq> set (rk_partition_fields key) \<union> set (rk_identifier_fields key)
    | Reconcile u \<Rightarrow> \<not> set eq \<subseteq> set (rk_partition_fields key) \<union> set (rk_identifier_fields key) \<and>
        set u = set eq - (set (rk_partition_fields key) \<union> set (rk_identifier_fields key)) - rf_path ` set fs"
  using assms
  by (auto simp: classify_equality_deletes_def Let_def list_all_iff list_ex_iff split: if_splits)

lemma resolve_ok:
  assumes "resolve d src = Inr ix"
  shows "resolved_ok src ix"
proof -
  from assms obtain key fs where r: "key_resolve (id_key d) src = Inr key" "mapping_resolve (id_mapping d) src = Inr fs"
      "\<forall>f \<in> set fs. field_policy_ok f" "\<forall>f \<in> set fs. check_vector_source fs f = Inr ()"
      "check_tenant_field fs (id_tenant_field d) = Inr ()" "check_windowing fs (id_windowing d) = Inr ()"
    and ix: "ri_key ix = key" "ri_fields ix = fs" "ri_tenant_field ix = id_tenant_field d"
      "ri_windowing ix = id_windowing d" "1 \<le> ri_shard_count ix"
      "ri_equality_deletes ix = fst (classify_equality_deletes (ss_equality_delete_fields src) key fs)"
    by (auto simp: resolve_Inr)
  have "list_all (\<lambda>f. case rf_vector f of None \<Rightarrow> True | Some s \<Rightarrow> vsp_source_field s \<in> rf_path ` set fs) fs"
    using r(4) by (simp add: list_all_iff check_vector_source_ok)
  moreover have "case id_tenant_field d of None \<Rightarrow> True
      | Some t \<Rightarrow> (case find_field fs t of None \<Rightarrow> False | Some f \<Rightarrow> rf_ty f = TKeyword)"
    using r(5) by (auto simp: check_tenant_field_def split: option.splits if_splits)
  moreover have "case id_windowing d of None \<Rightarrow> True
      | Some w \<Rightarrow> time_field_ok fs (tw_field w) \<and>
          (case tw_event_time_field w of None \<Rightarrow> True | Some e \<Rightarrow> time_field_ok fs e)"
    using r(6) by (auto simp: check_windowing_def check_time_field_ok res_bind_Inr_iff split: option.splits)
  moreover have "equality_deletes_ok src ix"
    using classify_ok [OF prod.collapse [symmetric], of "ss_equality_delete_fields src" key fs]
    unfolding equality_deletes_ok_def Let_def ix .
  ultimately show ?thesis
    using key_resolve_ok [OF r(1)] mapping_resolve_shape [OF r(2)] r(3) ix(5)
    unfolding resolved_ok_def ix list_all_iff by blast
qed

subsection \<open>What an alter plan looks at\<close>

lemma note_simps [simp]:
  "ap_reindex_reasons (note_reindex c r p) = ap_reindex_reasons p @ (if c then [r] else [])"
  "ap_in_place (note_reindex c r p) = ap_in_place p"
  "ap_reindex_reasons (note_in_place c r p) = ap_reindex_reasons p"
  "ap_in_place (note_in_place c r p) = ap_in_place p @ (if c then [r] else [])"
  by (simp_all add: note_reindex_def note_in_place_def)

text \<open>What the segments of an index physically hold of a field, and what is only declared of it.\<close>

definition stored_part :: "resolved_field \<Rightarrow> _" where
  "stored_part f = (rf_ty f, rf_analyzer f, rf_record f, rf_fieldnorms f, rf_fast f, rf_indexed f, rf_cached f,
                    rf_vector f, rf_variant f)"

definition declared_part :: "resolved_field \<Rightarrow> bool \<times> nat option" where
  "declared_part f = (rf_sensitive f, rf_max_bytes f)"

definition same_parts :: "(resolved_field \<Rightarrow> 'a) \<Rightarrow> resolved_index \<Rightarrow> resolved_index \<Rightarrow> string \<Rightarrow> bool" where
  "same_parts part old new p \<longleftrightarrow>
     map_option part (find_field (ri_fields old) p) = map_option part (find_field (ri_fields new) p)"

lemma diff_field_reasons:
  "ap_reindex_reasons (diff_field p a b plan) = [] \<longleftrightarrow> ap_reindex_reasons plan = [] \<and> stored_part a = stored_part b"
  "ap_in_place (diff_field p a b plan) = [] \<longleftrightarrow> ap_in_place plan = [] \<and> declared_part a = declared_part b"
  by (auto simp: diff_field_def stored_part_def declared_part_def)

definition both_present :: "resolved_index \<Rightarrow> resolved_index \<Rightarrow> string \<Rightarrow> bool" where
  "both_present old new p \<longleftrightarrow> find_field (ri_fields old) p \<noteq> None \<and> find_field (ri_fields new) p \<noteq> None"

lemma alter_path_reasons:
  "ap_reindex_reasons (alter_path old new p plan) = [] \<longleftrightarrow>
     ap_reindex_reasons plan = [] \<and> same_parts stored_part old new p"
  "ap_in_place (alter_path old new p plan) = [] \<longleftrightarrow>
     ap_in_place plan = [] \<and> (both_present old new p \<longrightarrow> same_parts declared_part old new p)"
  by (auto simp: alter_path_def same_parts_def both_present_def diff_field_reasons split: option.splits)

lemma fold_alter_path:
  "ap_reindex_reasons (fold (alter_path old new) ps plan) = [] \<longleftrightarrow>
     ap_reindex_reasons plan = [] \<and> (\<forall>p \<in> set ps. same_parts stored_part old new p)"
  "ap_in_place (fold (alter_path old new) ps plan) = [] \<longleftrightarrow>
     ap_in_place plan = [] \<and> (\<forall>p \<in> set ps. both_present old new p \<longrightarrow> same_parts declared_part old new p)"
  by (induction ps arbitrary: plan) (auto simp: alter_path_reasons)

lemma find_field_None: "find_field fs p = None \<longleftrightarrow> p \<notin> rf_path ` set fs"
  by (auto simp: find_field_def find_None_iff)

lemma same_parts_outside:
  "p \<notin> rf_path ` set (ri_fields old @ ri_fields new) \<Longrightarrow> same_parts part old new p"
  using find_field_None [of "ri_fields old" p] find_field_None [of "ri_fields new" p]
  by (auto simp: same_parts_def image_Un)

text \<open>The parts of two definitions on which the plan rests.\<close>

definition same_stored :: "resolved_index \<Rightarrow> resolved_index \<Rightarrow> bool" where
  "same_stored old new \<longleftrightarrow> ri_source old = ri_source new \<and> ri_shard_count old = ri_shard_count new \<and>
     ri_key old = ri_key new \<and> (\<forall>p. same_parts stored_part old new p)"

lemma key_eq: "(a :: resolved_key) = b \<longleftrightarrow>
    rk_partition_fields a = rk_partition_fields b \<and> rk_identifier_fields a = rk_identifier_fields b"
  by (cases a; cases b) simp

lemma same_parts_everywhere:
  "(\<forall>p. same_parts part old new p) \<longleftrightarrow>
     (\<forall>p \<in> rf_path ` set (ri_fields old @ ri_fields new). same_parts part old new p)"
  using same_parts_outside [of _ old new part] by blast

lemma alter_reindex: "\<not> requires_reindex (alter_to old new) \<longleftrightarrow> same_stored old new"
  unfolding same_stored_def same_parts_everywhere key_eq
  by (auto simp: requires_reindex_def alter_to_def fold_alter_path split: if_splits)

lemma alter_noop:
  "is_noop (alter_to old new) \<longleftrightarrow>
     same_stored old new \<and> ri_name old = ri_name new \<and> (\<forall>p. same_parts declared_part old new p)"
proof -
  have i: "ap_in_place (alter_to old new) = [] \<longleftrightarrow> ri_name old = ri_name new \<and>
      (\<forall>p \<in> rf_path ` set (ri_fields old @ ri_fields new).
         both_present old new p \<longrightarrow> same_parts declared_part old new p)"
    by (auto simp: alter_to_def fold_alter_path split: if_splits)
  have "same_parts declared_part old new p"
    if "same_stored old new" "both_present old new p \<longrightarrow> same_parts declared_part old new p" for p
  proof (cases "both_present old new p")
    case False
    have "same_parts stored_part old new p" using that(1) by (simp add: same_stored_def)
    with False show ?thesis
      by (cases "find_field (ri_fields old) p"; cases "find_field (ri_fields new) p")
         (auto simp: same_parts_def both_present_def)
  qed (use that in simp)
  with i alter_reindex [of old new] show ?thesis
    unfolding is_noop_def requires_reindex_def same_parts_everywhere [of declared_part] by blast
qed

lemma find_field_map:
  assumes "\<And>f. rf_path (g f) = rf_path f" and "\<And>f. part (g f) = part f"
  shows "map_option part (find_field (map g fs) p) = map_option part (find_field fs p)"
  using assms by (induction fs) (auto simp: find_field_def)

subsection \<open>Properties\<close>

text \<open>C37. Resolution delivers what its checks promise. When a definition resolves, its key has identifier
  fields and only existing, non-float columns; every field has an embedding configuration exactly when it is
  a vector, with positive dimension and a mapped text source, a timestamp format only on a date, text options
  only on text; a field that is not indexed is a fast column of a non-string type; nothing sensitive or over
  the size cap is cached; the tenant field is a mapped keyword; the window fields are mapped fast dates; and
  deletes by key are chosen exactly when the equality-delete columns lie in the key.\<close>

theorem resolve_sound:
  assumes "resolve d src = Inr ix"
  shows "resolved_ok src ix"
  by (rule resolve_ok [OF assms])

definition demo_schema :: source_schema where
  "demo_schema = new_source_schema
     [\<lparr>sf_path = ''id'', sf_ty = SLong\<rparr>, \<lparr>sf_path = ''body'', sf_ty = SString\<rparr>,
      \<lparr>sf_path = ''org'', sf_ty = SString\<rparr>, \<lparr>sf_path = ''ts'', sf_ty = SLong\<rparr>] [] [''id'']"

definition plain_mapping :: "string \<Rightarrow> field_mapping" where
  "plain_mapping p = FieldMapping p None None None False None None None False False False None None None"

definition demo_definition :: index_definition where
  "demo_definition = \<lparr>id_name = ''docs'',
     id_source = Iceberg \<lparr>is_catalog = ''c'', is_table = ''ns.t'', is_scan = Changelog\<rparr>,
     id_key = \<lparr>ks_partition_fields = [], ks_identifier_fields = []\<rparr>,
     id_mapping = \<lparr>mp_selection = All, mp_fields =
       [FieldMapping ''org'' (Some TKeyword) None None False None None None False False False None None None,
        FieldMapping ''ts'' None None (Some EpochMillis) True None None None False False False None None None],
       mp_exclude = []\<rparr>,
     id_shard_count = 0, id_tenant_field = Some ''org'', id_windowing = Some (new_windowing ''ts'' Daily)\<rparr>"

lemma demo_resolves: "\<exists>ix. resolve demo_definition demo_schema = Inr ix \<and> ri_shard_count ix = 1"
  by (simp add: resolve_def demo_definition_def demo_schema_def new_source_schema_def key_resolve_def
        schema_field_def mapping_resolve_def check_mapping_entry_def has_field_def resolve_source_field_def
        resolve_field_def is_text_def check_field_policy_def check_vector_source_def check_tenant_field_def
        find_field_def check_windowing_def check_time_field_def new_windowing_def classify_equality_deletes_def
        Let_def)

theorem resolve_sound_witness:
  "resolved_ok demo_schema (projr (resolve demo_definition demo_schema))"
proof -
  obtain ix where ix: "resolve demo_definition demo_schema = Inr ix" using demo_resolves by blast
  from resolve_sound [OF ix] ix show ?thesis by simp
qed

text \<open>C39. A path declared by several shapes of a variant column has one type and becomes one field: the leaf
  fields a variant column adds have distinct paths, and each path a shape extracts is the path of such a leaf
  with that very type.\<close>

theorem variant_shapes_agree:
  assumes "resolve_variant_field f = Inr (v # leaves)" and "rf_variant v = Some rv"
  shows "distinct (map rf_path leaves) \<and>
         (\<forall>s p t. s \<in> set (rv_shapes rv) \<and> (p, t) \<in> set (rs_paths s) \<longrightarrow>
            (\<exists>!r. r \<in> set leaves \<and> rf_path r = p) \<and> (\<exists>r. r \<in> set leaves \<and> rf_path r = p \<and> rf_ty r = t))"
proof -
  obtain shapes where v: "v = variant_field (fm_path f) (variant_opts f) shapes"
    and s: "resolve_shapes (fm_path f) (vm_shapes (variant_opts f)) [] [] = Inr (leaves, shapes)"
    by (rule resolve_variant_field_Inr [OF assms(1)]) auto
  have rv: "rv_shapes rv = shapes" using assms(2) v by (simp add: variant_field_def) (metis resolved_variant.select_convs(3))
  note ok = resolve_shapes_ok [OF s leaves_ok_Nil]
  have d: "distinct (map rf_path leaves)" using ok by blast
  have "\<exists>r. r \<in> set leaves \<and> rf_path r = p \<and> rf_ty r = t"
    if "x \<in> set (rv_shapes rv)" "(p, t) \<in> set (rs_paths x)" for x p t
    using ok that unfolding rv leaf_sig_def by fastforce
  with d show ?thesis by (metis distinct_map inj_onD)
qed


definition demo_variant :: field_mapping where
  "demo_variant = FieldMapping ''payload'' (Some TVariant) None None False None None None False False False None None
     (Some (VariantMappingOpts default_flatten (Some ''kind'')
        [VariantShape ''a'' [''x''] [plain_mapping ''amount''],
         VariantShape ''b'' [''y''] [plain_mapping ''amount'', plain_mapping ''note'']]))"

lemma demo_variant_resolves:
  "\<exists>v leaves rv. resolve_variant_field demo_variant = Inr (v # leaves) \<and> rf_variant v = Some rv \<and>
     map rf_path leaves = [''payload.amount'', ''payload.note''] \<and> length (rv_shapes rv) = 2"
  by (simp add: resolve_variant_field_def demo_variant_def variant_opts_def default_flatten_def flatten_indexes_def
        Let_def plain_mapping_def dotted_def resolve_leaf_def resolve_field_def is_text_def variant_field_def)

theorem variant_shapes_agree_witness:
  "\<exists>v leaves rv. resolve_variant_field demo_variant = Inr (v # leaves) \<and> rf_variant v = Some rv \<and>
     length (rv_shapes rv) = 2 \<and> distinct (map rf_path leaves)"
proof -
  obtain v leaves rv where d: "resolve_variant_field demo_variant = Inr (v # leaves)" "rf_variant v = Some rv"
    "length (rv_shapes rv) = 2"
    using demo_variant_resolves by blast
  from variant_shapes_agree [OF d(1,2)] d show ?thesis by blast
qed


text \<open>C40. The plan is blind to four declarations: changing the tenant field or the windowing of an index in any
  way, or the timestamp format or the suggest flag of every field, yields the empty plan, although the
  definitions differ.\<close>

theorem alter_ignores_tenant_and_windowing:
  "is_noop (alter_to ix (ix\<lparr>ri_tenant_field := t, ri_windowing := w,
      ri_fields := map (\<lambda>f. f\<lparr>rf_format := fmt (rf_path f), rf_suggest := sug (rf_path f)\<rparr>) (ri_fields ix)\<rparr>))"
  by (simp add: alter_noop same_stored_def same_parts_def find_field_map [where part = stored_part] find_field_map [where part = declared_part]
        stored_part_def declared_part_def)

definition nested_variant :: field_mapping where
  "nested_variant = FieldMapping ''payload'' (Some TVariant) None None False None None None False False False None None
     (Some (VariantMappingOpts default_flatten (Some ''kind'') [VariantShape ''a'' [''x'']
        [FieldMapping ''inner'' (Some TVariant) None None False None None None False False False None None None]]))"

text \<open>A shape leaf declared as a variant without a configuration is accepted: it resolves to a field of
  type variant that carries no variant configuration, which the resolved definition says cannot be.\<close>

lemma variant_leaf_without_config:
  "\<exists>v r. resolve_variant_field nested_variant = Inr [v, r] \<and> rf_ty r = TVariant \<and> rf_variant r = None"
  by (simp add: resolve_variant_field_def nested_variant_def variant_opts_def default_flatten_def flatten_indexes_def
        Let_def dotted_def resolve_leaf_def resolve_field_def is_text_def variant_field_def)

text \<open>The wire form of a flatten configuration keeps it, up to the settings of a disabled one.\<close>

lemma flatten_wire_round_trip:
  "flatten_from_wire (flatten_to_wire c) =
     (if fl_enabled c then c else \<lparr>fl_enabled = False, fl_terms = False, fl_text = False, fl_analyzer = None\<rparr>)"
  by (cases c) (simp add: flatten_to_wire_def)

lemma source_wire_round_trip: "source_try_from (source_to_wire s) = Some s"
  by (cases s) (simp add: source_try_from_def)

text \<open>A valid name is one path component.\<close>

lemma valid_index_name:
  assumes "validate_index_name n = Inr ()"
  shows "n \<noteq> [] \<and> CHR ''/'' \<notin> set n \<and> CHR ''.'' \<notin> set n"
proof -
  let ?ok = "\<lambda>b. is_ascii_alphanumeric b \<or> b = CHR ''_'' \<or> b = CHR ''-''"
  have "\<forall>b \<in> set n. ?ok b" "n \<noteq> []"
    using assms by (auto simp: validate_index_name_def list_all_iff split: if_splits)
  moreover have "\<not> ?ok (CHR ''/'')" "\<not> ?ok (CHR ''.'')"
    by (simp_all add: is_ascii_alphanumeric_def is_ascii_digit_def)
  ultimately show ?thesis by blast
qed

end
