(* ===== verification/Registry.thy ===== *)
theory Registry
  imports Index_Def Durable "HOL-Library.Product_Lexorder"
begin

section \<open>The control plane's registry\<close>

text \<open>
  Models \<open>growlerdb-controlplane/src/registry.rs\<close> except its placement pool (theory \<open>Placement\<close>): the durable
  catalog of indexes, aliases, saved searches, role and index bindings, tokens and credentials, the sidecars
  (activity log, session epochs, reindex jobs), and the persist-or-roll-back discipline every mutation goes
  through.

  A \<open>registry\<close> holds the seven core maps in memory (\<open>r_core\<close>) and what the backend durably holds (\<open>r_store\<close>).
  An operation returns the registry after it and a result, because a failed operation may leave a changed
  registry behind. How the backend answers is the argument \<open>io\<close>: a persist succeeds, is refused, or fails
  after the write took effect (the last step of a durable write can fail after the rename); a load succeeds
  or fails. Wall-clock readings are arguments. Password hashing (argon2) and the hash behind the placement
  fingerprint are parameters. Locks are not modelled: each operation is one step, as the write locks and the
  flush lock make it for one caller. Counters are unbounded.
\<close>

subsection \<open>Data\<close>

datatype index_status = Building | Active

datatype place_unit = ShardUnit nat | WindowUnit int

record shard_assignment =
  sa_primary :: "string option"
  sa_replicas :: "string list"

definition empty_assignment :: shard_assignment where
  "empty_assignment = \<lparr>sa_primary = None, sa_replicas = []\<rparr>"

definition is_assigned :: "shard_assignment \<Rightarrow> bool" where
  "is_assigned a \<longleftrightarrow> sa_primary a \<noteq> None"

definition assignment_nodes :: "shard_assignment \<Rightarrow> string list" where
  "assignment_nodes a = (case sa_primary a of None \<Rightarrow> [] | Some p \<Rightarrow> [p]) @ sa_replicas a"

record window_assignment =
  wa_assignment :: shard_assignment
  wa_event_min :: "int option"
  wa_event_max :: "int option"
  wa_cold :: bool

definition empty_window :: window_assignment where
  "empty_window = \<lparr>wa_assignment = empty_assignment, wa_event_min = None, wa_event_max = None, wa_cold = False\<rparr>"

record index_entry =
  ie_definition :: resolved_index
  ie_status :: index_status
  ie_shards :: "(nat, shard_assignment) btree"
  ie_windows :: "(int, window_assignment) btree"
  ie_bucket_owners :: "nat list"
  ie_generation :: nat
  ie_definition_version :: nat

record api_token =
  tk_id :: string
  tk_label :: string
  tk_prefix :: string
  tk_hash :: string
  tk_roles :: "string list"
  tk_owner :: string
  tk_created_at_ms :: int
  tk_expires_at_ms :: "int option"

definition is_expired :: "api_token \<Rightarrow> int \<Rightarrow> bool" where
  "is_expired t now \<longleftrightarrow> (case tk_expires_at_ms t of None \<Rightarrow> False | Some e \<Rightarrow> e \<le> now)"

record saved_query =
  sq_id :: string
  sq_name :: string
  sq_owner :: string
  sq_query :: string
  sq_state :: string
  sq_shared :: bool
  sq_created_at_ms :: int

record activity_event =
  ev_ts_ms :: int
  ev_kind :: string
  ev_message :: string

datatype job_kind = ReindexKind | AlterKind

datatype job_state = JPending | JBuilding | JCatchingUp | JCuttingOver | JDone | JFailed | JCanceled

definition is_terminal :: "job_state \<Rightarrow> bool" where
  "is_terminal s \<longleftrightarrow> s = JDone \<or> s = JFailed \<or> s = JCanceled"

datatype shard_phase = PPending | PBuilding | PBuilt | PPromoting | PPromoted | PDiscarded

record shard_job_status =
  js_ordinal :: nat
  js_window :: int
  js_node :: string
  js_phase :: shard_phase
  js_docs_done :: nat
  js_docs_total :: nat

record reindex_job =
  jb_id :: string
  jb_index :: string
  jb_kind :: job_kind
  jb_state :: job_state
  jb_shards :: "shard_job_status list"
  jb_generation :: nat
  jb_cancel_requested :: bool
  jb_error :: string
  jb_created_ms :: int
  jb_updated_ms :: int

definition job_docs_done :: "reindex_job \<Rightarrow> nat" where
  "job_docs_done j = sum_list (map js_docs_done (jb_shards j))"

definition job_docs_total :: "reindex_job \<Rightarrow> nat" where
  "job_docs_total j = sum_list (map js_docs_total (jb_shards j))"

text \<open>What a refused placement change reports; the code renders it as a message.\<close>

datatype conflict =
    HeldBy string place_unit string
  | BucketMapChanged string
  | GenerationChanged string
  | DefinitionChanged string

datatype registry_error =
    AlreadyExists string
  | InvalidDefinition def_error
  | PlacementConflict conflict
  | NotFound string
  | NoReplica string nat
  | PrimaryStillAssigned string nat string
  | NoLiveNode string place_unit
  | EntitlementExceeded nat nat
  | Locked string
  | Io io_error
  | Backend string
  | NotLeader string
  | Codec string
  | AliasNameClash string
  | AliasNotFound string
  | SavedQueryNotFound string
  | JobNotFound string
  | InvalidBucketMap bucket_map_error
  | Credential string

subsection \<open>State\<close>

record core =
  c_indexes :: "(string, index_entry) btree"
  c_aliases :: "(string, string bset) btree"
  c_saved_queries :: "(string, saved_query) btree"
  c_role_bindings :: "(string, string list) btree"
  c_tokens :: "(string, api_token) btree"
  c_credentials :: "(string, string) btree"
  c_index_bindings :: "(string, string list) btree"

definition empty_core :: core where
  "empty_core = \<lparr>c_indexes = [], c_aliases = [], c_saved_queries = [], c_role_bindings = [], c_tokens = [],
     c_credentials = [], c_index_bindings = []\<rparr>"

record registry =
  r_core :: core
  r_store :: core
  r_token_by_hash :: "(string \<times> string) list"
  r_next_saved :: nat
  r_next_token :: nat
  r_next_job :: nat
  r_activity :: "(string, activity_event list) btree"
  r_stored_activity :: "(string, activity_event list) btree"
  r_activity_last_flush_ms :: int
  r_activity_dirty :: bool
  r_session_epochs :: "(string, int) btree"
  r_stored_epochs :: "(string, int) btree"
  r_jobs :: "(string, reindex_job) btree"
  r_stored_jobs :: "(string, reindex_job) btree"
  r_rollback_failed :: bool
  r_node_pool :: "(string, int) btree"
  r_replica_capable :: "string bset"
  r_pool_eligible :: "string bset"
  r_grace_anchor_ms :: int
  r_last_placement_hash :: "64 word"
  r_notifications :: nat

type_synonym 'a reg_result = "registry \<times> (registry_error + 'a)"

text \<open>How the backend answers: a write that is done, refused, or done but reported as failed; a load that
  works or fails.\<close>

datatype persist_answer = Persisted | Refused registry_error | Unconfirmed registry_error

type_synonym placement_row = "string \<times> place_unit \<times> string option \<times> string list"

record backend_io =
  io_persist :: persist_answer
  io_load :: "registry_error option"
  io_sidecar :: persist_answer
  io_hash :: "placement_row list \<Rightarrow> 64 word"

subsection \<open>Persist, roll back, reload\<close>

definition placement_rows :: "(string, index_entry) btree \<Rightarrow> placement_row list" where
  "placement_rows ixs =
     concat (map (\<lambda>(name, e).
       map (\<lambda>(k, a). (name, ShardUnit k, sa_primary a, sa_replicas a)) (ie_shards e) @
       map (\<lambda>(w, a). (name, WindowUnit w, sa_primary (wa_assignment a), sa_replicas (wa_assignment a)))
         (ie_windows e)) ixs)"

definition placement_hash :: "backend_io \<Rightarrow> (string, index_entry) btree \<Rightarrow> 64 word" where
  "placement_hash io ixs = io_hash io (placement_rows ixs)"

definition notify_if_placement_changed :: "backend_io \<Rightarrow> registry \<Rightarrow> registry" where
  "notify_if_placement_changed io reg =
     (let h = placement_hash io (c_indexes (r_core reg)) in
      if r_last_placement_hash reg = h then reg
      else reg\<lparr>r_last_placement_hash := h, r_notifications := r_notifications reg + 1\<rparr>)"

definition token_index :: "(string, api_token) btree \<Rightarrow> (string \<times> string) list" where
  "token_index tokens = fold (\<lambda>(i, t) m. (tk_hash t, i) # m) tokens []"

definition rebuild_token_index :: "registry \<Rightarrow> registry" where
  "rebuild_token_index reg = reg\<lparr>r_token_by_hash := token_index (c_tokens (r_core reg))\<rparr>"

definition restore_core :: "backend_io \<Rightarrow> registry \<Rightarrow> unit reg_result" where
  "restore_core io reg =
     (case io_load io of
        Some e \<Rightarrow> (reg, Inl e)
      | None \<Rightarrow> (rebuild_token_index (reg\<lparr>r_core := r_store reg\<rparr>), Inr ()))"

definition roll_back :: "backend_io \<Rightarrow> registry_error \<Rightarrow> registry \<Rightarrow> unit reg_result" where
  "roll_back io e reg =
     (case restore_core io reg of
        (reg', Inl _) \<Rightarrow> (reg'\<lparr>r_rollback_failed := True\<rparr>, Inl e)
      | (reg', Inr _) \<Rightarrow> (notify_if_placement_changed io reg', Inl e))"

definition persist_snapshot :: "backend_io \<Rightarrow> registry \<Rightarrow> unit reg_result" where
  "persist_snapshot io reg =
     (if r_rollback_failed reg then
        (case restore_core io reg of
           (reg', Inl e) \<Rightarrow> (reg', Inl e)
         | (reg', Inr _) \<Rightarrow>
             (notify_if_placement_changed io (reg'\<lparr>r_rollback_failed := False\<rparr>),
              Inl (Backend ''registry memory was rolled back after an earlier persist failure; retry'')))
      else
        (case io_persist io of
           Persisted \<Rightarrow> (notify_if_placement_changed io (reg\<lparr>r_store := r_core reg\<rparr>), Inr ())
         | Refused e \<Rightarrow> roll_back io e reg
         | Unconfirmed e \<Rightarrow> roll_back io e (reg\<lparr>r_store := r_core reg\<rparr>)))"

text \<open>A mutation of the core maps, then its persist; the value is returned when the persist succeeds.\<close>

definition commit :: "backend_io \<Rightarrow> registry \<Rightarrow> 'a \<Rightarrow> 'a reg_result" where
  "commit io reg x =
     (case persist_snapshot io reg of (reg', Inl e) \<Rightarrow> (reg', Inl e) | (reg', Inr _) \<Rightarrow> (reg', Inr x))"

definition fail_job :: "reindex_job \<Rightarrow> reindex_job" where
  "fail_job j =
     (if is_terminal (jb_state j) then j
      else j\<lparr>jb_state := JFailed, jb_error := ''control plane restarted during the job''\<rparr>)"

text \<open>A full load brings the core maps, the activity log, the session epochs and the jobs.\<close>

record persisted =
  ps_core :: core
  ps_activity :: "(string, activity_event list) btree"
  ps_session_epochs :: "(string, int) btree"
  ps_jobs :: "(string, reindex_job) btree"

definition with_backend :: "backend_io \<Rightarrow> persisted \<Rightarrow> registry" where
  "with_backend io s =
     \<lparr>r_core = ps_core s, r_store = ps_core s, r_token_by_hash = token_index (c_tokens (ps_core s)),
      r_next_saved = 0, r_next_token = 0, r_next_job = 0, r_activity = ps_activity s,
      r_stored_activity = ps_activity s, r_activity_last_flush_ms = 0, r_activity_dirty = False,
      r_session_epochs = ps_session_epochs s, r_stored_epochs = ps_session_epochs s,
      r_jobs = bt_map_values fail_job (ps_jobs s), r_stored_jobs = ps_jobs s, r_rollback_failed = False, r_node_pool = [],
      r_replica_capable = [], r_pool_eligible = [], r_grace_anchor_ms = - 1,
      r_last_placement_hash = placement_hash io (c_indexes (ps_core s)), r_notifications = 0\<rparr>"

definition reload :: "backend_io \<Rightarrow> persisted \<Rightarrow> registry \<Rightarrow> unit reg_result" where
  "reload io s reg =
     (case io_load io of
        Some e \<Rightarrow> (reg, Inl e)
      | None \<Rightarrow>
          (notify_if_placement_changed io
             ((rebuild_token_index (reg\<lparr>r_core := ps_core s, r_store := ps_core s, r_activity := ps_activity s,
                  r_stored_activity := ps_activity s, r_session_epochs := ps_session_epochs s, r_stored_epochs := ps_session_epochs s,
                  r_jobs := bt_map_values fail_job (ps_jobs s), r_stored_jobs := ps_jobs s\<rparr>))\<lparr>r_rollback_failed := False\<rparr>), Inr ()))"


subsection \<open>Indexes and aliases\<close>

abbreviation set_indexes :: "(string, index_entry) btree \<Rightarrow> registry \<Rightarrow> registry" where
  "set_indexes m reg \<equiv> reg\<lparr>r_core := (r_core reg)\<lparr>c_indexes := m\<rparr>\<rparr>"

abbreviation put_entry :: "string \<Rightarrow> index_entry \<Rightarrow> registry \<Rightarrow> registry" where
  "put_entry index e reg \<equiv> set_indexes (bt_insert index e (c_indexes (r_core reg))) reg"

definition new_entry :: "resolved_index \<Rightarrow> index_entry" where
  "new_entry d = \<lparr>ie_definition = d, ie_status = Building, ie_shards = [], ie_windows = [],
     ie_bucket_owners = [], ie_generation = 0, ie_definition_version = 0\<rparr>"

definition create :: "backend_io \<Rightarrow> resolved_index \<Rightarrow> registry \<Rightarrow> unit reg_result" where
  "create io d reg =
     (case validate_index_name (ri_name d) of
        Inl e \<Rightarrow> (reg, Inl (InvalidDefinition e))
      | Inr _ \<Rightarrow>
          if bt_contains (c_indexes (r_core reg)) (ri_name d) then (reg, Inl (AlreadyExists (ri_name d)))
          else commit io (set_indexes (bt_insert (ri_name d) (new_entry d) (c_indexes (r_core reg))) reg) ())"

definition activate :: "backend_io \<Rightarrow> string \<Rightarrow> registry \<Rightarrow> unit reg_result" where
  "activate io name reg =
     (case bt_get (c_indexes (r_core reg)) name of
        None \<Rightarrow> (reg, Inl (NotFound name))
      | Some e \<Rightarrow>
          if ie_status e = Active then (reg, Inr ())
          else commit io (set_indexes (bt_insert name (e\<lparr>ie_status := Active\<rparr>) (c_indexes (r_core reg))) reg) ())"

definition prune_aliases :: "string \<Rightarrow> (string, string bset) btree \<Rightarrow> (string, string bset) btree" where
  "prune_aliases name m = bt_retain (\<lambda>_ ts. ts \<noteq> []) (bt_map_values (bs_remove name) m)"

definition drop_index :: "backend_io \<Rightarrow> string \<Rightarrow> registry \<Rightarrow> resolved_index reg_result" where
  "drop_index io name reg =
     (case bt_get (c_indexes (r_core reg)) name of
        None \<Rightarrow> (reg, Inl (NotFound name))
      | Some e \<Rightarrow>
          commit io (reg\<lparr>r_core := (r_core reg)\<lparr>c_indexes := bt_remove name (c_indexes (r_core reg)),
                                          c_aliases := prune_aliases name (c_aliases (r_core reg))\<rparr>\<rparr>)
            (ie_definition e))"

definition set_alias :: "backend_io \<Rightarrow> string \<Rightarrow> string list \<Rightarrow> registry \<Rightarrow> unit reg_result" where
  "set_alias io alias ts reg =
     (let ts = bs_of_list ts; ixs = c_indexes (r_core reg) in
      if bt_contains ixs alias then (reg, Inl (AliasNameClash alias))
      else (case find (\<lambda>t. \<not> bt_contains ixs t) ts of
              Some t \<Rightarrow> (reg, Inl (NotFound t))
            | None \<Rightarrow>
                commit io (reg\<lparr>r_core := (r_core reg)\<lparr>c_aliases := bt_insert alias ts (c_aliases (r_core reg))\<rparr>\<rparr>) ()))"

definition drop_alias :: "backend_io \<Rightarrow> string \<Rightarrow> registry \<Rightarrow> unit reg_result" where
  "drop_alias io alias reg =
     (if \<not> bt_contains (c_aliases (r_core reg)) alias then (reg, Inl (AliasNotFound alias))
      else commit io (reg\<lparr>r_core := (r_core reg)\<lparr>c_aliases := bt_remove alias (c_aliases (r_core reg))\<rparr>\<rparr>) ())"

definition alias_targets :: "registry \<Rightarrow> string \<Rightarrow> string list option" where
  "alias_targets reg alias = bt_get (c_aliases (r_core reg)) alias"

text \<open>The interior literals of a glob, each searched for in what is left of the window; the window starts
  after the prefix and is cut before the suffix.\<close>

fun glob_interior :: "string list \<Rightarrow> string \<Rightarrow> bool" where
  "glob_interior [] w = True"
| "glob_interior (mid # mids) w =
     (if mid = [] then glob_interior mids w
      else (case find_sub mid w of
              Some i \<Rightarrow> glob_interior mids (drop (i + length mid) w)
            | None \<Rightarrow> False))"

definition ends_with :: "string \<Rightarrow> string \<Rightarrow> bool" where
  "ends_with s p \<longleftrightarrow> length p \<le> length s \<and> drop (length s - length p) s = p"

definition glob_match :: "string \<Rightarrow> string \<Rightarrow> bool" where
  "glob_match pattern name =
     (let parts = split_char (CHR ''*'') pattern in
      if length parts = 1 then pattern = name
      else
        (let first = hd parts; last' = last parts in
         if \<not> is_prefix_of first name \<or> \<not> ends_with name last' then False
         else
           (let pos = length first; end' = length name - length last' in
            if end' < pos then False
            else glob_interior (butlast (List.tl parts)) (drop pos (take end' name)))))"

definition resolve_name :: "registry \<Rightarrow> string \<Rightarrow> string list" where
  "resolve_name reg name =
     (case bt_get (c_aliases (r_core reg)) name of
        Some ts \<Rightarrow> ts
      | None \<Rightarrow>
          if bt_contains (c_indexes (r_core reg)) name then [name]
          else if CHR ''*'' \<in> set name then filter (glob_match name) (bt_keys (c_indexes (r_core reg)))
          else [])"

definition get_entry :: "registry \<Rightarrow> string \<Rightarrow> index_entry option" where
  "get_entry reg name = bt_get (c_indexes (r_core reg)) name"

definition list_indexes :: "registry \<Rightarrow> (string \<times> index_status) list" where
  "list_indexes reg = map (\<lambda>(n, e). (n, ie_status e)) (c_indexes (r_core reg))"

subsection \<open>Saved searches\<close>

definition list_saved_queries :: "registry \<Rightarrow> string \<Rightarrow> saved_query list" where
  "list_saved_queries reg owner' =
     sort_key (\<lambda>q. - sq_created_at_ms q)
       (filter (\<lambda>q. sq_owner q = owner' \<or> sq_shared q) (bt_values (c_saved_queries (r_core reg))))"

definition saved_id :: "int \<Rightarrow> nat \<Rightarrow> string" where
  "saved_id now n = ''sq-'' @ show_int now @ ''-'' @ show_nat n"

abbreviation set_saved :: "(string, saved_query) btree \<Rightarrow> registry \<Rightarrow> registry" where
  "set_saved m reg \<equiv> reg\<lparr>r_core := (r_core reg)\<lparr>c_saved_queries := m\<rparr>\<rparr>"

definition save_saved_query ::
    "backend_io \<Rightarrow> int \<Rightarrow> int \<Rightarrow> saved_query \<Rightarrow> string \<Rightarrow> registry \<Rightarrow> saved_query reg_result" where
  "save_saved_query io now_id now_created q owner' reg =
     (let saved = c_saved_queries (r_core reg) in
      if sq_id q = [] then
        (let i = saved_id now_id (r_next_saved reg);
             q' = q\<lparr>sq_id := i, sq_owner := owner', sq_created_at_ms := now_created\<rparr> in
         commit io (set_saved (bt_insert i q' saved) (reg\<lparr>r_next_saved := r_next_saved reg + 1\<rparr>)) q')
      else
        (case bt_get saved (sq_id q) of
           None \<Rightarrow> (reg, Inl (SavedQueryNotFound (sq_id q)))
         | Some existing \<Rightarrow>
             if sq_owner existing = owner' then
               (let q' = q\<lparr>sq_owner := owner', sq_created_at_ms := sq_created_at_ms existing\<rparr> in
                commit io (set_saved (bt_insert (sq_id q) q' saved) reg) q')
             else (reg, Inl (SavedQueryNotFound (sq_id q)))))"

definition delete_saved_query :: "backend_io \<Rightarrow> string \<Rightarrow> string \<Rightarrow> registry \<Rightarrow> unit reg_result" where
  "delete_saved_query io i owner' reg =
     (case bt_get (c_saved_queries (r_core reg)) i of
        None \<Rightarrow> (reg, Inl (SavedQueryNotFound i))
      | Some q \<Rightarrow>
          if sq_owner q = owner' then
            commit io (set_saved (bt_remove i (c_saved_queries (r_core reg))) reg) ()
          else (reg, Inl (SavedQueryNotFound i)))"


subsection \<open>Session epochs\<close>

definition session_epoch :: "registry \<Rightarrow> string \<Rightarrow> int" where
  "session_epoch reg subject = (case bt_get (r_session_epochs reg) subject of None \<Rightarrow> 0 | Some e \<Rightarrow> e)"

text \<open>The bump is undone in memory when its persist fails. With an unconfirmed write the store keeps it.\<close>

definition revoke_sessions :: "backend_io \<Rightarrow> int \<Rightarrow> string \<Rightarrow> registry \<Rightarrow> unit reg_result" where
  "revoke_sessions io now subject reg =
     (let prior = bt_get (r_session_epochs reg) subject;
          bumped = bt_insert subject now (r_session_epochs reg);
          undone = (case prior of Some p \<Rightarrow> bt_insert subject p bumped | None \<Rightarrow> bt_remove subject bumped) in
      case io_sidecar io of
        Persisted \<Rightarrow> (reg\<lparr>r_session_epochs := bumped, r_stored_epochs := bumped\<rparr>, Inr ())
      | Refused e \<Rightarrow> (reg\<lparr>r_session_epochs := undone\<rparr>, Inl e)
      | Unconfirmed e \<Rightarrow> (reg\<lparr>r_session_epochs := undone, r_stored_epochs := bumped\<rparr>, Inl e))"

text \<open>Sequencing of two fallible operations: the second runs on the registry the first left, if it succeeded.\<close>

definition reg_then :: "'a reg_result \<Rightarrow> (registry \<Rightarrow> 'b reg_result) \<Rightarrow> 'b reg_result" where
  "reg_then r f = (case r of (reg, Inl e) \<Rightarrow> (reg, Inl e) | (reg, Inr _) \<Rightarrow> f reg)"

subsection \<open>Role bindings and index allowlists\<close>

fun dedup_trimmed :: "string list \<Rightarrow> string list \<Rightarrow> string list" where
  "dedup_trimmed acc [] = acc"
| "dedup_trimmed acc (r # rs) =
     (let r = trim r in
      dedup_trimmed (if r \<noteq> [] \<and> r \<notin> set acc then acc @ [r] else acc) rs)"

definition bind_subject :: "string \<Rightarrow> string list \<Rightarrow> (string, string list) btree \<Rightarrow> (string, string list) btree" where
  "bind_subject subject vs m = (if vs = [] then bt_remove subject m else bt_insert subject vs m)"

definition lookup_binding :: "(string, string list) btree \<Rightarrow> string \<Rightarrow> string list" where
  "lookup_binding m subject =
     (if subject = [] then [] else case bt_get m subject of None \<Rightarrow> [] | Some vs \<Rightarrow> vs)"

definition roles_for :: "registry \<Rightarrow> string \<Rightarrow> string list" where
  "roles_for reg subject = lookup_binding (c_role_bindings (r_core reg)) subject"

definition set_user_roles ::
    "backend_io \<Rightarrow> int \<Rightarrow> string \<Rightarrow> string list \<Rightarrow> registry \<Rightarrow> unit reg_result" where
  "set_user_roles io now subject roles reg =
     (if trim subject = [] then (reg, Inl (SavedQueryNotFound ''(empty subject)''))
      else reg_then
        (persist_snapshot io (reg\<lparr>r_core := (r_core reg)\<lparr>c_role_bindings :=
           bind_subject subject (dedup_trimmed [] roles) (c_role_bindings (r_core reg))\<rparr>\<rparr>))
        (revoke_sessions io now subject))"

definition indexes_for :: "registry \<Rightarrow> string \<Rightarrow> string list" where
  "indexes_for reg subject = lookup_binding (c_index_bindings (r_core reg)) subject"

definition set_user_indexes ::
    "backend_io \<Rightarrow> int \<Rightarrow> string \<Rightarrow> string list \<Rightarrow> registry \<Rightarrow> unit reg_result" where
  "set_user_indexes io now subject ixs reg =
     (if trim subject = [] then (reg, Inl (SavedQueryNotFound ''(empty subject)''))
      else reg_then
        (persist_snapshot io (reg\<lparr>r_core := (r_core reg)\<lparr>c_index_bindings :=
           bind_subject subject (dedup_trimmed [] ixs) (c_index_bindings (r_core reg))\<rparr>\<rparr>))
        (revoke_sessions io now subject))"

subsection \<open>Tokens\<close>

abbreviation set_tokens :: "(string, api_token) btree \<Rightarrow> registry \<Rightarrow> registry" where
  "set_tokens m reg \<equiv> reg\<lparr>r_core := (r_core reg)\<lparr>c_tokens := m\<rparr>\<rparr>"

definition list_tokens :: "registry \<Rightarrow> api_token list" where
  "list_tokens reg = sort_key (\<lambda>t. - tk_created_at_ms t) (bt_values (c_tokens (r_core reg)))"

definition create_token :: "backend_io \<Rightarrow> int \<Rightarrow> api_token \<Rightarrow> registry \<Rightarrow> api_token reg_result" where
  "create_token io now t reg =
     (let t' = t\<lparr>tk_created_at_ms := now\<rparr>;
          live = bt_retain (\<lambda>_ t. \<not> is_expired t now) (c_tokens (r_core reg)) in
      commit io (rebuild_token_index (set_tokens (bt_insert (tk_id t') t' live) reg)) t')"

definition revoke_token :: "backend_io \<Rightarrow> string \<Rightarrow> registry \<Rightarrow> unit reg_result" where
  "revoke_token io i reg =
     (if \<not> bt_contains (c_tokens (r_core reg)) i then (reg, Inl (SavedQueryNotFound i))
      else commit io (rebuild_token_index (set_tokens (bt_remove i (c_tokens (r_core reg))) reg)) ())"

definition find_token :: "registry \<Rightarrow> int \<Rightarrow> string \<Rightarrow> api_token option" where
  "find_token reg now h =
     (case map_of (r_token_by_hash reg) h of
        None \<Rightarrow> None
      | Some i \<Rightarrow>
          (case bt_get (c_tokens (r_core reg)) i of
             None \<Rightarrow> None
           | Some t \<Rightarrow> if is_expired t now then None else Some t))"

definition next_token_id :: "int \<Rightarrow> registry \<Rightarrow> registry \<times> string" where
  "next_token_id now reg =
     (reg\<lparr>r_next_token := r_next_token reg + 1\<rparr>, ''tok-'' @ show_int now @ ''-'' @ show_nat (r_next_token reg))"

subsection \<open>Credentials\<close>

text \<open>argon2: hashing with a fresh salt gives a hash string or fails, verifying parses the hash string first.\<close>

record argon =
  ar_hash :: "string \<Rightarrow> string \<Rightarrow> string + string"
  ar_parse :: "string \<Rightarrow> bool"
  ar_verify :: "string \<Rightarrow> string \<Rightarrow> bool"
  ar_dummy :: string

definition set_credential ::
    "backend_io \<Rightarrow> argon \<Rightarrow> string \<Rightarrow> string \<Rightarrow> string \<Rightarrow> registry \<Rightarrow> unit reg_result" where
  "set_credential io ar salt subject password reg =
     (case ar_hash ar password salt of
        Inl e \<Rightarrow> (reg, Inl (Credential e))
      | Inr h \<Rightarrow>
          commit io (reg\<lparr>r_core := (r_core reg)\<lparr>c_credentials := bt_insert subject h (c_credentials (r_core reg))\<rparr>\<rparr>) ())"

definition verify_credential :: "argon \<Rightarrow> registry \<Rightarrow> string \<Rightarrow> string \<Rightarrow> bool" where
  "verify_credential ar reg subject password =
     (let stored = bt_get (c_credentials (r_core reg)) subject;
          h = (case stored of Some h \<Rightarrow> h | None \<Rightarrow> ar_dummy ar) in
      if \<not> ar_parse ar h then False
      else ar_verify ar password h \<and> stored \<noteq> None)"

definition remove_credential :: "backend_io \<Rightarrow> int \<Rightarrow> string \<Rightarrow> registry \<Rightarrow> unit reg_result" where
  "remove_credential io now subject reg =
     reg_then
       (persist_snapshot io
          (reg\<lparr>r_core := (r_core reg)\<lparr>c_credentials := bt_remove subject (c_credentials (r_core reg))\<rparr>\<rparr>))
       (revoke_sessions io now subject)"

definition has_credentials :: "registry \<Rightarrow> bool" where
  "has_credentials reg \<longleftrightarrow> c_credentials (r_core reg) \<noteq> []"

definition has_credential :: "registry \<Rightarrow> string \<Rightarrow> bool" where
  "has_credential reg subject \<longleftrightarrow> bt_contains (c_credentials (r_core reg)) subject"

subsection \<open>Activity log\<close>

definition ACTIVITY_RETAIN :: nat where
  "ACTIVITY_RETAIN = 200"

definition ACTIVITY_FLUSH_DEBOUNCE_MS :: int where
  "ACTIVITY_FLUSH_DEBOUNCE_MS = 1000"

definition push_event :: "activity_event \<Rightarrow> activity_event list \<Rightarrow> activity_event list" where
  "push_event ev evs =
     (let evs = evs @ [ev] in
      if ACTIVITY_RETAIN < length evs then drop (length evs - ACTIVITY_RETAIN) evs else evs)"

definition flush_activity :: "backend_io \<Rightarrow> int \<Rightarrow> registry \<Rightarrow> registry" where
  "flush_activity io now reg =
     (if r_activity_last_flush_ms reg \<noteq> 0 \<and> now - r_activity_last_flush_ms reg < ACTIVITY_FLUSH_DEBOUNCE_MS
      then reg\<lparr>r_activity_dirty := True\<rparr>
      else reg\<lparr>r_activity_last_flush_ms := now, r_activity_dirty := False,
               r_stored_activity := (case io_sidecar io of Refused _ \<Rightarrow> r_stored_activity reg | _ \<Rightarrow> r_activity reg)\<rparr>)"

definition record_activity :: "backend_io \<Rightarrow> int \<Rightarrow> int \<Rightarrow> string \<Rightarrow> string \<Rightarrow> string \<Rightarrow> registry \<Rightarrow> registry" where
  "record_activity io now now_flush index kind msg reg =
     flush_activity io now_flush
       (reg\<lparr>r_activity := bt_upsert index [] (push_event \<lparr>ev_ts_ms = now, ev_kind = kind, ev_message = msg\<rparr>)
              (r_activity reg)\<rparr>)"

definition list_activity :: "registry \<Rightarrow> string \<Rightarrow> nat \<Rightarrow> activity_event list" where
  "list_activity reg index limit =
     (case bt_get (r_activity reg) index of
        None \<Rightarrow> []
      | Some evs \<Rightarrow> take (if limit = 0 then length evs else limit) (rev evs))"

definition drop_registry :: "backend_io \<Rightarrow> registry \<Rightarrow> registry" where
  "drop_registry io reg =
     (if r_activity_dirty reg
      then reg\<lparr>r_stored_activity := (case io_sidecar io of Refused _ \<Rightarrow> r_stored_activity reg | _ \<Rightarrow> r_activity reg)\<rparr>
      else reg)"

subsection \<open>Reindex jobs\<close>

definition JOBS_RETAIN :: nat where
  "JOBS_RETAIN = 200"

fun first_min :: "('a \<Rightarrow> 'k::linorder) \<Rightarrow> 'a list \<Rightarrow> 'a option" where
  "first_min f [] = None"
| "first_min f (x # xs) = (case first_min f xs of None \<Rightarrow> Some x | Some y \<Rightarrow> Some (if f x \<le> f y then x else y))"

definition job_age :: "reindex_job \<Rightarrow> int \<times> string" where
  "job_age j = (jb_created_ms j, jb_id j)"

definition oldest_terminal :: "(string, reindex_job) btree \<Rightarrow> string option" where
  "oldest_terminal jobs =
     map_option jb_id (first_min job_age (filter (\<lambda>j. is_terminal (jb_state j)) (bt_values jobs)))"

text \<open>The loop removes by the job's own id; were a job filed under another key it would not end.\<close>

partial_function (option) prune_jobs ::
    "(string, reindex_job) btree \<Rightarrow> (string, reindex_job) btree option" where
  "prune_jobs jobs =
     (if JOBS_RETAIN < length jobs then
        (case oldest_terminal jobs of
           Some i \<Rightarrow> prune_jobs (bt_remove i jobs)
         | None \<Rightarrow> Some jobs)
      else Some jobs)"

definition flush_jobs :: "backend_io \<Rightarrow> registry \<Rightarrow> registry" where
  "flush_jobs io reg =
     reg\<lparr>r_stored_jobs := (case io_sidecar io of Refused _ \<Rightarrow> r_stored_jobs reg | _ \<Rightarrow> r_jobs reg)\<rparr>"

definition job_id_of :: "int \<Rightarrow> nat \<Rightarrow> string" where
  "job_id_of now n = ''job-'' @ show_int now @ ''-'' @ show_nat n"

definition new_job :: "int \<Rightarrow> nat \<Rightarrow> job_kind \<Rightarrow> string \<Rightarrow> (nat \<times> int \<times> string) list \<Rightarrow> reindex_job" where
  "new_job now n kind index units =
     \<lparr>jb_id = job_id_of now n, jb_index = index, jb_kind = kind, jb_state = JPending,
      jb_shards = map (\<lambda>(ord, w, node). \<lparr>js_ordinal = ord, js_window = w, js_node = node, js_phase = PPending,
                        js_docs_done = 0, js_docs_total = 0\<rparr>) units,
      jb_generation = 0, jb_cancel_requested = False, jb_error = [], jb_created_ms = now, jb_updated_ms = now\<rparr>"

definition create_job ::
    "backend_io \<Rightarrow> int \<Rightarrow> job_kind \<Rightarrow> string \<Rightarrow> (nat \<times> int \<times> string) list \<Rightarrow> registry
       \<Rightarrow> (registry \<times> reindex_job) option" where
  "create_job io now kind index units reg =
     (let job = new_job now (r_next_job reg) kind index units in
      case prune_jobs (bt_insert (jb_id job) job (r_jobs reg)) of
        None \<Rightarrow> None
      | Some jobs \<Rightarrow> Some (flush_jobs io (reg\<lparr>r_next_job := r_next_job reg + 1, r_jobs := jobs\<rparr>), job))"

definition get_job :: "registry \<Rightarrow> string \<Rightarrow> reindex_job option" where
  "get_job reg i = bt_get (r_jobs reg) i"

definition list_jobs :: "registry \<Rightarrow> reindex_job list" where
  "list_jobs reg = rev (sort_key job_age (rev (bt_values (r_jobs reg))))"

definition mutate_job ::
    "backend_io \<Rightarrow> int \<Rightarrow> string \<Rightarrow> (reindex_job \<Rightarrow> reindex_job) \<Rightarrow> registry \<Rightarrow> registry \<times> reindex_job option" where
  "mutate_job io now i f reg =
     (case bt_get (r_jobs reg) i of
        None \<Rightarrow> (reg, None)
      | Some j \<Rightarrow>
          (let j' = (f j)\<lparr>jb_updated_ms := now\<rparr> in
           (flush_jobs io (reg\<lparr>r_jobs := bt_insert i j' (r_jobs reg)\<rparr>), Some j')))"

definition request_job_cancel :: "backend_io \<Rightarrow> int \<Rightarrow> string \<Rightarrow> registry \<Rightarrow> reindex_job reg_result" where
  "request_job_cancel io now i reg =
     (case bt_get (r_jobs reg) i of
        None \<Rightarrow> (reg, Inl (JobNotFound i))
      | Some j \<Rightarrow>
          (let j' = (if is_terminal (jb_state j) then j
                     else j\<lparr>jb_cancel_requested := True, jb_updated_ms := now\<rparr>) in
           (flush_jobs io (reg\<lparr>r_jobs := bt_insert i j' (r_jobs reg)\<rparr>), Inr j')))"

subsection \<open>Persist-or-roll-back\<close>

lemma notify_fields [simp]:
  "r_core (notify_if_placement_changed io reg) = r_core reg"
  "r_store (notify_if_placement_changed io reg) = r_store reg"
  "r_token_by_hash (notify_if_placement_changed io reg) = r_token_by_hash reg"
  "r_session_epochs (notify_if_placement_changed io reg) = r_session_epochs reg"
  "r_stored_epochs (notify_if_placement_changed io reg) = r_stored_epochs reg"
  "r_activity (notify_if_placement_changed io reg) = r_activity reg"
  "r_jobs (notify_if_placement_changed io reg) = r_jobs reg"
  "r_rollback_failed (notify_if_placement_changed io reg) = r_rollback_failed reg"
  "r_node_pool (notify_if_placement_changed io reg) = r_node_pool reg"
  "r_replica_capable (notify_if_placement_changed io reg) = r_replica_capable reg"
  "r_pool_eligible (notify_if_placement_changed io reg) = r_pool_eligible reg"
  "r_grace_anchor_ms (notify_if_placement_changed io reg) = r_grace_anchor_ms reg"
  by (simp_all add: notify_if_placement_changed_def Let_def)

lemma rebuild_fields [simp]:
  "r_core (rebuild_token_index reg) = r_core reg"
  "r_store (rebuild_token_index reg) = r_store reg"
  "r_token_by_hash (rebuild_token_index reg) = token_index (c_tokens (r_core reg))"
  "r_session_epochs (rebuild_token_index reg) = r_session_epochs reg"
  "r_stored_epochs (rebuild_token_index reg) = r_stored_epochs reg"
  "r_activity (rebuild_token_index reg) = r_activity reg"
  "r_jobs (rebuild_token_index reg) = r_jobs reg"
  "r_rollback_failed (rebuild_token_index reg) = r_rollback_failed reg"
  "r_node_pool (rebuild_token_index reg) = r_node_pool reg"
  "r_replica_capable (rebuild_token_index reg) = r_replica_capable reg"
  "r_pool_eligible (rebuild_token_index reg) = r_pool_eligible reg"
  "r_grace_anchor_ms (rebuild_token_index reg) = r_grace_anchor_ms reg"
  by (simp_all add: rebuild_token_index_def)

lemmas persist_defs = persist_snapshot_def roll_back_def restore_core_def Let_def

lemma persist_frame [simp]:
  "r_session_epochs (fst (persist_snapshot io reg)) = r_session_epochs reg"
  "r_stored_epochs (fst (persist_snapshot io reg)) = r_stored_epochs reg"
  "r_activity (fst (persist_snapshot io reg)) = r_activity reg"
  "r_jobs (fst (persist_snapshot io reg)) = r_jobs reg"
  "r_node_pool (fst (persist_snapshot io reg)) = r_node_pool reg"
  "r_replica_capable (fst (persist_snapshot io reg)) = r_replica_capable reg"
  "r_pool_eligible (fst (persist_snapshot io reg)) = r_pool_eligible reg"
  "r_grace_anchor_ms (fst (persist_snapshot io reg)) = r_grace_anchor_ms reg"
  by (auto simp: persist_defs split: option.splits persist_answer.splits)

lemma commit_fst: "fst (commit io reg x) = fst (persist_snapshot io reg)"
  by (auto simp: commit_def split: prod.splits sum.splits)

lemma commit_Inr_iff: "snd (commit io reg x) = Inr y \<longleftrightarrow> y = x \<and> snd (persist_snapshot io reg) = Inr ()"
  by (auto simp: commit_def split: prod.splits sum.splits)

lemma persist_Inr_iff: "snd (persist_snapshot io reg) = Inr () \<longleftrightarrow> \<not> r_rollback_failed reg \<and> io_persist io = Persisted"
  by (auto simp: persist_defs split: option.splits persist_answer.splits)

lemma persist_Inr:
  assumes "snd (persist_snapshot io reg) = Inr ()"
  shows "r_core (fst (persist_snapshot io reg)) = r_core reg" "r_store (fst (persist_snapshot io reg)) = r_core reg"
    "r_token_by_hash (fst (persist_snapshot io reg)) = r_token_by_hash reg"
    "\<not> r_rollback_failed (fst (persist_snapshot io reg))"
  using assms unfolding persist_Inr_iff by (simp_all add: persist_defs)

text \<open>Memory agrees with the store unless a restore failed.\<close>

definition coherent :: "registry \<Rightarrow> bool" where
  "coherent reg \<longleftrightarrow> (r_rollback_failed reg \<or> r_core reg = r_store reg)"

lemma persist_coherent [intro, simp]: "coherent (fst (persist_snapshot io reg))"
  by (auto simp: coherent_def persist_defs split: option.splits persist_answer.splits)

lemma commit_coherent [intro, simp]: "coherent (fst (commit io reg x))"
  by (simp add: commit_fst)

lemma persist_core:
  "r_core (fst (persist_snapshot io reg)) \<in> {r_core reg, r_store reg}"
  "r_store (fst (persist_snapshot io reg)) \<in> {r_core reg, r_store reg}"
  by (auto simp: persist_defs split: option.splits persist_answer.splits)

definition token_idx_ok :: "registry \<Rightarrow> bool" where
  "token_idx_ok reg \<longleftrightarrow> r_token_by_hash reg = token_index (c_tokens (r_core reg))"

lemma persist_token_idx: "token_idx_ok reg \<Longrightarrow> token_idx_ok (fst (persist_snapshot io reg))"
  by (auto simp: token_idx_ok_def persist_defs split: option.splits persist_answer.splits)

text \<open>A refused write with a working load leaves the catalog as the store has it, and the store untouched.\<close>

lemma persist_refused:
  assumes "io_persist io = Refused e" "io_load io = None"
  shows "r_core (fst (persist_snapshot io reg)) = r_store reg"
    "r_store (fst (persist_snapshot io reg)) = r_store reg" "\<exists>e. snd (persist_snapshot io reg) = Inl e"
    "\<not> r_rollback_failed (fst (persist_snapshot io reg))"
    "r_token_by_hash (fst (persist_snapshot io reg)) = token_index (c_tokens (r_store reg))"
  using assms by (auto simp: persist_defs)

subsection \<open>The catalog's invariant\<close>

definition aliases_ok :: "core \<Rightarrow> bool" where
  "aliases_ok c \<longleftrightarrow>
     (\<forall>a ts. bt_get (c_aliases c) a = Some ts \<longrightarrow> bs_ok ts \<and> set ts \<subseteq> set (bt_keys (c_indexes c)))"

definition core_ok :: "core \<Rightarrow> bool" where
  "core_ok c \<longleftrightarrow> bt_ok (c_indexes c) \<and> bt_ok (c_aliases c) \<and> aliases_ok c \<and> bt_ok (c_saved_queries c)
     \<and> bt_ok (c_role_bindings c) \<and> bt_ok (c_tokens c) \<and> bt_ok (c_credentials c) \<and> bt_ok (c_index_bindings c)
     \<and> (\<forall>n e. bt_get (c_indexes c) n = Some e \<longrightarrow> bt_ok (ie_shards e) \<and> bt_ok (ie_windows e))"

definition jobs_ok :: "(string, reindex_job) btree \<Rightarrow> bool" where
  "jobs_ok jobs \<longleftrightarrow> bt_ok jobs \<and> (\<forall>k j. bt_get jobs k = Some j \<longrightarrow> jb_id j = k)"

definition activity_ok :: "(string, activity_event list) btree \<Rightarrow> bool" where
  "activity_ok m \<longleftrightarrow> bt_ok m \<and> (\<forall>k evs. bt_get m k = Some evs \<longrightarrow> length evs \<le> ACTIVITY_RETAIN)"

definition pool_ok :: "registry \<Rightarrow> bool" where
  "pool_ok reg \<longleftrightarrow> bt_ok (r_node_pool reg) \<and> bs_ok (r_replica_capable reg) \<and> bs_ok (r_pool_eligible reg)"

definition reg_ok :: "registry \<Rightarrow> bool" where
  "reg_ok reg \<longleftrightarrow> core_ok (r_core reg) \<and> core_ok (r_store reg) \<and> token_idx_ok reg \<and> jobs_ok (r_jobs reg)
     \<and> activity_ok (r_activity reg) \<and> pool_ok reg"

lemma persist_reg_ok [intro, simp]: "reg_ok reg \<Longrightarrow> reg_ok (fst (persist_snapshot io reg))"
  using persist_core[of io reg] by (auto simp: reg_ok_def pool_ok_def persist_token_idx)

lemma commit_reg_ok [intro, simp]: "reg_ok reg \<Longrightarrow> reg_ok (fst (commit io reg x))"
  by (simp add: commit_fst)

named_theorems op_ok and op_coherent

lemma reg_ok_core:
  "reg_ok reg \<Longrightarrow> core_ok c \<Longrightarrow> c_tokens c = c_tokens (r_core reg) \<Longrightarrow> reg_ok (reg\<lparr>r_core := c\<rparr>)"
  by (simp add: reg_ok_def token_idx_ok_def pool_ok_def)

lemma reg_ok_core_okD: "reg_ok reg \<Longrightarrow> core_ok (r_core reg)"
  by (simp add: reg_ok_def)

lemma persist_core_ok:
  "reg_ok reg \<Longrightarrow> (core_ok (r_core reg) \<Longrightarrow> core_ok c) \<Longrightarrow> c_tokens c = c_tokens (r_core reg)
     \<Longrightarrow> reg_ok (fst (persist_snapshot io (reg\<lparr>r_core := c\<rparr>)))"
  by (simp add: reg_ok_core reg_ok_core_okD)

lemma commit_core_ok:
  "reg_ok reg \<Longrightarrow> (core_ok (r_core reg) \<Longrightarrow> core_ok c) \<Longrightarrow> c_tokens c = c_tokens (r_core reg)
     \<Longrightarrow> reg_ok (fst (commit io (reg\<lparr>r_core := c\<rparr>) x))"
  by (simp add: reg_ok_core reg_ok_core_okD)

lemma core_ok_simple:
  "core_ok c \<Longrightarrow> bt_ok m \<Longrightarrow> core_ok (c\<lparr>c_saved_queries := m\<rparr>)"
  "core_ok c \<Longrightarrow> bt_ok m' \<Longrightarrow> core_ok (c\<lparr>c_role_bindings := m'\<rparr>)"
  "core_ok c \<Longrightarrow> bt_ok m' \<Longrightarrow> core_ok (c\<lparr>c_index_bindings := m'\<rparr>)"
  "core_ok c \<Longrightarrow> bt_ok cr \<Longrightarrow> core_ok (c\<lparr>c_credentials := cr\<rparr>)"
  "core_ok c \<Longrightarrow> bt_ok tk \<Longrightarrow> core_ok (c\<lparr>c_tokens := tk\<rparr>)"
  by (simp_all add: core_ok_def aliases_ok_def)

lemma core_okD:
  "core_ok c \<Longrightarrow> bt_ok (c_indexes c)" "core_ok c \<Longrightarrow> bt_ok (c_aliases c)" "core_ok c \<Longrightarrow> bt_ok (c_saved_queries c)"
  "core_ok c \<Longrightarrow> bt_ok (c_role_bindings c)" "core_ok c \<Longrightarrow> bt_ok (c_tokens c)"
  "core_ok c \<Longrightarrow> bt_ok (c_credentials c)" "core_ok c \<Longrightarrow> bt_ok (c_index_bindings c)"
  by (simp_all add: core_ok_def)

definition entry_ok :: "index_entry \<Rightarrow> bool" where
  "entry_ok e \<longleftrightarrow> bt_ok (ie_shards e) \<and> bt_ok (ie_windows e)"

lemma core_ok_put:
  "core_ok c \<Longrightarrow> entry_ok e \<Longrightarrow> core_ok (c\<lparr>c_indexes := bt_insert n e (c_indexes c)\<rparr>)"
  by (fastforce simp: core_ok_def aliases_ok_def entry_ok_def bt_keys_insert)

lemma reg_ok_put: "reg_ok reg \<Longrightarrow> entry_ok e \<Longrightarrow> reg_ok (put_entry n e reg)"
  by (rule reg_ok_core) (simp_all add: core_ok_put reg_ok_core_okD)

lemma reg_ok_entry: "reg_ok reg \<Longrightarrow> get_entry reg n = Some e \<Longrightarrow> entry_ok e"
  by (auto simp: reg_ok_def core_ok_def get_entry_def entry_ok_def)

lemma coherent_refl: "coherent reg \<Longrightarrow> coherent (fst (reg, x))"
  by simp

lemma create_ok [op_ok]: "reg_ok reg \<Longrightarrow> reg_ok (fst (create io d reg))"
  by (auto simp: create_def new_entry_def entry_ok_def intro!: reg_ok_put split: sum.splits)

lemma activate_ok [op_ok]: "reg_ok reg \<Longrightarrow> reg_ok (fst (activate io n reg))"
  using reg_ok_entry[of reg n]
  by (auto simp: activate_def get_entry_def entry_ok_def intro!: reg_ok_put split: option.splits)

lemma prune_aliases_get:
  "bt_get (prune_aliases n m) a = Some ts \<longleftrightarrow> (\<exists>us. bt_get m a = Some us \<and> ts = bs_remove n us \<and> ts \<noteq> [])"
  if "bt_ok m"
  using that unfolding prune_aliases_def by (auto simp: bt_get_retain split: option.splits)

lemma bt_ok_prune_aliases: "bt_ok m \<Longrightarrow> bt_ok (prune_aliases n m)"
  by (simp add: prune_aliases_def)

lemma keys_bt_remove: "set (bt_keys (bt_remove k m)) = set (bt_keys m) - {k}"
  by (auto simp: bt_keys_get split: if_splits)

lemma drop_index_core_ok:
  "core_ok c \<Longrightarrow> core_ok (c\<lparr>c_indexes := bt_remove n (c_indexes c), c_aliases := prune_aliases n (c_aliases c)\<rparr>)"
  by (fastforce simp: core_ok_def aliases_ok_def bt_ok_prune_aliases prune_aliases_get keys_bt_remove)

lemma drop_index_ok [op_ok]: "reg_ok reg \<Longrightarrow> reg_ok (fst (drop_index io n reg))"
  by (auto simp: drop_index_def intro!: commit_core_ok drop_index_core_ok split: option.splits)

lemma core_ok_alias:
  "core_ok c \<Longrightarrow> bs_ok ts \<Longrightarrow> set ts \<subseteq> set (bt_keys (c_indexes c))
     \<Longrightarrow> core_ok (c\<lparr>c_aliases := bt_insert a ts (c_aliases c)\<rparr>)"
  by (simp add: core_ok_def aliases_ok_def)

lemma core_ok_drop_alias: "core_ok c \<Longrightarrow> core_ok (c\<lparr>c_aliases := bt_remove a (c_aliases c)\<rparr>)"
  by (simp add: core_ok_def aliases_ok_def)

lemma set_alias_ok [op_ok]: "reg_ok reg \<Longrightarrow> reg_ok (fst (set_alias io a ts reg))"
  by (auto simp: set_alias_def Let_def find_None_iff bt_contains_iff bt_keys_get
      intro!: commit_core_ok core_ok_alias split: option.splits)

lemma drop_alias_ok [op_ok]: "reg_ok reg \<Longrightarrow> reg_ok (fst (drop_alias io a reg))"
  by (auto simp: drop_alias_def intro!: commit_core_ok core_ok_drop_alias)

lemma reg_ok_next_saved [simp]: "reg_ok (reg\<lparr>r_next_saved := k\<rparr>) = reg_ok reg"
  by (simp add: reg_ok_def token_idx_ok_def pool_ok_def)

lemma save_saved_query_ok [op_ok]: "reg_ok reg \<Longrightarrow> reg_ok (fst (save_saved_query io t1 t2 q ow reg))"
  by (auto simp: save_saved_query_def Let_def core_okD intro!: commit_core_ok core_ok_simple split: option.splits)

lemma delete_saved_query_ok [op_ok]: "reg_ok reg \<Longrightarrow> reg_ok (fst (delete_saved_query io i ow reg))"
  by (auto simp: delete_saved_query_def core_okD intro!: commit_core_ok core_ok_simple split: option.splits)

lemma reg_ok_epochs [simp]:
  "reg_ok (reg\<lparr>r_session_epochs := m\<rparr>) = reg_ok reg"
  "reg_ok (reg\<lparr>r_session_epochs := m, r_stored_epochs := m'\<rparr>) = reg_ok reg"
  by (simp_all add: reg_ok_def token_idx_ok_def pool_ok_def)

lemma revoke_sessions_ok [op_ok]: "reg_ok reg \<Longrightarrow> reg_ok (fst (revoke_sessions io now s reg))"
  by (auto simp: revoke_sessions_def Let_def split: persist_answer.splits)

lemma reg_then_fst:
  "fst (reg_then r f) = (case snd r of Inl _ \<Rightarrow> fst r | Inr _ \<Rightarrow> fst (f (fst r)))"
  by (auto simp: reg_then_def split: prod.splits sum.splits)

lemma bt_ok_bind_subject [simp, intro]: "bt_ok m \<Longrightarrow> bt_ok (bind_subject s vs m)"
  by (simp add: bind_subject_def)

lemma set_user_roles_ok [op_ok]: "reg_ok reg \<Longrightarrow> reg_ok (fst (set_user_roles io now s vs reg))"
  by (auto simp: set_user_roles_def reg_then_fst core_okD intro!: revoke_sessions_ok persist_core_ok core_ok_simple
      split: sum.splits)

lemma set_user_indexes_ok [op_ok]: "reg_ok reg \<Longrightarrow> reg_ok (fst (set_user_indexes io now s vs reg))"
  by (auto simp: set_user_indexes_def reg_then_fst core_okD intro!: revoke_sessions_ok persist_core_ok core_ok_simple
      split: sum.splits)

lemma reg_ok_tokens:
  "reg_ok reg \<Longrightarrow> bt_ok m \<Longrightarrow> reg_ok (rebuild_token_index (set_tokens m reg))"
  by (simp add: reg_ok_def token_idx_ok_def pool_ok_def core_ok_simple)

lemma reg_ok_bt_tokens: "reg_ok reg \<Longrightarrow> bt_ok (c_tokens (r_core reg))"
  by (simp add: reg_ok_def core_okD)

lemma create_token_ok [op_ok]: "reg_ok reg \<Longrightarrow> reg_ok (fst (create_token io now t reg))"
  by (simp add: create_token_def Let_def reg_ok_tokens reg_ok_bt_tokens)

lemma revoke_token_ok [op_ok]: "reg_ok reg \<Longrightarrow> reg_ok (fst (revoke_token io i reg))"
  by (simp add: revoke_token_def reg_ok_tokens reg_ok_bt_tokens)

lemma set_credential_ok [op_ok]: "reg_ok reg \<Longrightarrow> reg_ok (fst (set_credential io ar salt s p reg))"
  by (auto simp: set_credential_def core_okD intro!: commit_core_ok core_ok_simple split: sum.splits)

lemma remove_credential_ok [op_ok]: "reg_ok reg \<Longrightarrow> reg_ok (fst (remove_credential io now s reg))"
  by (auto simp: remove_credential_def reg_then_fst core_okD intro!: revoke_sessions_ok persist_core_ok core_ok_simple
      split: sum.splits)

lemma length_push_event: "length evs \<le> ACTIVITY_RETAIN \<Longrightarrow> length (push_event ev evs) \<le> ACTIVITY_RETAIN"
  by (simp add: push_event_def Let_def ACTIVITY_RETAIN_def)

lemma flush_activity_ok [simp]: "reg_ok (flush_activity io now reg) = reg_ok reg"
  by (simp add: flush_activity_def reg_ok_def token_idx_ok_def pool_ok_def)

lemma push_event_ok:
  "activity_ok m \<Longrightarrow> activity_ok (bt_upsert ix [] (push_event ev) m)"
  by (auto simp: activity_ok_def intro!: length_push_event split: option.splits if_splits)

lemma record_activity_ok [op_ok]: "reg_ok reg \<Longrightarrow> reg_ok (record_activity io now nf ix k m reg)"
  unfolding record_activity_def flush_activity_ok
  by (simp add: reg_ok_def token_idx_ok_def pool_ok_def push_event_ok)

subsection \<open>Jobs\<close>

lemma first_min_None [simp]: "first_min f xs = None \<longleftrightarrow> xs = []"
  by (cases xs) (auto split: option.splits)

lemma first_min_Some:
  "first_min f xs = Some x \<Longrightarrow> x \<in> set xs \<and> (\<forall>y \<in> set xs. f x \<le> f y)"
proof (induction xs arbitrary: x)
  case (Cons y ys)
  show ?case
  proof (cases "first_min f ys")
    case None
    then show ?thesis using Cons.prems by simp
  next
    case (Some z)
    then have "x = (if f y \<le> f z then y else z)" using Cons.prems by simp
    then show ?thesis using Cons.IH[OF Some] by (auto intro: order_trans)
  qed
qed simp

lemma bt_values_mem: "bt_ok m \<Longrightarrow> v \<in> set (bt_values m) \<longleftrightarrow> (\<exists>k. bt_get m k = Some v)"
  by (force simp: bt_values_def bt_mem_get[symmetric])

lemma oldest_terminal_Some:
  assumes "jobs_ok jobs" "oldest_terminal jobs = Some i"
  shows "\<exists>j. bt_get jobs i = Some j \<and> is_terminal (jb_state j)
    \<and> (\<forall>k j'. bt_get jobs k = Some j' \<longrightarrow> is_terminal (jb_state j') \<longrightarrow> job_age j \<le> job_age j')"
proof -
  obtain j where j: "first_min job_age (filter (\<lambda>j. is_terminal (jb_state j)) (bt_values jobs)) = Some j" "jb_id j = i"
    using assms(2) by (auto simp: oldest_terminal_def)
  have ok: "bt_ok jobs" and ids: "\<And>k j. bt_get jobs k = Some j \<Longrightarrow> jb_id j = k"
    using assms(1) by (auto simp: jobs_ok_def)
  have mem: "j \<in> set (bt_values jobs)" "is_terminal (jb_state j)"
    and le: "\<And>y. y \<in> set (bt_values jobs) \<Longrightarrow> is_terminal (jb_state y) \<Longrightarrow> job_age j \<le> job_age y"
    using first_min_Some[OF j(1)] by auto
  obtain k where k: "bt_get jobs k = Some j" using mem(1) bt_values_mem[OF ok] by blast
  then have "k = i" using ids j(2) by simp
  then show ?thesis using k mem(2) le bt_values_mem[OF ok] by blast
qed

lemma oldest_terminal_None:
  assumes "jobs_ok jobs" "oldest_terminal jobs = None" "bt_get jobs k = Some j"
  shows "\<not> is_terminal (jb_state j)"
proof -
  have "j \<in> set (bt_values jobs)"
    using assms(1,3) bt_values_mem[of jobs j] by (auto simp: jobs_ok_def)
  then show ?thesis using assms(2) by (simp add: oldest_terminal_def filter_empty_conv)
qed

lemma length_bt_remove: "bt_ok m \<Longrightarrow> bt_get m k = Some v \<Longrightarrow> length (bt_remove k m) + 1 = length m"
proof (induction m)
  case (Cons p m)
  have "filter (\<lambda>p. fst p \<noteq> k) m = m" if "fst p = k"
    using Cons.prems(1) that by (intro filter_True) (auto simp: bt_ok_def bt_keys_def)
  then show ?case
    using Cons by (cases p) (auto simp: bt_ok_def bt_remove_def bt_get_def bt_keys_def split: if_splits)
qed (simp add: bt_get_def)

lemma jobs_ok_remove: "jobs_ok jobs \<Longrightarrow> jobs_ok (bt_remove i jobs)"
  by (auto simp: jobs_ok_def split: if_splits)

text \<open>What pruning promises: it keeps a submap, keeps every running job, removes only older finished jobs than
  it keeps, and stops at the cap or when only running jobs are left.\<close>

definition pruned_to :: "(string, reindex_job) btree \<Rightarrow> (string, reindex_job) btree \<Rightarrow> bool" where
  "pruned_to jobs jobs' \<longleftrightarrow> jobs_ok jobs'
     \<and> (\<forall>k j. bt_get jobs' k = Some j \<longrightarrow> bt_get jobs k = Some j)
     \<and> (\<forall>k j. bt_get jobs k = Some j \<and> \<not> is_terminal (jb_state j) \<longrightarrow> bt_get jobs' k = Some j)
     \<and> (\<forall>k k' j j'. bt_get jobs k = Some j \<and> bt_get jobs' k = None \<and> bt_get jobs' k' = Some j'
          \<and> is_terminal (jb_state j') \<longrightarrow> job_age j \<le> job_age j')
     \<and> min (length jobs) JOBS_RETAIN \<le> length jobs'
     \<and> (length jobs' \<le> JOBS_RETAIN \<or> (\<forall>k j. bt_get jobs' k = Some j \<longrightarrow> \<not> is_terminal (jb_state j)))"

lemma pruned_to_refl:
  "jobs_ok jobs \<Longrightarrow> length jobs \<le> JOBS_RETAIN \<or> (\<forall>k j. bt_get jobs k = Some j \<longrightarrow> \<not> is_terminal (jb_state j))
     \<Longrightarrow> pruned_to jobs jobs"
  by (auto simp: pruned_to_def)

lemma pruned_to_step:
  assumes ok: "jobs_ok jobs" and i: "oldest_terminal jobs = Some i" and big: "JOBS_RETAIN < length jobs"
    and p: "pruned_to (bt_remove i jobs) jobs'"
  shows "pruned_to jobs jobs'"
proof -
  obtain j where j: "bt_get jobs i = Some j" "is_terminal (jb_state j)"
    and oldest: "\<And>k j'. bt_get jobs k = Some j' \<Longrightarrow> is_terminal (jb_state j') \<Longrightarrow> job_age j \<le> job_age j'"
    using oldest_terminal_Some[OF ok i] by blast
  have len: "length (bt_remove i jobs) + 1 = length jobs"
    using ok j(1) length_bt_remove[of jobs i j] by (simp add: jobs_ok_def)
  have sub': "bt_get (bt_remove i jobs) k = Some j'" if "bt_get jobs' k = Some j'" for k j'
    using p that unfolding pruned_to_def by blast
  have sub: "bt_get jobs k = Some j'" if "bt_get jobs' k = Some j'" for k j'
    using sub'[OF that] by (simp split: if_splits)
  have gap': "job_age j1 \<le> job_age j2"
    if "bt_get (bt_remove i jobs) k = Some j1" "bt_get jobs' k = None" "bt_get jobs' k' = Some j2" "is_terminal (jb_state j2)"
    for k k' j1 j2
    using p that unfolding pruned_to_def by blast
  have gap: "job_age j1 \<le> job_age j2"
    if "bt_get jobs k = Some j1" "bt_get jobs' k = None" "bt_get jobs' k' = Some j2" "is_terminal (jb_state j2)" for k k' j1 j2
  proof (cases "k = i")
    case True
    then show ?thesis using that(1) oldest[OF sub[OF that(3)] that(4)] j(1) by simp
  next
    case False
    then show ?thesis using gap'[of k j1 k' j2] that by simp
  qed
  have keep': "bt_get jobs' k = Some j'" if "bt_get (bt_remove i jobs) k = Some j'" "\<not> is_terminal (jb_state j')" for k j'
    using p that unfolding pruned_to_def by blast
  have keep: "bt_get jobs' k = Some j'" if "bt_get jobs k = Some j'" "\<not> is_terminal (jb_state j')" for k j'
    using keep'[of k j'] that j by (cases "k = i") auto
  have c: "jobs_ok jobs'" "min (length jobs) JOBS_RETAIN \<le> length jobs'"
    "length jobs' \<le> JOBS_RETAIN \<or> (\<forall>k j. bt_get jobs' k = Some j \<longrightarrow> \<not> is_terminal (jb_state j))"
    using p len big unfolding pruned_to_def by (linarith, linarith, blast)
  show ?thesis
    unfolding pruned_to_def
    by (intro conjI c) (use sub in blast, use keep in blast, use gap in blast)
qed

lemma prune_jobs_prunes: "jobs_ok jobs \<Longrightarrow> \<exists>jobs'. prune_jobs jobs = Some jobs' \<and> pruned_to jobs jobs'"
proof (induction "length jobs" arbitrary: jobs rule: less_induct)
  case less
  note unfold = prune_jobs.simps[of jobs]
  show ?case
  proof (cases "JOBS_RETAIN < length jobs")
    case False
    then show ?thesis using less.prems by (simp add: unfold pruned_to_refl)
  next
    case big: True
    show ?thesis
    proof (cases "oldest_terminal jobs")
      case None
      then have "\<forall>k j. bt_get jobs k = Some j \<longrightarrow> \<not> is_terminal (jb_state j)"
        using oldest_terminal_None[OF less.prems] by blast
      then have "pruned_to jobs jobs" using less.prems by (intro pruned_to_refl) auto
      then show ?thesis using big None by (simp add: unfold)
    next
      case (Some i)
      obtain j where "bt_get jobs i = Some j"
        using oldest_terminal_Some[OF less.prems Some] by blast
      then have "length (bt_remove i jobs) < length jobs"
        using less.prems length_bt_remove[of jobs i j] by (simp add: jobs_ok_def)
      then obtain jobs' where "prune_jobs (bt_remove i jobs) = Some jobs'" "pruned_to (bt_remove i jobs) jobs'"
        using less.hyps jobs_ok_remove[OF less.prems] by blast
      then show ?thesis
        using big Some pruned_to_step[OF less.prems Some big] by (auto simp: unfold)
    qed
  qed
qed

subsection \<open>Globs\<close>

text \<open>The reference matcher: a star matches any run of characters, any other character itself.\<close>

fun glob_ref :: "string \<Rightarrow> string \<Rightarrow> bool" where
  "glob_ref [] s = (s = [])"
| "glob_ref (c # p) s =
     (if c = CHR ''*'' then glob_ref p s \<or> (case s of [] \<Rightarrow> False | _ # s' \<Rightarrow> glob_ref (c # p) s')
      else (case s of [] \<Rightarrow> False | x # s' \<Rightarrow> x = c \<and> glob_ref p s'))"

text \<open>The parts after a star, each after some gap, the last one at the end.\<close>

fun gaps :: "string list \<Rightarrow> string \<Rightarrow> bool" where
  "gaps [] s = (s = [])"
| "gaps (p # ps) s = (\<exists>k \<le> length s. is_prefix_of p (drop k s) \<and> gaps ps (drop (k + length p) s))"

lemma glob_ref_star: "glob_ref (CHR ''*'' # p) s \<longleftrightarrow> (\<exists>k \<le> length s. glob_ref p (drop k s))"
proof (induction s)
  case (Cons x s)
  have "(\<exists>k \<le> length (x # s). glob_ref p (drop k (x # s))) \<longleftrightarrow>
    glob_ref p (x # s) \<or> (\<exists>k \<le> length s. glob_ref p (drop k s))" (is "?l \<longleftrightarrow> ?r")
  proof
    assume ?l
    then obtain k where "k \<le> length (x # s)" "glob_ref p (drop k (x # s))" by blast
    then show ?r by (cases k) auto
  next
    assume ?r
    then show ?l by (metis drop0 drop_Suc_Cons le0 length_Cons Suc_le_mono)
  qed
  then show ?case using Cons.IH by simp
qed simp

lemma split_char_ne: "split_char c s \<noteq> []"
  by (induction s) (auto split: list.splits)

lemma glob_ref_parts:
  "glob_ref p s \<longleftrightarrow> is_prefix_of (hd (split_char (CHR ''*'') p)) s
     \<and> gaps (List.tl (split_char (CHR ''*'') p)) (drop (length (hd (split_char (CHR ''*'') p))) s)"
proof (induction p arbitrary: s)
  case Nil
  then show ?case by (simp add: is_prefix_of_def)
next
  case (Cons c p)
  obtain f ps where f: "split_char (CHR ''*'') p = f # ps"
    using split_char_ne[of "CHR ''*''" p] by (cases "split_char (CHR ''*'') p") auto
  show ?case
  proof (cases "c = CHR ''*''")
    case True
    have "glob_ref (c # p) s \<longleftrightarrow> (\<exists>k \<le> length s. is_prefix_of f (drop k s) \<and> gaps ps (drop (length f) (drop k s)))"
      unfolding True glob_ref_star using Cons.IH f by simp
    then show ?thesis using f True by (simp add: is_prefix_of_def add.commute)
  next
    case False
    then show ?thesis
      using Cons.IH f by (cases s) (auto simp: is_prefix_of_def)
  qed
qed

lemma prefix_iff: "is_prefix_of p s \<longleftrightarrow> (\<exists>t. s = p @ t)"
  unfolding is_prefix_of_def by (metis append_eq_conv_conj append_take_drop_id)

lemma find_sub_found: "is_prefix_of p (drop k s) \<Longrightarrow> k \<le> length s \<Longrightarrow> \<exists>i \<le> k. find_sub p s = Some i"
proof (induction s arbitrary: k)
  case (Cons x s)
  show ?case
  proof (cases "is_prefix_of p (x # s)")
    case False
    then obtain k' where k: "k = Suc k'" using Cons.prems(1) by (cases k) auto
    then obtain i where "i \<le> k'" "find_sub p s = Some i" using Cons.IH[of k'] Cons.prems by auto
    then show ?thesis using False k by auto
  qed simp
qed (simp add: is_prefix_of_def)

lemma find_sub_Some: "find_sub p s = Some i \<Longrightarrow> i \<le> length s \<and> is_prefix_of p (drop i s)"
  by (induction s arbitrary: i) (auto simp: is_prefix_of_def split: if_splits)

lemma find_sub_len: "find_sub p s = Some i \<Longrightarrow> i + length p \<le> length s"
proof -
  assume "find_sub p s = Some i"
  then obtain t where t: "drop i s = p @ t" and "i \<le> length s"
    using find_sub_Some prefix_iff by blast
  moreover have "length s - i = length p + length t" using arg_cong[OF t, of length] by simp
  ultimately show ?thesis by linarith
qed

lemma glob_interior_mono: "glob_interior mids (drop j w) \<Longrightarrow> i \<le> j \<Longrightarrow> glob_interior mids (drop i w)"
proof (induction mids arbitrary: i j)
  case (Cons mid mids)
  show ?case
  proof (cases "mid = []")
    case True
    then show ?thesis using Cons by simp
  next
    case False
    then obtain n where n: "find_sub mid (drop j w) = Some n" "glob_interior mids (drop (n + length mid + j) w)"
      using Cons.prems by (auto simp: add.commute split: option.splits)
    have "is_prefix_of mid (drop (j - i + n) (drop i w))"
      using find_sub_Some[OF n(1)] Cons.prems(2) by (simp add: add.commute)
    moreover have "0 < length mid" "n + length mid \<le> length w - j"
      using find_sub_len[OF n(1)] False by simp_all
    then have "j - i + n \<le> length (drop i w)"
      using Cons.prems(2) unfolding length_drop by linarith
    ultimately obtain n' where n': "n' \<le> j - i + n" "find_sub mid (drop i w) = Some n'"
      using find_sub_found by blast
    have "glob_interior mids (drop (n' + length mid + i) w)"
      using Cons.IH[OF n(2)] n'(1) Cons.prems(2) by simp
    then show ?thesis using False n'(2) by (simp add: add.commute)
  qed
qed simp

lemma prefix_window:
  "k + length p \<le> n \<Longrightarrow> is_prefix_of p (drop k (take n s)) \<longleftrightarrow> is_prefix_of p (drop k s)"
  unfolding is_prefix_of_def drop_take take_take by (simp add: min_absorb1)

lemma ends_with_drop:
  "ends_with (drop j s) l \<longleftrightarrow> ends_with s l \<and> j + length l \<le> length s" if "j \<le> length s"
  using that by (auto simp: ends_with_def)

lemma gaps_last: "gaps [l] s \<longleftrightarrow> ends_with s l"
proof
  assume "gaps [l] s"
  then obtain k t where "k \<le> length s" "drop k s = l @ t" "drop (k + length l) s = []"
    by (auto simp: prefix_iff)
  moreover have "drop (k + length l) s = drop (length l) (drop k s)" by (simp add: add.commute)
  ultimately have k: "k \<le> length s" "drop k s = l" by simp_all
  have "length l = length s - k" using arg_cong[OF k(2), of length] by simp
  then show "ends_with s l" using k by (simp add: ends_with_def)
next
  assume "ends_with s l"
  then show "gaps [l] s"
    by (auto simp: ends_with_def is_prefix_of_def intro!: exI[of _ "length s - length l"])
qed

text \<open>The window of a glob is the string without its suffix.\<close>

lemma gaps_cut:
  assumes IH: "\<And>s. gaps (mids @ [l]) s \<longleftrightarrow> ends_with s l \<and> glob_interior mids (take (length s - length l) s)"
    and j: "j \<le> length s"
  shows "gaps (mids @ [l]) (drop j s) \<longleftrightarrow>
    ends_with s l \<and> j + length l \<le> length s \<and> glob_interior mids (drop j (take (length s - length l) s))"
proof (cases "j + length l \<le> length s")
  case True
  then have "take (length (drop j s) - length l) (drop j s) = drop j (take (length s - length l) s)"
    by (simp add: drop_take add.commute)
  then show ?thesis unfolding IH ends_with_drop[OF j] using True by simp
qed (simp add: IH ends_with_drop[OF j])

lemma prefix_fits: "is_prefix_of p (drop k s) \<Longrightarrow> k \<le> length s \<Longrightarrow> k + length p \<le> length s"
  unfolding prefix_iff by (metis le_add1 length_append length_drop add_le_cancel_left le_add_diff_inverse)

lemma gaps_interior:
  "gaps (mids @ [l]) s \<longleftrightarrow> ends_with s l \<and> glob_interior mids (take (length s - length l) s)"
proof (induction mids arbitrary: s)
  case Nil
  then show ?case using gaps_last by simp
next
  case (Cons mid mids)
  let ?w = "take (length s - length l) s"
  note cut = gaps_cut[OF Cons.IH]
  show ?case
  proof
    assume "gaps ((mid # mids) @ [l]) s"
    then obtain k where k: "k \<le> length s" "is_prefix_of mid (drop k s)" "gaps (mids @ [l]) (drop (k + length mid) s)"
      by auto
    note c = k(3)[unfolded cut[OF prefix_fits[OF k(2,1)]]]
    have fit: "k + length mid \<le> length s - length l" "k \<le> length ?w" using c by (auto simp: le_diff_conv2)
    then obtain i where i: "i \<le> k" "find_sub mid ?w = Some i"
      using find_sub_found[of mid k ?w] prefix_window k(2) by blast
    have "glob_interior mids (drop (i + length mid) ?w)" "glob_interior mids (drop 0 ?w)"
      using c i(1) glob_interior_mono[of mids "k + length mid" ?w] by (simp, blast)
    then show "ends_with s l \<and> glob_interior (mid # mids) ?w" using c i(2) by simp
  next
    assume r: "ends_with s l \<and> glob_interior (mid # mids) ?w"
    obtain k where k: "k + length mid \<le> length ?w" "is_prefix_of mid (drop k ?w)" "glob_interior mids (drop (k + length mid) ?w)"
    proof (cases "mid = []")
      case True
      then show ?thesis using r that[of 0] by (simp add: is_prefix_of_def)
    next
      case False
      then obtain i where "find_sub mid ?w = Some i" "glob_interior mids (drop (i + length mid) ?w)"
        using r by (auto split: option.splits)
      then show ?thesis using that find_sub_Some find_sub_len by blast
    qed
    have len: "length l \<le> length s" using r by (simp add: ends_with_def)
    have pre: "is_prefix_of mid (drop k s)" using k(1,2) prefix_window[of k mid "length s - length l" s] by simp
    have "gaps (mids @ [l]) (drop (k + length mid) s)"
      using k(1,3) r len cut[of "k + length mid" s] by simp
    then show "gaps ((mid # mids) @ [l]) s"
      using pre k(1) by (auto intro!: exI[of _ k])
  qed
qed

lemma glob_match_ref: "glob_match p s = glob_ref p s"
proof -
  obtain f ps where f: "split_char (CHR ''*'') p = f # ps"
    using split_char_ne[of "CHR ''*''" p] by (cases "split_char (CHR ''*'') p") auto
  show ?thesis
  proof (cases "ps = []")
    case True
    then have "p = f" using f
      by (induction p arbitrary: f) (auto simp: split_char_ne split: if_splits list.splits)
    moreover have "glob_ref p s \<longleftrightarrow> is_prefix_of f s \<and> drop (length f) s = []"
      by (simp add: glob_ref_parts[of p s] f True)
    ultimately show ?thesis
      using f True by (auto simp: glob_match_def prefix_iff)
  next
    case False
    then obtain mids l where ps: "ps = mids @ [l]" by (metis append_butlast_last_id)
    have "glob_ref p s \<longleftrightarrow> is_prefix_of f s \<and> ends_with (drop (length f) s) l
        \<and> glob_interior mids (take (length s - length f - length l) (drop (length f) s))"
      by (simp add: glob_ref_parts[of p s] f ps gaps_interior)
    also have "\<dots> \<longleftrightarrow> glob_match p s"
    proof (cases "is_prefix_of f s")
      case True
      then have le: "length f \<le> length s" by (auto simp: prefix_iff)
      have "take (length s - length f - length l) (drop (length f) s) = drop (length f) (take (length s - length l) s)"
        by (simp add: drop_take add.commute)
      then show ?thesis
        using True le by (auto simp: glob_match_def f ps ends_with_drop[OF le] Let_def ends_with_def)
    qed (simp add: glob_match_def f ps Let_def)
    finally show ?thesis by simp
  qed
qed

text \<open>C17. The glob matcher of index patterns, which anchors the first and last literal and searches the others greedily from
  left to right, agrees with the reference matcher that tries every length for each star.\<close>

theorem glob_match_reference: "glob_match p s \<longleftrightarrow> glob_ref p s"
  by (rule glob_match_ref)

subsection \<open>Jobs keep their keys\<close>

lemma reg_ok_jobs:
  "reg_ok reg \<Longrightarrow> jobs_ok jobs \<Longrightarrow> reg_ok (flush_jobs io (reg\<lparr>r_jobs := jobs\<rparr>))"
  "reg_ok reg \<Longrightarrow> jobs_ok jobs \<Longrightarrow> reg_ok (flush_jobs io (reg\<lparr>r_next_job := n, r_jobs := jobs\<rparr>))"
  by (auto simp: reg_ok_def token_idx_ok_def pool_ok_def flush_jobs_def)

lemma reg_ok_jobsD: "reg_ok reg \<Longrightarrow> jobs_ok (r_jobs reg)"
  by (simp add: reg_ok_def)

lemma jobs_ok_insert: "jobs_ok jobs \<Longrightarrow> jb_id j = k \<Longrightarrow> jobs_ok (bt_insert k j jobs)"
  by (auto simp: jobs_ok_def split: if_splits)

lemma jobs_ok_fail: "jobs_ok jobs \<Longrightarrow> jobs_ok (bt_map_values fail_job jobs)"
  by (auto simp: jobs_ok_def fail_job_def)

lemma create_job_ok [op_ok]: "reg_ok reg \<Longrightarrow> create_job io now k ix us reg = Some (reg', j) \<Longrightarrow> reg_ok reg'"
proof -
  assume ok: "reg_ok reg" and c: "create_job io now k ix us reg = Some (reg', j)"
  let ?j = "new_job now (r_next_job reg) k ix us"
  obtain jobs where p: "prune_jobs (bt_insert (jb_id ?j) ?j (r_jobs reg)) = Some jobs"
    and r: "reg' = flush_jobs io (reg\<lparr>r_next_job := r_next_job reg + 1, r_jobs := jobs\<rparr>)"
    using c by (auto simp: create_job_def Let_def split: option.splits)
  have "jobs_ok jobs"
    using prune_jobs_prunes[OF jobs_ok_insert[OF reg_ok_jobsD[OF ok], of ?j "jb_id ?j"]] p
    by (auto simp: pruned_to_def)
  then show ?thesis using r reg_ok_jobs(2)[OF ok] by simp
qed

lemma mutate_job_ok [op_ok]:
  "reg_ok reg \<Longrightarrow> (\<And>j. jb_id (f j) = jb_id j) \<Longrightarrow> reg_ok (fst (mutate_job io now i f reg))"
  using reg_ok_jobsD[of reg]
  by (auto simp: mutate_job_def Let_def intro!: reg_ok_jobs jobs_ok_insert split: option.splits) (auto simp: jobs_ok_def)

lemma request_job_cancel_ok [op_ok]: "reg_ok reg \<Longrightarrow> reg_ok (fst (request_job_cancel io now i reg))"
  using reg_ok_jobsD[of reg]
  by (auto simp: request_job_cancel_def Let_def intro!: reg_ok_jobs jobs_ok_insert split: option.splits) (auto simp: jobs_ok_def)

subsection \<open>Tokens\<close>

lemma token_index_rev: "token_index tk = rev (map (\<lambda>(i, t). (tk_hash t, i)) tk)"
proof -
  have "fold (\<lambda>(i, t) m. (tk_hash t, i) # m) tk acc = rev (map (\<lambda>(i, t). (tk_hash t, i)) tk) @ acc" for acc
    by (induction tk arbitrary: acc) auto
  then show ?thesis by (simp add: token_index_def)
qed

lemma token_index_get: "map_of (token_index tk) h = Some i \<Longrightarrow> \<exists>t. (i, t) \<in> set tk \<and> tk_hash t = h"
  by (auto simp: token_index_rev dest!: map_of_SomeD)

lemma token_index_None: "map_of (token_index tk) h = None \<longleftrightarrow> (\<forall>(i, t) \<in> set tk. tk_hash t \<noteq> h)"
  by (force simp: token_index_rev map_of_eq_None_iff)

definition distinct_hashes :: "(string, api_token) btree \<Rightarrow> bool" where
  "distinct_hashes tk \<longleftrightarrow>
     (\<forall>i j t u. bt_get tk i = Some t \<and> bt_get tk j = Some u \<and> tk_hash t = tk_hash u \<longrightarrow> i = j)"

lemma find_token_iff:
  assumes ok: "reg_ok reg" and d: "distinct_hashes (c_tokens (r_core reg))"
  shows "find_token reg now h = Some t \<longleftrightarrow>
    (\<exists>i. bt_get (c_tokens (r_core reg)) i = Some t \<and> tk_hash t = h \<and> \<not> is_expired t now)"
proof -
  let ?tk = "c_tokens (r_core reg)"
  have idx: "r_token_by_hash reg = token_index ?tk" and bt: "bt_ok ?tk"
    using ok by (auto simp: reg_ok_def token_idx_ok_def core_ok_def)
  show ?thesis
  proof (cases "map_of (token_index ?tk) h")
    case None
    then have "find_token reg now h = None" by (simp add: find_token_def idx)
    moreover have "tk_hash t \<noteq> h" if "bt_get ?tk i = Some t" for i
      using None that bt_get_mem[of ?tk i t] by (auto simp: token_index_None)
    ultimately show ?thesis by auto
  next
    case (Some i)
    then obtain u where u: "bt_get ?tk i = Some u" "tk_hash u = h"
      using token_index_get[OF Some] bt by (auto simp: bt_mem_get)
    have "i' = i" if "bt_get ?tk i' = Some t" "tk_hash t = h" for i'
      using d u that unfolding distinct_hashes_def by blast
    then show ?thesis
      using Some u by (auto simp: find_token_def idx)
  qed
qed

lemma find_token_sound:
  assumes "reg_ok reg" "find_token reg now h = Some t"
  shows "(\<exists>i. bt_get (c_tokens (r_core reg)) i = Some t) \<and> tk_hash t = h \<and> \<not> is_expired t now"
proof -
  have "map_of (r_token_by_hash reg) h = Some i \<Longrightarrow> bt_get (c_tokens (r_core reg)) i = Some u \<Longrightarrow> tk_hash u = h" for i u
    using assms(1) token_index_get[of "c_tokens (r_core reg)" h i]
    by (auto simp: reg_ok_def token_idx_ok_def core_ok_def bt_mem_get)
  then show ?thesis
    using assms(2) by (auto simp: find_token_def split: option.splits if_splits)
qed

subsection \<open>Names\<close>

lemma alias_target_registered:
  "reg_ok reg \<Longrightarrow> alias_targets reg a = Some ts \<Longrightarrow> n \<in> set ts \<Longrightarrow> bt_get (c_indexes (r_core reg)) n \<noteq> None"
  unfolding reg_ok_def core_ok_def aliases_ok_def alias_targets_def bt_keys_get[symmetric] by blast

lemma resolve_name_registered:
  "reg_ok reg \<Longrightarrow> n \<in> set (resolve_name reg name) \<Longrightarrow> bt_get (c_indexes (r_core reg)) n \<noteq> None"
  using alias_target_registered[of reg name _ n]
  by (auto simp: resolve_name_def alias_targets_def bt_contains_iff bt_keys_get split: option.splits if_splits)

lemma resolve_name_glob:
  "alias_targets reg name = None \<Longrightarrow> \<not> bt_contains (c_indexes (r_core reg)) name \<Longrightarrow> CHR ''*'' \<in> set name
     \<Longrightarrow> set (resolve_name reg name) = {n. bt_get (c_indexes (r_core reg)) n \<noteq> None \<and> glob_ref name n}"
  by (auto simp: resolve_name_def alias_targets_def bt_keys_get glob_match_ref)

end
