(* ===== verification/Json_Backend.thy ===== *)
theory Json_Backend
  imports Registry
begin

section \<open>The JSON file backend\<close>

text \<open>
  Models \<open>JsonFileBackend\<close> of \<open>growlerdb-controlplane/src/backend.rs\<close>: the file format's envelope, loading with
  the fallback to the previous snapshot, best-effort sidecars, and the persists, on the file system of theory
  \<open>Durable\<close>. \<open>serde_json\<close> is a parameter (\<open>json_codec\<close>). The refinement at the end connects the file to the field
  \<open>r_store\<close> of the registry model: the answers a \<open>backend_io\<close> gives are the ones this backend can give.
\<close>

subsection \<open>Envelope and paths\<close>

definition REGISTRY_VERSION :: nat where "REGISTRY_VERSION = 1"

record registry_file =
  rf_version :: nat
  rf_core :: core

definition empty_file :: registry_file where
  "empty_file = \<lparr>rf_version = REGISTRY_VERSION, rf_core = empty_core\<rparr>"

definition from_snapshot :: "core \<Rightarrow> registry_file" where
  "from_snapshot c = \<lparr>rf_version = REGISTRY_VERSION, rf_core = c\<rparr>"

definition into_persisted ::
    "registry_file \<Rightarrow> (string, activity_event list) btree \<Rightarrow> (string, int) btree \<Rightarrow> (string, reindex_job) btree
       \<Rightarrow> persisted" where
  "into_persisted f activity session_epochs jobs =
     \<lparr>ps_core = rf_core f, ps_activity = activity, ps_session_epochs = session_epochs, ps_jobs = jobs\<rparr>"

record json_backend =
  jf_path :: string
  jf_activity_path :: string
  jf_session_epochs_path :: string
  jf_jobs_path :: string

text \<open>\<open>Path::with_extension\<close> on a file name: the last dot and what follows it are replaced, a leading dot is not an
  extension.\<close>

definition with_extension :: "string \<Rightarrow> string \<Rightarrow> string" where
  "with_extension name ext =
     (let r = dropWhile (\<lambda>c. c \<noteq> CHR ''.'') (rev name) in
      (if length r \<le> 1 then name else rev (tl r)) @ ''.'' @ ext)"

text \<open>\<open>open\<close>: whether the directory and the lock file can be created, and whether another process holds the lock.\<close>

definition open_json :: "bool \<Rightarrow> bool \<Rightarrow> (string \<Rightarrow> bool) \<Rightarrow> string \<Rightarrow> registry_error + json_backend" where
  "open_json mkdir create_lock locked path =
     (let lock_path = with_extension path ''lock'' in
      if \<not> mkdir \<or> \<not> create_lock then Inl (Io CreateFailed)
      else if locked lock_path then Inl (Locked lock_path)
      else Inr \<lparr>jf_path = path, jf_activity_path = ''activity.json'', jf_session_epochs_path = ''sessions.json'',
                jf_jobs_path = ''jobs.json''\<rparr>)"

subsection \<open>Loading\<close>

record json_codec =
  cd_encode :: "registry_file \<Rightarrow> string + byte list"
  cd_decode :: "byte list \<Rightarrow> string + registry_file"
  cd_encode_activity :: "(string, activity_event list) btree \<Rightarrow> string + byte list"
  cd_decode_activity :: "byte list \<Rightarrow> string + (string, activity_event list) btree"
  cd_encode_sessions :: "(string, int) btree \<Rightarrow> string + byte list"
  cd_decode_sessions :: "byte list \<Rightarrow> string + (string, int) btree"
  cd_encode_jobs :: "(string, reindex_job) btree \<Rightarrow> string + byte list"
  cd_decode_jobs :: "byte list \<Rightarrow> string + (string, reindex_job) btree"

text \<open>\<open>std::fs::read\<close>; \<open>rd\<close> says which files can be read.\<close>

definition fs_read :: "(string \<Rightarrow> bool) \<Rightarrow> fs \<Rightarrow> string \<Rightarrow> registry_error + byte list" where
  "fs_read rd s n =
     (case read_file s n of Some b \<Rightarrow> if rd n then Inr b else Inl (Io ReadFailed) | None \<Rightarrow> Inl (Io ReadFailed))"

definition parse_core :: "json_codec \<Rightarrow> byte list \<Rightarrow> registry_error + registry_file" where
  "parse_core cd b = (case cd_decode cd b of Inl e \<Rightarrow> Inl (Codec e) | Inr f \<Rightarrow> Inr f)"

definition load_core :: "json_codec \<Rightarrow> (string \<Rightarrow> bool) \<Rightarrow> fs \<Rightarrow> string \<Rightarrow> registry_error + registry_file" where
  "load_core cd rd s path =
     (case res_bind (fs_read rd s path) (parse_core cd) of
        Inr loaded \<Rightarrow> Inr loaded
      | Inl primary \<Rightarrow>
          if fs_dir s (prev_path path) \<noteq> None then res_bind (fs_read rd s (prev_path path)) (parse_core cd)
          else Inl primary)"

definition read_sidecar :: "(byte list \<Rightarrow> string + ('k, 'v) btree) \<Rightarrow> (string \<Rightarrow> bool) \<Rightarrow> fs \<Rightarrow> string \<Rightarrow> ('k, 'v) btree" where
  "read_sidecar dec rd s n =
     (case fs_read rd s n of Inl _ \<Rightarrow> [] | Inr b \<Rightarrow> (case dec b of Inl _ \<Rightarrow> [] | Inr m \<Rightarrow> m))"

definition load_json :: "json_codec \<Rightarrow> (string \<Rightarrow> bool) \<Rightarrow> fs \<Rightarrow> json_backend \<Rightarrow> registry_error + persisted" where
  "load_json cd rd s jf =
     res_bind (if fs_dir s (jf_path jf) \<noteq> None then load_core cd rd s (jf_path jf) else Inr empty_file)
       (\<lambda>f. Inr (into_persisted f
          (read_sidecar (cd_decode_activity cd) rd s (jf_activity_path jf))
          (read_sidecar (cd_decode_sessions cd) rd s (jf_session_epochs_path jf))
          (read_sidecar (cd_decode_jobs cd) rd s (jf_jobs_path jf))))"

subsection \<open>Persisting\<close>

record persist_env =
  pe_keep :: keep_answers
  pe_write :: write_answers
  pe_pid :: nat
  pe_nonce :: nat

type_synonym json_run = "fs list \<times> (registry_error + unit)"

definition write_json :: "persist_env \<Rightarrow> string \<Rightarrow> string + byte list \<Rightarrow> fs \<Rightarrow> json_run" where
  "write_json pe path json s =
     (case json of
        Inl e \<Rightarrow> ([], Inl (Codec e))
      | Inr b \<Rightarrow>
          (case write_keeping_prev (pe_keep pe) (pe_write pe) (pe_pid pe) (pe_nonce pe) path b s of
             (ts, Inl e) \<Rightarrow> (ts, Inl (Io e))
           | (ts, Inr _) \<Rightarrow> (ts, Inr ())))"

definition json_persist_registry :: "json_codec \<Rightarrow> persist_env \<Rightarrow> json_backend \<Rightarrow> core \<Rightarrow> fs \<Rightarrow> json_run" where
  "json_persist_registry cd pe jf snapshot s =
     write_json pe (jf_path jf) (cd_encode cd (from_snapshot snapshot)) s"

definition json_persist_activity ::
    "json_codec \<Rightarrow> persist_env \<Rightarrow> json_backend \<Rightarrow> (string, activity_event list) btree \<Rightarrow> fs \<Rightarrow> json_run" where
  "json_persist_activity cd pe jf activity s =
     write_json pe (jf_activity_path jf) (cd_encode_activity cd activity) s"

definition json_persist_sessions ::
    "json_codec \<Rightarrow> persist_env \<Rightarrow> json_backend \<Rightarrow> (string, int) btree \<Rightarrow> fs \<Rightarrow> json_run" where
  "json_persist_sessions cd pe jf sessions s =
     write_json pe (jf_session_epochs_path jf) (cd_encode_sessions cd sessions) s"

definition json_persist_jobs ::
    "json_codec \<Rightarrow> persist_env \<Rightarrow> json_backend \<Rightarrow> (string, reindex_job) btree \<Rightarrow> fs \<Rightarrow> json_run" where
  "json_persist_jobs cd pe jf jobs s = write_json pe (jf_jobs_path jf) (cd_encode_jobs cd jobs) s"

subsection \<open>The file holds a catalog\<close>

text \<open>The contents of the file stand for the catalog \<open>c\<close>.\<close>

definition shows_core :: "json_codec \<Rightarrow> byte list option \<Rightarrow> core \<Rightarrow> bool" where
  "shows_core cd v c \<longleftrightarrow>
     (case v of
        None \<Rightarrow> c = empty_core
      | Some b \<Rightarrow> (case cd_decode cd b of Inl _ \<Rightarrow> False | Inr f \<Rightarrow> rf_core f = c))"

text \<open>It does, and whatever a crash leaves of it does too.\<close>

definition holds_core :: "json_codec \<Rightarrow> json_backend \<Rightarrow> fs \<Rightarrow> core \<Rightarrow> bool" where
  "holds_core cd jf s c \<longleftrightarrow> fs_ok s \<and> (\<forall>v \<in> possible s (jf_path jf). shows_core cd v c)"

abbreviation loaded_core :: "json_codec \<Rightarrow> json_backend \<Rightarrow> fs \<Rightarrow> registry_error + core" where
  "loaded_core cd jf s \<equiv> res_bind (load_json cd (\<lambda>_. True) s jf) (\<lambda>p. Inr (ps_core p))"

lemma load_shows:
  assumes "shows_core cd (read_file s (jf_path jf)) c"
  shows "loaded_core cd jf s = Inr c"
  using assms
  by (auto simp: shows_core_def load_json_def load_core_def fs_read_def parse_core_def into_persisted_def
        empty_file_def read_file_def split: option.splits sum.splits)

lemma possible_crash:
  assumes "fs_ok t" and "\<not> is_tmp n"
  shows "possible (crash pick junk t) n = {read_file (crash pick junk t) n}"
  by (simp add: possible_def read_file_def fs_dir_def crash_def)

text \<open>What the model of the registry calls the backend's answer.\<close>

definition json_answer :: "json_codec \<Rightarrow> json_backend \<Rightarrow> core \<Rightarrow> fs \<Rightarrow> registry_error + unit \<Rightarrow> persist_answer" where
  "json_answer cd jf old t r =
     (case r of
        Inr _ \<Rightarrow> Persisted
      | Inl e \<Rightarrow> if loaded_core cd jf t = Inr old then Refused e else Unconfirmed e)"

lemma persist_store:
  "\<not> r_rollback_failed reg \<Longrightarrow>
   r_store (fst (persist_snapshot io reg)) =
     (case io_persist io of Refused _ \<Rightarrow> r_store reg | _ \<Rightarrow> r_core reg)"
  by (auto simp: persist_snapshot_def roll_back_def restore_core_def notify_if_placement_changed_def
        rebuild_token_index_def Let_def split: persist_answer.splits option.splits)

lemma write_json_cases:
  assumes ok: "fs_ok s" and path: "\<not> is_tmp path" and run: "write_json pe path (Inr b) s = (ts, r)"
  shows "ts \<noteq> []" and "t \<in> set ts \<Longrightarrow> old_or_new path b s t"
    and "r = Inr () \<Longrightarrow> settled (last ts) \<and> read_file (last ts) path = Some b"
    and "r = Inl e \<Longrightarrow> e \<noteq> Io DirSyncFailed \<Longrightarrow> untouched path s (last ts)"
proof -
  obtain q where w: "write_keeping_prev (pe_keep pe) (pe_write pe) (pe_pid pe) (pe_nonce pe) path b s = (ts, q)"
      and q: "r = (case q of Inl e \<Rightarrow> Inl (Io e) | Inr _ \<Rightarrow> Inr ())"
    using run by (auto simp: write_json_def split: prod.splits sum.splits)
  note k = keep_own [OF ok path w]
  show "ts \<noteq> []" "t \<in> set ts \<Longrightarrow> old_or_new path b s t" using k(1,2) by blast+
  show "r = Inr () \<Longrightarrow> settled (last ts) \<and> read_file (last ts) path = Some b"
    using k(3) q by (auto split: sum.splits)
  show "r = Inl e \<Longrightarrow> e \<noteq> Io DirSyncFailed \<Longrightarrow> untouched path s (last ts)"
    using k(4) q by (auto split: sum.splits)
qed

lemma shows_read_crash:
  assumes "old_or_new (jf_path jf) b s t" and "\<not> is_tmp (jf_path jf)" and "holds_core cd jf s old"
    and "cd_decode cd b = Inr (from_snapshot new)"
  shows "\<exists>c \<in> {old, new}. shows_core cd (read_file (crash pick junk t) (jf_path jf)) c"
    and "\<exists>c \<in> {old, new}. shows_core cd (read_file t (jf_path jf)) c"
proof -
  have "shows_core cd (Some b) new" using assms(4) by (simp add: shows_core_def from_snapshot_def)
  then have "\<exists>c \<in> {old, new}. shows_core cd v c" if "v \<in> possible t (jf_path jf)" for v
    using that assms(1,3) by (auto simp: old_or_new_def holds_core_def)
  then show "\<exists>c \<in> {old, new}. shows_core cd (read_file (crash pick junk t) (jf_path jf)) c"
    and "\<exists>c \<in> {old, new}. shows_core cd (read_file t (jf_path jf)) c"
    using read_crash [of t "jf_path jf"] read_possible [of t "jf_path jf"] assms(1,2) by (auto simp: old_or_new_def)
qed

text \<open>An empty directory, a codec for two catalogs, and answers without a failure.\<close>

definition blank_fs :: fs where
  "blank_fs = \<lparr>fs_data = (\<lambda>_. []), fs_synced = [], fs_next = 0, fs_dirs = [Map.empty]\<rparr>"

definition alias_core :: core where
  "alias_core = empty_core\<lparr>c_aliases := [(''logs'', [])]\<rparr>"

definition two_codec :: json_codec where
  "two_codec = \<lparr>cd_encode = (\<lambda>f. Inr (if c_aliases (rf_core f) = [] then [0] else [1])),
     cd_decode = (\<lambda>b. Inr (from_snapshot (if b = [1] then alias_core else empty_core))),
     cd_encode_activity = (\<lambda>_. Inr []), cd_decode_activity = (\<lambda>_. Inr []),
     cd_encode_sessions = (\<lambda>_. Inr []), cd_decode_sessions = (\<lambda>_. Inr []),
     cd_encode_jobs = (\<lambda>_. Inr []), cd_decode_jobs = (\<lambda>_. Inr [])\<rparr>"

definition fine_env :: persist_env where
  "fine_env =
     (let ok = \<lparr>an_create = True, an_write = None, an_sync = True, an_rename = True, an_dir = True, an_unlink = True\<rparr> in
      \<lparr>pe_keep = \<lparr>ka_remove = True, ka_link = True, ka_read = True, ka_copy = ok\<rparr>, pe_write = ok, pe_pid = 7, pe_nonce = 0\<rparr>)"

definition plain_json :: json_backend where
  "plain_json = \<lparr>jf_path = ''registry.json'', jf_activity_path = ''activity.json'',
     jf_session_epochs_path = ''sessions.json'', jf_jobs_path = ''jobs.json''\<rparr>"

definition plain_io :: backend_io where
  "plain_io = \<lparr>io_persist = Persisted, io_load = None, io_sidecar = Persisted, io_hash = (\<lambda>_. 0)\<rparr>"

definition alias_registry :: registry where
  "alias_registry =
     (with_backend plain_io \<lparr>ps_core = empty_core, ps_activity = [], ps_session_epochs = [], ps_jobs = []\<rparr>)
       \<lparr>r_core := alias_core\<rparr>"

subsection \<open>The refinement\<close>

text \<open>C5. The JSON file implements the durable store of the registry model. A persist of the catalog in
  memory, with any of its system calls failing, leaves a file that loads to exactly the store the model
  computes for the corresponding backend answer. A power loss between any two of the calls leaves a file
  that loads to the catalog before or to the catalog after, and nothing else. A persist that reports success
  survives every later crash; one that reports an error other than the directory sync's has not changed
  the file.\<close>

theorem json_backend_refines:
  assumes store: "holds_core cd jf s (r_store reg)" and path: "\<not> is_tmp (jf_path jf)"
    and enc: "cd_encode cd (from_snapshot (r_core reg)) = Inr b"
    and dec: "cd_decode cd b = Inr (from_snapshot (r_core reg))"
    and run: "json_persist_registry cd pe jf (r_core reg) s = (ts, r)"
    and reg: "\<not> r_rollback_failed reg"
    and io: "io_persist io = json_answer cd jf (r_store reg) (last ts) r"
  shows "loaded_core cd jf (last ts) = Inr (r_store (fst (persist_snapshot io reg)))
    \<and> (\<forall>t \<in> set ts. \<forall>pick junk. \<exists>c \<in> {r_store reg, r_core reg}.
          holds_core cd jf (crash pick junk t) c \<and> loaded_core cd jf (crash pick junk t) = Inr c)
    \<and> (r = Inr () \<longrightarrow> holds_core cd jf (last ts) (r_core reg))
    \<and> (\<forall>e. r = Inl e \<longrightarrow> e \<noteq> Io DirSyncFailed \<longrightarrow> holds_core cd jf (last ts) (r_store reg))"
proof -
  have ok: "fs_ok s" using store by (simp add: holds_core_def)
  have w: "write_json pe (jf_path jf) (Inr b) s = (ts, r)"
    using run enc by (simp add: json_persist_registry_def)
  note k = write_json_cases [OF ok path w]
  have last: "old_or_new (jf_path jf) b s (last ts)" using k(1,2) by simp
  note sh = shows_read_crash [OF _ path store dec]
  have crash: "\<exists>c \<in> {r_store reg, r_core reg}.
      holds_core cd jf (crash pick junk t) c \<and> loaded_core cd jf (crash pick junk t) = Inr c"
    if "t \<in> set ts" for t pick junk
  proof -
    have t: "fs_ok t" using k(2) [OF that] by (simp add: old_or_new_def)
    show ?thesis
      using sh(1) [OF k(2) [OF that], of pick junk] load_shows [of cd "crash pick junk t" jf] crash_ok [OF t]
        possible_crash [OF t path] by (auto simp: holds_core_def)
  qed
  have new: "holds_core cd jf (last ts) (r_core reg)" if "r = Inr ()"
    using k(3) [OF that] path last dec
    by (auto simp: holds_core_def settled_def old_or_new_def shows_core_def from_snapshot_def)
  have "loaded_core cd jf (last ts) = Inr (r_store (fst (persist_snapshot io reg)))"
  proof (cases r)
    case (Inr u)
    then have "shows_core cd (read_file (last ts) (jf_path jf)) (r_core reg)"
      using new read_possible [of "last ts"] by (auto simp: holds_core_def)
    then show ?thesis using load_shows [of cd "last ts" jf] Inr io persist_store [OF reg, of io] by (simp add: json_answer_def)
  next
    case (Inl e)
    have "loaded_core cd jf (last ts) \<in> {Inr (r_store reg), Inr (r_core reg)}"
      using sh(2) [OF last] load_shows [of cd "last ts" jf] by auto
    then show ?thesis using Inl io persist_store [OF reg, of io] by (auto simp: json_answer_def split: if_splits)
  qed
  moreover have "holds_core cd jf (last ts) (r_store reg)" if "r = Inl e" "e \<noteq> Io DirSyncFailed" for e
    using k(4) [OF that] store by (auto simp: holds_core_def untouched_def)
  ultimately show ?thesis using crash new by blast
qed

theorem json_backend_refines_witness:
  "\<exists>ts. json_persist_registry two_codec fine_env plain_json alias_core blank_fs = (ts, Inr ()) \<and> length ts = 5
     \<and> loaded_core two_codec plain_json (last ts) = Inr alias_core
     \<and> (\<exists>c \<in> {empty_core, alias_core}. loaded_core two_codec plain_json (crash 1 (\<lambda>_. [9]) (ts ! 3)) = Inr c)"
proof -
  obtain ts where run: "json_persist_registry two_codec fine_env plain_json alias_core blank_fs = (ts, Inr ())"
      and len: "length ts = 5"
    by (simp add: json_persist_registry_def write_json_def write_keeping_prev_def durable_write_def fine_env_def
        two_codec_def blank_fs_def read_file_def fs_dir_def create_file_def Let_def)
  have reg: "r_core alias_registry = alias_core" "r_store alias_registry = empty_core" "\<not> r_rollback_failed alias_registry"
    by (simp_all add: alias_registry_def with_backend_def)
  have store: "holds_core two_codec plain_json blank_fs (r_store alias_registry)"
    by (simp add: reg holds_core_def fs_ok_def blank_fs_def possible_def shows_core_def private_tmps_def)
  have path: "\<not> is_tmp (jf_path plain_json)" by (simp add: is_tmp_def plain_json_def)
  have codec: "cd_encode two_codec (from_snapshot (r_core alias_registry)) = Inr [1]"
    "cd_decode two_codec [1] = Inr (from_snapshot (r_core alias_registry))"
    by (simp_all add: reg two_codec_def from_snapshot_def alias_core_def)
  have io: "io_persist plain_io = json_answer two_codec plain_json (r_store alias_registry) (last ts) (Inr ())"
    by (simp add: plain_io_def json_answer_def)
  note all = json_backend_refines [OF store path codec run [folded reg(1)] reg(3) io]
  have "ts ! 3 \<in> set ts" using len by simp
  then have "\<exists>c \<in> {empty_core, alias_core}. loaded_core two_codec plain_json (crash 1 (\<lambda>_. [9]) (ts ! 3)) = Inr c"
    using all [THEN conjunct2, THEN conjunct1] unfolding reg by blast
  moreover have "r_store (fst (persist_snapshot plain_io alias_registry)) = alias_core"
    using persist_store [OF reg(3)] by (simp add: plain_io_def reg)
  ultimately show ?thesis using run len all [THEN conjunct1] by auto
qed

end
