(* ===== verification/Postgres_Backend.thy ===== *)
theory Postgres_Backend
  imports Json_Backend
begin

section \<open>The Postgres backend\<close>

text \<open>
  Models \<open>growlerdb-controlplane/src/postgres_backend.rs\<close>, with the promotion of a standby in \<open>registry.rs\<close>: the
  table \<open>cp_state\<close> with one versioned document per row, the session-level advisory lock, and the replicas of the
  control plane, each with the worker that owns its session. A call to the worker runs and answers, runs and
  loses its answer, or fails before it runs; a session may end at any moment, with or without its worker
  thread, and Postgres then releases the lock it held. The documents are a parameter type with their
  \<open>serde_json\<close> codec. Schema creation is not modelled.
\<close>

subsection \<open>The server\<close>

record 'd pg_row =
  row_version :: int
  row_doc :: 'd

type_synonym 'd table = "(string, 'd pg_row) btree"

text \<open>The lock's holder with the number of times it took it; the next fresh session.\<close>

record 'd server =
  sv_table :: "'d table"
  sv_lock :: "(nat \<times> nat) option"
  sv_next :: nat

text \<open>The guarded \<open>INSERT ... ON CONFLICT DO UPDATE\<close> and its number of rows.\<close>

definition upsert :: "string \<Rightarrow> int \<Rightarrow> 'd \<Rightarrow> 'd server \<Rightarrow> 'd server \<times> nat" where
  "upsert key expected doc sv =
     (case bt_get (sv_table sv) key of
        None \<Rightarrow> (sv\<lparr>sv_table := bt_insert key \<lparr>row_version = expected + 1, row_doc = doc\<rparr> (sv_table sv)\<rparr>, 1)
      | Some row \<Rightarrow>
          if row_version row = expected
          then (sv\<lparr>sv_table := bt_insert key \<lparr>row_version = row_version row + 1, row_doc = doc\<rparr> (sv_table sv)\<rparr>, 1)
          else (sv, 0))"

definition try_advisory_lock :: "nat \<Rightarrow> 'd server \<Rightarrow> 'd server \<times> bool" where
  "try_advisory_lock i sv =
     (case sv_lock sv of
        None \<Rightarrow> (sv\<lparr>sv_lock := Some (i, 1)\<rparr>, True)
      | Some (j, n) \<Rightarrow> if j = i then (sv\<lparr>sv_lock := Some (i, n + 1)\<rparr>, True) else (sv, False))"

definition advisory_unlock :: "nat \<Rightarrow> 'd server \<Rightarrow> 'd server" where
  "advisory_unlock i sv =
     (case sv_lock sv of
        None \<Rightarrow> sv
      | Some (j, n) \<Rightarrow> if j \<noteq> i then sv else sv\<lparr>sv_lock := (if n \<le> 1 then None else Some (i, n - 1))\<rparr>)"

definition end_session :: "nat \<Rightarrow> 'd server \<Rightarrow> 'd server" where
  "end_session i sv =
     (case sv_lock sv of
        None \<Rightarrow> sv
      | Some (j, n) \<Rightarrow> if j = i then sv\<lparr>sv_lock := None\<rparr> else sv)"

subsection \<open>The backend\<close>

text \<open>The worker: serving a live session, serving a broken one, or gone.\<close>

datatype worker = Live nat | Broken | Gone

record pg_backend =
  pb_worker :: worker
  pb_is_writer :: bool
  pb_versions :: "(string, int) btree"

datatype reply = Ran | Lost | Failed

type_synonym 'd conn = "'d server \<times> pg_backend"

definition on_worker :: "reply \<Rightarrow> (nat \<Rightarrow> 'd server \<Rightarrow> 'd server \<times> 'a) \<Rightarrow> 'd conn \<Rightarrow> 'd conn \<times> (registry_error + 'a)" where
  "on_worker a f = (\<lambda>(sv, b).
     case pb_worker b of
       Gone \<Rightarrow> ((sv, b\<lparr>pb_is_writer := False\<rparr>), Inl (Backend ''control-plane postgres worker is gone''))
     | Broken \<Rightarrow> ((sv, b), Inl (Backend ''connection closed''))
     | Live i \<Rightarrow>
         (case a of
            Ran \<Rightarrow> (let (sv', x) = f i sv in ((sv', b), Inr x))
          | Lost \<Rightarrow> ((fst (f i sv), b), Inl (Backend ''connection closed''))
          | Failed \<Rightarrow> ((sv, b), Inl (Backend ''connection closed''))))"

definition session_alive :: "reply \<Rightarrow> 'd conn \<Rightarrow> 'd conn \<times> bool" where
  "session_alive a c = (case on_worker a (\<lambda>i sv. (sv, ())) c of (c', Inl _) \<Rightarrow> (c', False) | (c', Inr _) \<Rightarrow> (c', True))"

text \<open>A fresh worker, when the connection is made; the session of the old one ends.\<close>

definition revive_worker :: "bool \<Rightarrow> 'd conn \<Rightarrow> 'd conn \<times> (registry_error + unit)" where
  "revive_worker connects = (\<lambda>(sv, b).
     if \<not> connects then ((sv, b), Inl (Backend ''connect''))
     else
       let sv1 = (case pb_worker b of Live i \<Rightarrow> end_session i sv | _ \<Rightarrow> sv)
       in ((sv1\<lparr>sv_next := sv_next sv1 + 1\<rparr>, b\<lparr>pb_worker := Live (sv_next sv1)\<rparr>), Inr ()))"

definition store_version :: "'d table \<Rightarrow> int" where
  "store_version t = sum_list (map row_version (bt_values t))"

definition poll_version :: "reply \<Rightarrow> 'd conn \<Rightarrow> 'd conn \<times> (registry_error + int option)" where
  "poll_version a c =
     (case on_worker a (\<lambda>i sv. (sv, store_version (sv_table sv))) c of
        (c', Inl e) \<Rightarrow> (c', Inl e)
      | (c', Inr v) \<Rightarrow> (c', Inr (Some v)))"

definition ensure_leader :: "pg_backend \<Rightarrow> registry_error + unit" where
  "ensure_leader b =
     (if pb_is_writer b then Inr ()
      else Inl (NotLeader ''this control plane is a standby; retry against the current leader''))"

definition resign_leadership :: "reply \<Rightarrow> 'd conn \<Rightarrow> 'd conn" where
  "resign_leadership a = (\<lambda>(sv, b).
     fst (on_worker a (\<lambda>i sv. (advisory_unlock i sv, ())) (sv, b\<lparr>pb_is_writer := False\<rparr>)))"

definition confirm_leadership :: "pg_backend \<Rightarrow> pg_backend" where
  "confirm_leadership b = b\<lparr>pb_is_writer := True\<rparr>"

definition version_of :: "(string, int) btree \<Rightarrow> string \<Rightarrow> int" where
  "version_of vs key = (case bt_get vs key of None \<Rightarrow> 0 | Some v \<Rightarrow> v)"

definition persist_doc :: "reply \<Rightarrow> reply \<Rightarrow> string \<Rightarrow> 'd \<Rightarrow> 'd conn \<Rightarrow> 'd conn \<times> (registry_error + unit)" where
  "persist_doc a a_resign key doc c =
     (case ensure_leader (snd c) of
        Inl e \<Rightarrow> (c, Inl e)
      | Inr _ \<Rightarrow>
          (let expected = version_of (pb_versions (snd c)) key in
           case on_worker a (\<lambda>i. upsert key expected doc) c of
             (c', Inl e) \<Rightarrow> (resign_leadership a_resign c', Inl e)
           | ((sv, b), Inr updated) \<Rightarrow>
               if updated = 1
               then ((sv, b\<lparr>pb_versions := bt_insert key (expected + 1) (pb_versions b)\<rparr>), Inr ())
               else (resign_leadership a_resign (sv, b), Inl (NotLeader key))))"

text \<open>The documents with their codec; a missing row gives the default.\<close>

record 'd pg_codec =
  pc_to_registry :: "registry_file \<Rightarrow> string + 'd"
  pc_to_activity :: "(string, activity_event list) btree \<Rightarrow> string + 'd"
  pc_to_sessions :: "(string, int) btree \<Rightarrow> string + 'd"
  pc_to_jobs :: "(string, reindex_job) btree \<Rightarrow> string + 'd"
  pc_registry :: "'d \<Rightarrow> string + registry_file"
  pc_activity :: "'d \<Rightarrow> string + (string, activity_event list) btree"
  pc_sessions :: "'d \<Rightarrow> string + (string, int) btree"
  pc_jobs :: "'d \<Rightarrow> string + (string, reindex_job) btree"

definition row_or :: "('d \<Rightarrow> string + 'a) \<Rightarrow> 'a \<Rightarrow> 'd table \<Rightarrow> string \<Rightarrow> registry_error + 'a" where
  "row_or dec dflt t key =
     (case bt_get t key of
        None \<Rightarrow> Inr dflt
      | Some row \<Rightarrow> (case dec (row_doc row) of Inl e \<Rightarrow> Inl (Codec e) | Inr x \<Rightarrow> Inr x))"

definition pg_decode :: "'d pg_codec \<Rightarrow> 'd table \<Rightarrow> registry_error + persisted" where
  "pg_decode pc t =
     res_bind (row_or (pc_registry pc) empty_file t ''registry'') (\<lambda>core.
     res_bind (row_or (pc_activity pc) [] t ''activity'') (\<lambda>activity.
     res_bind (row_or (pc_sessions pc) [] t ''sessions'') (\<lambda>session_epochs.
     res_bind (row_or (pc_jobs pc) [] t ''jobs'') (\<lambda>jobs.
       Inr (into_persisted core activity session_epochs jobs)))))"

definition pg_load :: "'d pg_codec \<Rightarrow> reply \<Rightarrow> 'd conn \<Rightarrow> 'd conn \<times> (registry_error + persisted)" where
  "pg_load pc a c =
     (case on_worker a (\<lambda>i sv. (sv, sv_table sv)) c of
        (c', Inl e) \<Rightarrow> (c', Inl e)
      | ((sv, b), Inr t) \<Rightarrow> ((sv, b\<lparr>pb_versions := bt_map_values row_version t\<rparr>), pg_decode pc t))"

text \<open>The four persists of the backend: the document, then its row.\<close>

definition persist_value ::
    "reply \<Rightarrow> reply \<Rightarrow> string \<Rightarrow> string + 'd \<Rightarrow> 'd conn \<Rightarrow> 'd conn \<times> (registry_error + unit)" where
  "persist_value a a_resign key doc c =
     (case doc of Inl e \<Rightarrow> (c, Inl (Codec e)) | Inr d \<Rightarrow> persist_doc a a_resign key d c)"

definition pg_persist_registry ::
    "'d pg_codec \<Rightarrow> reply \<Rightarrow> reply \<Rightarrow> core \<Rightarrow> 'd conn \<Rightarrow> 'd conn \<times> (registry_error + unit)" where
  "pg_persist_registry pc a a_resign snapshot =
     persist_value a a_resign ''registry'' (pc_to_registry pc (from_snapshot snapshot))"

definition pg_persist_activity ::
    "'d pg_codec \<Rightarrow> reply \<Rightarrow> reply \<Rightarrow> (string, activity_event list) btree \<Rightarrow> 'd conn \<Rightarrow> 'd conn \<times> (registry_error + unit)" where
  "pg_persist_activity pc a a_resign activity = persist_value a a_resign ''activity'' (pc_to_activity pc activity)"

definition pg_persist_sessions ::
    "'d pg_codec \<Rightarrow> reply \<Rightarrow> reply \<Rightarrow> (string, int) btree \<Rightarrow> 'd conn \<Rightarrow> 'd conn \<times> (registry_error + unit)" where
  "pg_persist_sessions pc a a_resign sessions = persist_value a a_resign ''sessions'' (pc_to_sessions pc sessions)"

definition pg_persist_jobs ::
    "'d pg_codec \<Rightarrow> reply \<Rightarrow> reply \<Rightarrow> (string, reindex_job) btree \<Rightarrow> 'd conn \<Rightarrow> 'd conn \<times> (registry_error + unit)" where
  "pg_persist_jobs pc a a_resign jobs = persist_value a a_resign ''jobs'' (pc_to_jobs pc jobs)"

text \<open>\<open>try_become_leader\<close> of the backend: does not set the writer flag.\<close>

definition try_become_leader ::
    "reply \<Rightarrow> bool \<Rightarrow> reply \<Rightarrow> 'd conn \<Rightarrow> 'd conn \<times> (registry_error + bool)" where
  "try_become_leader a_alive connects a_lock c =
     (if pb_is_writer (snd c) then (c, Inr True)
      else
        case session_alive a_alive c of (c1, alive) \<Rightarrow>
          (case (if alive then (c1, Inr ()) else revive_worker connects c1) of
             (c2, Inl e) \<Rightarrow> (c2, Inl e)
           | (c2, Inr _) \<Rightarrow> on_worker a_lock try_advisory_lock c2))"

definition verify_leadership :: "reply \<Rightarrow> 'd conn \<Rightarrow> 'd conn \<times> bool" where
  "verify_leadership a c =
     (if \<not> pb_is_writer (snd c) then (c, False)
      else
        case session_alive a c of
          (c1, True) \<Rightarrow> (c1, True)
        | ((sv, b), False) \<Rightarrow> ((sv, b\<lparr>pb_is_writer := False\<rparr>), False))"

text \<open>The promotion in the registry: the lock, a full reload, and only then the flag; a failed reload gives the lock
  back.\<close>

definition promote ::
    "'d pg_codec \<Rightarrow> reply \<Rightarrow> bool \<Rightarrow> reply \<Rightarrow> reply \<Rightarrow> reply \<Rightarrow> 'd conn
       \<Rightarrow> 'd conn \<times> (registry_error + bool \<times> persisted option)" where
  "promote pc a_alive connects a_lock a_load a_resign c =
     (if pb_is_writer (snd c) then (c, Inr (True, None))
      else
        case try_become_leader a_alive connects a_lock c of
          (c1, Inl e) \<Rightarrow> (c1, Inl e)
        | (c1, Inr False) \<Rightarrow> (c1, Inr (False, None))
        | (c1, Inr True) \<Rightarrow>
            (case pg_load pc a_load c1 of
               ((sv, b), Inr p) \<Rightarrow> ((sv, confirm_leadership b), Inr (True, Some p))
             | (c2, Inl e) \<Rightarrow> (resign_leadership a_resign c2, Inl e)))"

text \<open>A new process: \<open>open_standby\<close> with the session of the old process ended, and \<open>open\<close> followed by the load that
  builds the registry; when either fails there is no registry and the connection is dropped.\<close>

definition open_standby :: "bool \<Rightarrow> 'd conn \<Rightarrow> 'd conn" where
  "open_standby connects = (\<lambda>(sv, b).
     let sv1 = (case pb_worker b of Live i \<Rightarrow> end_session i sv | _ \<Rightarrow> sv) in
     if connects
     then (sv1\<lparr>sv_next := sv_next sv1 + 1\<rparr>, \<lparr>pb_worker = Live (sv_next sv1), pb_is_writer = False, pb_versions = []\<rparr>)
     else (sv1, \<lparr>pb_worker = Gone, pb_is_writer = False, pb_versions = []\<rparr>))"

definition drop_backend :: "'d conn \<Rightarrow> 'd conn" where
  "drop_backend = (\<lambda>(sv, b).
     (case pb_worker b of Live i \<Rightarrow> end_session i sv | _ \<Rightarrow> sv, b\<lparr>pb_worker := Gone, pb_is_writer := False\<rparr>))"

definition open_leader ::
    "'d pg_codec \<Rightarrow> bool \<Rightarrow> reply \<Rightarrow> bool \<Rightarrow> reply \<Rightarrow> reply \<Rightarrow> 'd conn \<Rightarrow> 'd conn \<times> persisted option" where
  "open_leader pc connects a_alive reconnects a_lock a_load c =
     (case try_become_leader a_alive reconnects a_lock (open_standby connects c) of
        ((sv, b), Inr True) \<Rightarrow>
          (case pg_load pc a_load (sv, confirm_leadership b) of
             (c2, Inr p) \<Rightarrow> (c2, Some p)
           | (c2, Inl _) \<Rightarrow> (drop_backend c2, None))
      | (c1, _) \<Rightarrow> (drop_backend c1, None))"

subsection \<open>The replicas\<close>

text \<open>A replica with the documents its memory rests on: what it last loaded or wrote.\<close>

record 'd replica =
  rp_backend :: pg_backend
  rp_seen :: "string \<Rightarrow> 'd option"

record 'd cluster =
  cl_server :: "'d server"
  cl_replicas :: "nat \<Rightarrow> 'd replica"

definition docs_of :: "'d table \<Rightarrow> string \<Rightarrow> 'd option" where
  "docs_of t k = map_option row_doc (bt_get t k)"

abbreviation conn_of :: "'d cluster \<Rightarrow> nat \<Rightarrow> 'd conn" where
  "conn_of c r \<equiv> (cl_server c, rp_backend (cl_replicas c r))"

definition put_conn :: "nat \<Rightarrow> 'd conn \<Rightarrow> (string \<Rightarrow> 'd option) \<Rightarrow> 'd cluster \<Rightarrow> 'd cluster" where
  "put_conn r x seen c =
     \<lparr>cl_server = fst x, cl_replicas = (cl_replicas c)(r := \<lparr>rp_backend = snd x, rp_seen = seen\<rparr>)\<rparr>"

abbreviation seen_by :: "'d cluster \<Rightarrow> nat \<Rightarrow> string \<Rightarrow> 'd option" where
  "seen_by c r \<equiv> rp_seen (cl_replicas c r)"

text \<open>One step of the cluster; a persist is of any document, which covers the four of the backend. A rollback after a failed persist loads all documents but replaces only the catalog
  in memory.\<close>

inductive pg_step :: "'d pg_codec \<Rightarrow> 'd cluster \<Rightarrow> 'd cluster \<Rightarrow> bool" for pc where
  pg_open_standby: "pg_step pc c (put_conn r (open_standby ok (conn_of c r)) (\<lambda>_. None) c)"
| pg_open_leader: "open_leader pc ok a1 re a2 a3 (conn_of c r) = (x, p)
    \<Longrightarrow> pg_step pc c (put_conn r x (if p = None then (\<lambda>_. None) else docs_of (sv_table (fst x))) c)"
| pg_persist: "persist_doc a a' key doc (conn_of c r) = (x, res)
    \<Longrightarrow> pg_step pc c (put_conn r x (if res = Inr () then (seen_by c r)(key := Some doc) else seen_by c r) c)"
| pg_reload: "pg_load pc a (conn_of c r) = (x, res)
    \<Longrightarrow> pg_step pc c (put_conn r x (case res of Inl _ \<Rightarrow> seen_by c r | Inr _ \<Rightarrow> docs_of (sv_table (fst x))) c)"
| pg_rollback: "pg_load pc a (conn_of c r) = (x, res)
    \<Longrightarrow> pg_step pc c (put_conn r x
          (case res of Inl _ \<Rightarrow> seen_by c r
           | Inr _ \<Rightarrow> (seen_by c r)(''registry'' := docs_of (sv_table (fst x)) ''registry'')) c)"
| pg_promote: "promote pc a1 re a2 a3 a4 (conn_of c r) = (x, res)
    \<Longrightarrow> pg_step pc c (put_conn r x
          (case res of Inr (_, Some _) \<Rightarrow> docs_of (sv_table (fst x)) | _ \<Rightarrow> seen_by c r) c)"
| pg_resign: "pg_step pc c (put_conn r (resign_leadership a (conn_of c r)) (seen_by c r) c)"
| pg_verify: "pg_step pc c (put_conn r (fst (verify_leadership a (conn_of c r))) (seen_by c r) c)"
| pg_poll: "pg_step pc c (put_conn r (fst (poll_version a (conn_of c r))) (seen_by c r) c)"
| pg_session_ends: "pb_worker (rp_backend (cl_replicas c r)) = Live i \<Longrightarrow> w \<in> {Broken, Gone}
    \<Longrightarrow> pg_step pc c (put_conn r (end_session i (cl_server c), (rp_backend (cl_replicas c r))\<lparr>pb_worker := w\<rparr>)
          (seen_by c r) c)"

definition pg_start :: "'d cluster" where
  "pg_start = \<lparr>cl_server = \<lparr>sv_table = [], sv_lock = None, sv_next = 0\<rparr>,
     cl_replicas = (\<lambda>_. \<lparr>rp_backend = \<lparr>pb_worker = Gone, pb_is_writer = False, pb_versions = []\<rparr>, rp_seen = (\<lambda>_. None)\<rparr>)\<rparr>"

inductive pg_reachable :: "'d pg_codec \<Rightarrow> 'd cluster \<Rightarrow> bool" for pc where
  pg_init: "pg_reachable pc pg_start"
| pg_more: "pg_reachable pc c \<Longrightarrow> pg_step pc c c' \<Longrightarrow> pg_reachable pc c'"

subsection \<open>The writer\<close>

text \<open>The rows are in order, and the sessions on the server are older than its counter.\<close>

definition conn_wf :: "'d conn \<Rightarrow> bool" where
  "conn_wf x \<longleftrightarrow>
     bt_ok (sv_table (fst x))
     \<and> (\<forall>j n. sv_lock (fst x) = Some (j, n) \<longrightarrow> j < sv_next (fst x))
     \<and> (\<forall>i. pb_worker (snd x) = Live i \<longrightarrow> i < sv_next (fst x))"

text \<open>A writer with a live session holds the lock, and its versions and its documents are those of the table.\<close>

definition writes_for :: "'d conn \<Rightarrow> nat \<Rightarrow> bool" where
  "writes_for x i \<longleftrightarrow> pb_worker (snd x) = Live i \<and> pb_is_writer (snd x)"

definition holds_lock :: "'d server \<Rightarrow> nat \<Rightarrow> bool" where
  "holds_lock sv i \<longleftrightarrow> (\<exists>n. sv_lock sv = Some (i, n))"

definition current :: "'d conn \<Rightarrow> (string \<Rightarrow> 'd option) \<Rightarrow> bool" where
  "current x seen \<longleftrightarrow>
     (\<forall>k. version_of (pb_versions (snd x)) k = version_of (bt_map_values row_version (sv_table (fst x))) k)
     \<and> seen = docs_of (sv_table (fst x))"

definition writer_ok :: "'d conn \<Rightarrow> (string \<Rightarrow> 'd option) \<Rightarrow> bool" where
  "writer_ok x seen \<longleftrightarrow> (\<forall>i. writes_for x i \<longrightarrow> holds_lock (fst x) i \<and> current x seen)"

text \<open>What an operation of one replica does to the rest: it takes no session but its own and fresh ones, and while
  another session holds the lock it changes neither lock nor table.\<close>

definition moves :: "'d conn \<Rightarrow> 'd conn \<Rightarrow> bool" where
  "moves x y \<longleftrightarrow>
     conn_wf y \<and> sv_next (fst x) \<le> sv_next (fst y)
     \<and> (\<forall>k. pb_worker (snd y) = Live k \<longrightarrow> pb_worker (snd x) = Live k \<or> sv_next (fst x) \<le> k)
     \<and> (\<forall>j. holds_lock (fst x) j \<longrightarrow> pb_worker (snd x) \<noteq> Live j
          \<longrightarrow> sv_lock (fst y) = sv_lock (fst x) \<and> sv_table (fst y) = sv_table (fst x))"

lemma moves_refl: "conn_wf x \<Longrightarrow> moves x x"
  by (simp add: moves_def)

lemma movesD:
  assumes "moves x y"
  shows "conn_wf y" and "sv_next (fst x) \<le> sv_next (fst y)"
    and "\<And>k. pb_worker (snd y) = Live k \<Longrightarrow> pb_worker (snd x) = Live k \<or> sv_next (fst x) \<le> k"
    and "\<And>j. holds_lock (fst x) j \<Longrightarrow> pb_worker (snd x) \<noteq> Live j
           \<Longrightarrow> sv_lock (fst y) = sv_lock (fst x) \<and> sv_table (fst y) = sv_table (fst x)"
  using assms by (simp_all add: moves_def)

lemma holds_lock_less: "conn_wf x \<Longrightarrow> holds_lock (fst x) j \<Longrightarrow> j < sv_next (fst x)"
  by (auto simp: conn_wf_def holds_lock_def)

lemma moves_trans:
  assumes wf: "conn_wf x" and xy: "moves x y" and yz: "moves y z"
  shows "moves x z"
  unfolding moves_def
proof (intro conjI allI impI)
  show "conn_wf z" by (rule movesD(1) [OF yz])
  show "sv_next (fst x) \<le> sv_next (fst z)" using movesD(2) [OF xy] movesD(2) [OF yz] by simp
  show "pb_worker (snd x) = Live k \<or> sv_next (fst x) \<le> k" if "pb_worker (snd z) = Live k" for k
    using movesD(3) [OF yz that] movesD(3) [OF xy, of k] movesD(2) [OF xy] by auto
  fix j assume j: "holds_lock (fst x) j" "pb_worker (snd x) \<noteq> Live j"
  have y: "sv_lock (fst y) = sv_lock (fst x) \<and> sv_table (fst y) = sv_table (fst x)" by (rule movesD(4) [OF xy j])
  have "pb_worker (snd y) \<noteq> Live j" using movesD(3) [OF xy, of j] holds_lock_less [OF wf j(1)] j(2) by auto
  with y j(1) have "sv_lock (fst z) = sv_lock (fst y) \<and> sv_table (fst z) = sv_table (fst y)"
    using movesD(4) [OF yz, of j] by (simp add: holds_lock_def)
  with y show "sv_lock (fst z) = sv_lock (fst x)" and "sv_table (fst z) = sv_table (fst x)" by simp_all
qed

lemmas pg_defs = on_worker_def conn_wf_def moves_def holds_lock_def

lemma alive_moves:
  assumes "conn_wf x" and "session_alive a x = (y, l)"
  shows "moves x y" and "fst y = fst x" and "pb_worker (snd y) = pb_worker (snd x)"
    and "pb_is_writer (snd y) \<Longrightarrow> pb_is_writer (snd x)" and "pb_versions (snd y) = pb_versions (snd x)"
  using assms by (auto simp: session_alive_def pg_defs split: prod.splits worker.splits reply.splits sum.splits)

lemma end_session_moves:
  "conn_wf (sv, b) \<Longrightarrow> pb_worker b = Live i \<Longrightarrow> (\<And>k. pb_worker b' = Live k \<Longrightarrow> False) \<Longrightarrow> moves (sv, b) (end_session i sv, b')"
  by (auto simp: end_session_def pg_defs split: option.splits prod.splits)

lemma revive_moves:
  assumes "conn_wf x" and "revive_worker ok x = (y, res)"
  shows "moves x y" and "pb_is_writer (snd y) = pb_is_writer (snd x)"
  using assms
  by (auto simp: revive_worker_def end_session_def pg_defs Let_def
      split: prod.splits worker.splits option.splits if_splits)

lemma lock_moves:
  assumes "conn_wf x" and "on_worker a try_advisory_lock x = (y, res)"
  shows "moves x y" and "pb_is_writer (snd y) \<Longrightarrow> pb_is_writer (snd x)"
    and "res = Inr True \<Longrightarrow> \<exists>i. pb_worker (snd y) = Live i \<and> holds_lock (fst y) i"
  using assms
  by (auto simp: try_advisory_lock_def pg_defs
      split: prod.splits worker.splits option.splits if_splits reply.splits)

lemma resign_moves:
  assumes "conn_wf x"
  shows "moves x (resign_leadership a x)" and "\<not> pb_is_writer (snd (resign_leadership a x))"
  using assms
  by (auto simp: resign_leadership_def advisory_unlock_def pg_defs
      split: prod.splits worker.splits option.splits if_splits reply.splits)

lemma resign_table: "sv_table (fst (resign_leadership a x)) = sv_table (fst x)"
  by (auto simp: resign_leadership_def advisory_unlock_def on_worker_def
      split: prod.splits worker.splits option.splits if_splits reply.splits)

lemma load_moves:
  assumes "conn_wf x" and "pg_load pc a x = (y, res)"
  shows "moves x y" and "fst y = fst x" and "pb_worker (snd y) = pb_worker (snd x)"
    and "pb_is_writer (snd y) \<Longrightarrow> pb_is_writer (snd x)"
    and "res = Inr p \<Longrightarrow> pb_versions (snd y) = bt_map_values row_version (sv_table (fst x))"
    and "pb_versions (snd y) \<in> {pb_versions (snd x), bt_map_values row_version (sv_table (fst x))}"
  using assms
  by (auto simp: pg_load_def pg_defs split: prod.splits worker.splits reply.splits sum.splits)

lemma writer_ok_standby: "\<not> pb_is_writer (snd x) \<Longrightarrow> writer_ok x seen"
  by (simp add: writer_ok_def writes_for_def)

lemma writer_okD: "writer_ok x seen \<Longrightarrow> writes_for x i \<Longrightarrow> holds_lock (fst x) i \<and> current x seen"
  by (simp add: writer_ok_def)

text \<open>A load leaves a writer's versions as they are, and its documents too.\<close>

lemma load_writer_ok:
  assumes "conn_wf x" and "pg_load pc a x = (y, res)" and "writer_ok x seen"
    and "seen' = seen \<or> seen' = docs_of (sv_table (fst y)) \<or> seen' = seen(k := docs_of (sv_table (fst y)) k)"
  shows "writer_ok y seen'"
proof -
  have "holds_lock (fst y) i \<and> current y seen'" if w: "writes_for y i" for i
  proof -
    have "writes_for x i" using w load_moves(3,4) [OF assms(1,2)] by (simp add: writes_for_def)
    then have x: "holds_lock (fst x) i" "current x seen" using writer_okD [OF assms(3)] by blast+
    then have "seen' = docs_of (sv_table (fst y))"
      using assms(4) load_moves(2) [OF assms(1,2)] by (auto simp: current_def)
    with x show ?thesis
      using load_moves(2,6) [OF assms(1,2)] by (auto simp: current_def)
  qed
  then show ?thesis by (simp add: writer_ok_def)
qed

lemma leader_moves:
  assumes wf: "conn_wf x" and "\<not> pb_is_writer (snd x)" and run: "try_become_leader a1 re a2 x = (y, res)"
  shows "moves x y" and "\<not> pb_is_writer (snd y)"
    and "res = Inr True \<Longrightarrow> \<exists>i. pb_worker (snd y) = Live i \<and> holds_lock (fst y) i"
proof -
  obtain x1 alive where al: "session_alive a1 x = (x1, alive)" by (metis surj_pair)
  obtain x2 q where rv: "(if alive then (x1, Inr ()) else revive_worker re x1) = (x2, q)" by (metis surj_pair)
  have x1: "moves x x1" "\<not> pb_is_writer (snd x1)" using alive_moves(1,4) [OF wf al] assms(2) by auto
  have wf1: "conn_wf x1" by (rule movesD(1) [OF x1(1)])
  have "moves x1 x2 \<and> \<not> pb_is_writer (snd x2)"
    using rv x1(2) moves_refl [OF wf1] revive_moves [OF wf1] by (auto split: if_splits)
  then have x2: "moves x x2" "\<not> pb_is_writer (snd x2)" using moves_trans [OF wf x1(1)] by auto
  have wf2: "conn_wf x2" by (rule movesD(1) [OF x2(1)])
  have y: "(case q of Inl e \<Rightarrow> (x2, Inl e) | Inr _ \<Rightarrow> on_worker a2 try_advisory_lock x2) = (y, res)"
    using run al rv assms(2) by (simp add: try_become_leader_def split: sum.splits)
  have "moves x y \<and> \<not> pb_is_writer (snd y)
      \<and> (res = Inr True \<longrightarrow> (\<exists>i. pb_worker (snd y) = Live i \<and> holds_lock (fst y) i))"
  proof (cases q)
    case (Inl e)
    then show ?thesis using y x2 by auto
  next
    case (Inr u)
    then have lk: "on_worker a2 try_advisory_lock x2 = (y, res)" using y by simp
    show ?thesis
      using moves_trans [OF wf x2(1) lock_moves(1) [OF wf2 lk]] lock_moves(2,3) [OF wf2 lk] x2(2) by blast
  qed
  then show "moves x y" and "\<not> pb_is_writer (snd y)"
    and "res = Inr True \<Longrightarrow> \<exists>i. pb_worker (snd y) = Live i \<and> holds_lock (fst y) i" by blast+
qed

lemma promote_ok:
  assumes wf: "conn_wf x" and ok: "writer_ok x seen" and run: "promote pc a1 re a2 a3 a4 x = (y, res)"
  shows "moves x y"
    and "writer_ok y (case res of Inr (_, Some _) \<Rightarrow> docs_of (sv_table (fst y)) | _ \<Rightarrow> seen)"
proof -
  have "moves x y \<and> writer_ok y (case res of Inr (_, Some _) \<Rightarrow> docs_of (sv_table (fst y)) | _ \<Rightarrow> seen)"
  proof (cases "pb_is_writer (snd x)")
    case True
    then show ?thesis using run moves_refl [OF wf] ok by (auto simp: promote_def)
  next
    case standby: False
    obtain c1 q where t: "try_become_leader a1 re a2 x = (c1, q)" by (metis surj_pair)
    note c1 = leader_moves [OF wf standby t]
    have wf1: "conn_wf c1" by (rule movesD(1) [OF c1(1)])
    show ?thesis
    proof (cases "q = Inr True")
      case False
      then show ?thesis
        using run standby t c1(1) writer_ok_standby [OF c1(2)] by (auto simp: promote_def split: sum.splits bool.splits)
    next
      case True
      obtain c2 l where ld: "pg_load pc a3 c1 = (c2, l)" by (metis surj_pair)
      note c2 = load_moves [OF wf1 ld]
      have m2: "moves x c2" by (rule moves_trans [OF wf c1(1) c2(1)])
      have wf2: "conn_wf c2" by (rule movesD(1) [OF m2])
      show ?thesis
      proof (cases l)
        case (Inl e)
        then show ?thesis
          using run standby t True ld moves_trans [OF wf m2 resign_moves(1) [OF wf2]]
            writer_ok_standby [OF resign_moves(2) [OF wf2]] by (auto simp: promote_def)
      next
        case (Inr p)
        have y: "y = (fst c2, confirm_leadership (snd c2))" "res = Inr (True, Some p)"
          using run standby t True ld Inr by (auto simp: promote_def split: prod.splits)
        have "moves x y" using m2 y by (simp add: moves_def conn_wf_def confirm_leadership_def)
        moreover have "writer_ok y (docs_of (sv_table (fst y)))"
          using c1(3) [OF True] c2(2,3) c2(5) [OF Inr] y
          by (auto simp: writer_ok_def writes_for_def current_def confirm_leadership_def)
        ultimately show ?thesis using y by simp
      qed
    qed
  qed
  then show "moves x y"
    and "writer_ok y (case res of Inr (_, Some _) \<Rightarrow> docs_of (sv_table (fst y)) | _ \<Rightarrow> seen)" by blast+
qed

lemma drop_moves:
  assumes "conn_wf x"
  shows "moves x (drop_backend x)" and "\<not> pb_is_writer (snd (drop_backend x))"
  using assms
  by (auto simp: drop_backend_def end_session_def pg_defs split: prod.splits worker.splits option.splits if_splits)

lemma open_standby_moves:
  assumes "conn_wf x"
  shows "moves x (open_standby ok x)" and "\<not> pb_is_writer (snd (open_standby ok x))"
  using assms
  by (auto simp: open_standby_def end_session_def pg_defs Let_def
      split: prod.splits worker.splits option.splits if_splits)

lemma open_leader_ok:
  assumes wf: "conn_wf x" and run: "open_leader pc ok a1 re a2 a3 x = (y, p)"
  shows "moves x y" and "writer_ok y (if p = None then (\<lambda>_. None) else docs_of (sv_table (fst y)))"
proof -
  let ?s = "open_standby ok x"
  note s = open_standby_moves [OF wf, of ok]
  have wfs: "conn_wf ?s" by (rule movesD(1) [OF s(1)])
  obtain c1 q where t: "try_become_leader a1 re a2 ?s = (c1, q)" by (metis surj_pair)
  note c1 = leader_moves [OF wfs s(2) t]
  have m1: "moves x c1" by (rule moves_trans [OF wf s(1) c1(1)])
  have wf1: "conn_wf c1" by (rule movesD(1) [OF m1])
  have dropped: "moves x (drop_backend z) \<and> writer_ok (drop_backend z) (\<lambda>_. None)" if "moves x z" for z
    using moves_trans [OF wf that drop_moves(1)] writer_ok_standby [OF drop_moves(2)] movesD(1) [OF that] by blast
  have "moves x y \<and> writer_ok y (if p = None then (\<lambda>_. None) else docs_of (sv_table (fst y)))"
  proof (cases "q = Inr True")
    case False
    then have "y = drop_backend c1 \<and> p = None"
      using run t by (auto simp: open_leader_def split: sum.splits bool.splits prod.splits)
    then show ?thesis using dropped [OF m1] by simp
  next
    case True
    let ?w = "(fst c1, confirm_leadership (snd c1))"
    have mw: "moves x ?w" using m1 by (simp add: moves_def conn_wf_def confirm_leadership_def)
    have wfw: "conn_wf ?w" by (rule movesD(1) [OF mw])
    obtain c2 l where ld: "pg_load pc a3 ?w = (c2, l)" by (metis surj_pair)
    note c2 = load_moves [OF wfw ld]
    have m2: "moves x c2" by (rule moves_trans [OF wf mw c2(1)])
    show ?thesis
    proof (cases l)
      case (Inl e)
      then have "y = drop_backend c2 \<and> p = None"
        using run t True ld by (auto simp: open_leader_def split: prod.splits)
      then show ?thesis using dropped [OF m2] by simp
    next
      case (Inr p')
      then have "y = c2 \<and> p = Some p'"
        using run t True ld by (auto simp: open_leader_def split: prod.splits)
      moreover have "writer_ok c2 (docs_of (sv_table (fst c2)))"
        using c1(3) [OF True] c2(2,3) c2(5) [OF Inr]
        by (auto simp: writer_ok_def writes_for_def current_def confirm_leadership_def)
      ultimately show ?thesis using m2 by simp
    qed
  qed
  then show "moves x y" and "writer_ok y (if p = None then (\<lambda>_. None) else docs_of (sv_table (fst y)))"
    by blast+
qed

lemma version_of_insert: "version_of (bt_insert k v vs) k' = (if k' = k then v else version_of vs k')"
  by (simp add: version_of_def bt_get_insert)

lemma upsert_current:
  assumes "version_of (bt_map_values row_version (sv_table sv)) key = expected"
  shows "upsert key expected doc sv =
    (sv\<lparr>sv_table := bt_insert key \<lparr>row_version = expected + 1, row_doc = doc\<rparr> (sv_table sv)\<rparr>, 1)"
  using assms by (auto simp: upsert_def version_of_def bt_get_map_values split: option.splits)

text \<open>The table with one document written.\<close>

definition written :: "string \<Rightarrow> 'd \<Rightarrow> 'd table \<Rightarrow> 'd table" where
  "written key doc t =
     bt_insert key \<lparr>row_version = version_of (bt_map_values row_version t) key + 1, row_doc = doc\<rparr> t"

lemma docs_of_written: "docs_of (written key doc t) = (docs_of t)(key := Some doc)"
  by (auto simp: docs_of_def written_def bt_get_insert)

lemma persist_cases:
  assumes wf: "conn_wf x" and ok: "writer_ok x seen" and run: "persist_doc a a' key doc x = (y, res)"
  obtains (refused) "y = x" "\<not> pb_is_writer (snd x)" "\<exists>e. res = Inl e"
  | (wrote) i where "writes_for x i" "current x seen" "res = Inr ()"
      "y = ((fst x)\<lparr>sv_table := written key doc (sv_table (fst x))\<rparr>,
            (snd x)\<lparr>pb_versions := bt_insert key (version_of (pb_versions (snd x)) key + 1) (pb_versions (snd x))\<rparr>)"
  | (failed) z e where "y = resign_leadership a' z" "moves x z" "res = Inl e" "pb_worker (snd z) = pb_worker (snd x)"
      "sv_table (fst z) = sv_table (fst x) \<or> sv_table (fst z) = written key doc (sv_table (fst x)) \<and> current x seen"
proof (cases "pb_is_writer (snd x)")
  case False
  then show ?thesis using refused run by (auto simp: persist_doc_def ensure_leader_def)
next
  case True
  let ?e = "version_of (pb_versions (snd x)) key"
  obtain sv b where x: "x = (sv, b)" by (metis surj_pair)
  show ?thesis
  proof (cases "pb_worker b")
    case (Live i)
    have w: "writes_for x i" using True Live x by (simp add: writes_for_def)
    then have hl: "holds_lock sv i" and cur: "current x seen" using writer_okD [OF ok w] x by auto
    have "version_of (bt_map_values row_version (sv_table sv)) key = ?e" using cur x by (simp add: current_def)
    then have up: "upsert key ?e doc sv = (sv\<lparr>sv_table := written key doc (sv_table sv)\<rparr>, 1)"
      using upsert_current [of sv key ?e doc] by (simp add: written_def)
    have mv: "moves x (sv\<lparr>sv_table := written key doc (sv_table sv)\<rparr>, b)"
      using wf hl Live x by (auto simp: moves_def conn_wf_def holds_lock_def written_def)
    show ?thesis
    proof (cases a)
      case Ran
      then show ?thesis
        using wrote [OF w cur] run True x Live up by (simp add: persist_doc_def ensure_leader_def on_worker_def)
    next
      case Lost
      then show ?thesis
        using failed [of "(sv\<lparr>sv_table := written key doc (sv_table sv)\<rparr>, b)"] run True x Live up mv cur
        by (auto simp: persist_doc_def ensure_leader_def on_worker_def)
    next
      case Failed
      then show ?thesis
        using failed [of x] run True x Live moves_refl [OF wf]
        by (auto simp: persist_doc_def ensure_leader_def on_worker_def)
    qed
  next
    case Broken
    then show ?thesis
      using failed [of x] run True x moves_refl [OF wf]
      by (auto simp: persist_doc_def ensure_leader_def on_worker_def)
  next
    case Gone
    have "moves x (sv, b\<lparr>pb_is_writer := False\<rparr>)" using wf x by (simp add: moves_def conn_wf_def)
    then show ?thesis
      using failed [of "(sv, b\<lparr>pb_is_writer := False\<rparr>)"] run True x Gone
      by (auto simp: persist_doc_def ensure_leader_def on_worker_def)
  qed
qed

lemma persist_ok:
  assumes wf: "conn_wf x" and ok: "writer_ok x seen" and run: "persist_doc a a' key doc x = (y, res)"
  shows "moves x y" and "writer_ok y (if res = Inr () then seen(key := Some doc) else seen)"
proof -
  have "moves x y \<and> writer_ok y (if res = Inr () then seen(key := Some doc) else seen)"
    using wf ok run
  proof (cases rule: persist_cases)
    case refused
    then show ?thesis using moves_refl [OF wf] ok by auto
  next
    case (wrote i)
    have hl: "holds_lock (fst x) i" using writer_okD [OF ok wrote(1)] by blast
    have "moves x y" using wf hl wrote(1,4)
      by (auto simp: moves_def conn_wf_def holds_lock_def writes_for_def written_def)
    moreover have "writer_ok y (seen(key := Some doc))"
      using hl wrote(1,2,4) by (auto simp: writer_ok_def writes_for_def holds_lock_def current_def docs_of_written)
        (auto simp: version_of_def written_def bt_get_insert bt_get_map_values)
    ultimately show ?thesis using wrote(3) by simp
  next
    case (failed z e)
    have z: "conn_wf z" by (rule movesD(1) [OF failed(2)])
    show ?thesis
      using moves_trans [OF wf failed(2) resign_moves(1) [OF z]] writer_ok_standby [OF resign_moves(2) [OF z]] failed(1,3)
      by simp
  qed
  then show "moves x y" and "writer_ok y (if res = Inr () then seen(key := Some doc) else seen)" by blast+
qed

lemma verify_ok:
  assumes wf: "conn_wf x" and ok: "writer_ok x seen"
  shows "moves x (fst (verify_leadership a x))" and "writer_ok (fst (verify_leadership a x)) seen"
  using assms
  by (auto simp: verify_leadership_def session_alive_def pg_defs writer_ok_def writes_for_def current_def
      split: prod.splits worker.splits reply.splits sum.splits bool.splits if_splits)

lemma poll_ok:
  assumes wf: "conn_wf x" and ok: "writer_ok x seen"
  shows "moves x (fst (poll_version a x))" and "writer_ok (fst (poll_version a x)) seen"
  using assms
  by (auto simp: poll_version_def pg_defs writer_ok_def writes_for_def current_def
      split: prod.splits worker.splits reply.splits sum.splits)

subsection \<open>The cluster\<close>

definition pg_inv :: "'d cluster \<Rightarrow> bool" where
  "pg_inv c \<longleftrightarrow>
     (\<forall>r. conn_wf (conn_of c r) \<and> writer_ok (conn_of c r) (seen_by c r))
     \<and> (\<forall>r r' i. pb_worker (rp_backend (cl_replicas c r)) = Live i
          \<longrightarrow> pb_worker (rp_backend (cl_replicas c r')) = Live i \<longrightarrow> r = r')"

lemma pg_invD:
  assumes "pg_inv c"
  shows "conn_wf (conn_of c r)" and "writer_ok (conn_of c r) (seen_by c r)"
    and "pb_worker (rp_backend (cl_replicas c r)) = Live i \<Longrightarrow> pb_worker (rp_backend (cl_replicas c r')) = Live i
           \<Longrightarrow> r = r'"
  using assms by (auto simp: pg_inv_def)

lemma put_conn_inv:
  assumes inv: "pg_inv c" and mv: "moves (conn_of c r) x" and ok: "writer_ok x seen"
  shows "pg_inv (put_conn r x seen c)"
proof -
  let ?c = "put_conn r x seen c"
  have self: "conn_of ?c r = x" "seen_by ?c r = seen" by (simp_all add: put_conn_def)
  have other: "conn_of ?c r' = (fst x, rp_backend (cl_replicas c r'))" "seen_by ?c r' = seen_by c r'" if "r' \<noteq> r" for r'
    using that by (simp_all add: put_conn_def)
  have bound: "i < sv_next (cl_server c)" if "pb_worker (rp_backend (cl_replicas c r')) = Live i" for r' i
    using pg_invD(1) [OF inv, of r'] that by (simp add: conn_wf_def)
  have "conn_wf (conn_of ?c r') \<and> writer_ok (conn_of ?c r') (seen_by ?c r')" if r': "r' \<noteq> r" for r'
  proof
    show "conn_wf (conn_of ?c r')"
      using movesD(1,2) [OF mv] bound [of r'] unfolding other(1) [OF r'] by (fastforce simp: conn_wf_def)
    have "holds_lock (fst x) i \<and> current (fst x, rp_backend (cl_replicas c r')) (seen_by c r')"
      if w: "writes_for (fst x, rp_backend (cl_replicas c r')) i" for i
    proof -
      have w': "writes_for (conn_of c r') i" using w by (simp add: writes_for_def)
      then have h: "holds_lock (cl_server c) i" "current (conn_of c r') (seen_by c r')"
        using writer_okD [OF pg_invD(2) [OF inv] w'] by simp_all
      have "pb_worker (rp_backend (cl_replicas c r)) \<noteq> Live i"
        using pg_invD(3) [OF inv, of r' i r] w' r' by (auto simp: writes_for_def)
      then have "sv_lock (fst x) = sv_lock (cl_server c) \<and> sv_table (fst x) = sv_table (cl_server c)"
        using movesD(4) [OF mv, of i] h(1) by simp
      then show ?thesis using h by (simp add: holds_lock_def current_def)
    qed
    then show "writer_ok (conn_of ?c r') (seen_by ?c r')"
      unfolding other(1) [OF r'] other(2) [OF r'] by (simp add: writer_ok_def)
  qed
  moreover have "conn_wf (conn_of ?c r) \<and> writer_ok (conn_of ?c r) (seen_by ?c r)"
    unfolding self using movesD(1) [OF mv] ok by simp
  moreover have "p = q" if "pb_worker (rp_backend (cl_replicas ?c p)) = Live i"
      "pb_worker (rp_backend (cl_replicas ?c q)) = Live i" for p q i
    using that movesD(3) [OF mv, of i] bound [of _ i] pg_invD(3) [OF inv]
    by (auto simp: put_conn_def split: if_splits) (metis leD)+
  ultimately show ?thesis unfolding pg_inv_def by metis
qed

lemma pg_step_inv:
  assumes "pg_step pc c c'" and inv: "pg_inv c"
  shows "pg_inv c'"
  using assms(1)
proof cases
  case (pg_open_standby r ok)
  then show ?thesis
    using put_conn_inv [OF inv open_standby_moves(1) [OF pg_invD(1) [OF inv]]
        writer_ok_standby [OF open_standby_moves(2) [OF pg_invD(1) [OF inv]]]] by simp
next
  case (pg_open_leader ok a1 re a2 a3 r x p)
  then show ?thesis
    using put_conn_inv [OF inv open_leader_ok [OF pg_invD(1) [OF inv] pg_open_leader(2)]] by simp
next
  case (pg_persist a a' key doc r x res)
  then show ?thesis
    using put_conn_inv [OF inv persist_ok [OF pg_invD(1,2) [OF inv] pg_persist(2)]] by simp
next
  case (pg_reload a r x res)
  then show ?thesis
    using put_conn_inv [OF inv load_moves(1) [OF pg_invD(1) [OF inv] pg_reload(2)]
        load_writer_ok [OF pg_invD(1) [OF inv] pg_reload(2) pg_invD(2) [OF inv]]]
    by (auto split: sum.splits)
next
  case (pg_rollback a r x res)
  then show ?thesis
    using put_conn_inv [OF inv load_moves(1) [OF pg_invD(1) [OF inv] pg_rollback(2)]
        load_writer_ok [OF pg_invD(1) [OF inv] pg_rollback(2) pg_invD(2) [OF inv]]]
    by (auto split: sum.splits)
next
  case (pg_promote a1 re a2 a3 a4 r x res)
  then show ?thesis
    using put_conn_inv [OF inv promote_ok [OF pg_invD(1,2) [OF inv] pg_promote(2)]] by simp
next
  case (pg_resign r a)
  then show ?thesis
    using put_conn_inv [OF inv resign_moves(1) [OF pg_invD(1) [OF inv]]
        writer_ok_standby [OF resign_moves(2) [OF pg_invD(1) [OF inv]]]] by simp
next
  case (pg_verify r a)
  then show ?thesis using put_conn_inv [OF inv verify_ok [OF pg_invD(1,2) [OF inv]]] by simp
next
  case (pg_poll r a)
  then show ?thesis using put_conn_inv [OF inv poll_ok [OF pg_invD(1,2) [OF inv]]] by simp
next
  case (pg_session_ends r i w)
  have "writer_ok (end_session i (cl_server c), (rp_backend (cl_replicas c r))\<lparr>pb_worker := w\<rparr>) (seen_by c r)"
    using pg_session_ends(3) by (auto simp: writer_ok_def writes_for_def)
  moreover have "moves (conn_of c r) (end_session i (cl_server c), (rp_backend (cl_replicas c r))\<lparr>pb_worker := w\<rparr>)"
    using pg_session_ends(2,3) by (intro end_session_moves [OF pg_invD(1) [OF inv]]) auto
  ultimately show ?thesis unfolding pg_session_ends(1) by (intro put_conn_inv [OF inv])
qed

lemma pg_reachable_inv: "pg_reachable pc c \<Longrightarrow> pg_inv c"
proof (induction rule: pg_reachable.induct)
  case pg_init
  then show ?case by (simp add: pg_inv_def pg_start_def conn_wf_def writer_ok_def writes_for_def)
next
  case (pg_more c c')
  then show ?case using pg_step_inv by blast
qed

text \<open>Every write raises the sum a standby polls.\<close>

lemma store_version_insert:
  assumes "bt_ok t"
  shows "store_version (bt_insert k row t)
         = store_version t + row_version row - version_of (bt_map_values row_version t) k"
  using assms
proof (induction k row t rule: bt_insert.induct)
  case (1 k v)
  then show ?case by (simp add: store_version_def bt_values_def version_of_def bt_map_values_def bt_get_def)
next
  case (2 k v a b m)
  have later: "k < fst p" if "k < a" "p \<in> set m" for p
    using 2(2) that by (auto simp: bt_ok_def)
  then have "k < a \<Longrightarrow> map_of m k = None" by (force simp: map_of_eq_None_iff)
  then show ?case
    using 2 by (auto simp: store_version_def bt_values_def version_of_def bt_map_values_def bt_get_def bt_ok_def map_of_map)
qed

lemma store_version_written: "bt_ok t \<Longrightarrow> store_version (written key doc t) = store_version t + 1"
  by (simp add: written_def store_version_insert)

text \<open>A cluster in which replica 0 was opened as the leader of an empty store, with numbers as documents.\<close>

definition number_codec :: "nat pg_codec" where
  "number_codec = \<lparr>pc_to_registry = (\<lambda>_. Inr 0), pc_to_activity = (\<lambda>_. Inr 0), pc_to_sessions = (\<lambda>_. Inr 0),
     pc_to_jobs = (\<lambda>_. Inr 0), pc_registry = (\<lambda>_. Inr empty_file), pc_activity = (\<lambda>_. Inr []), pc_sessions = (\<lambda>_. Inr []),
     pc_jobs = (\<lambda>_. Inr [])\<rparr>"

definition led_cluster :: "nat cluster" where
  "led_cluster =
     put_conn 0 (\<lparr>sv_table = [], sv_lock = Some (0, 1), sv_next = 1\<rparr>,
       \<lparr>pb_worker = Live 0, pb_is_writer = True, pb_versions = []\<rparr>) (docs_of []) pg_start"

lemma led_reachable: "pg_reachable number_codec led_cluster"
proof -
  have "open_leader number_codec True Ran True Ran Ran (conn_of pg_start 0) =
      ((\<lparr>sv_table = [], sv_lock = Some (0, 1), sv_next = 1\<rparr>,
        \<lparr>pb_worker = Live 0, pb_is_writer = True, pb_versions = []\<rparr>), Some (into_persisted empty_file [] [] []))"
    by (simp add: open_leader_def open_standby_def pg_start_def try_become_leader_def session_alive_def on_worker_def
        try_advisory_lock_def pg_load_def pg_decode_def row_or_def confirm_leadership_def bt_map_values_def bt_get_def)
  from pg_more [OF pg_init pg_open_leader [OF this]] show ?thesis by (simp add: led_cluster_def)
qed

text \<open>C6. In every reachable cluster of replicas, whatever calls fail or lose their answers and whenever sessions
  end, at most one replica with a live session is a writer. A persist changes the table only if the replica's
  memory rests on exactly the row it replaces, so no update of another replica is lost; it then writes that one
  row and raises the version that standbys poll. It reports success only if it did, and after a failure the
  replica is no longer a writer.\<close>

theorem pg_no_lost_update:
  assumes reach: "pg_reachable pc c"
    and run: "persist_doc a a' key doc (conn_of c r) = (x, res)"
  shows "(\<forall>p q i j. writes_for (conn_of c p) i \<longrightarrow> writes_for (conn_of c q) j \<longrightarrow> p = q)
    \<and> (res = Inr () \<or> sv_table (fst x) \<noteq> sv_table (cl_server c) \<longrightarrow>
         seen_by c r key = docs_of (sv_table (cl_server c)) key
         \<and> docs_of (sv_table (fst x)) = (docs_of (sv_table (cl_server c)))(key := Some doc)
         \<and> store_version (sv_table (fst x)) = store_version (sv_table (cl_server c)) + 1)
    \<and> (res \<noteq> Inr () \<longrightarrow> \<not> pb_is_writer (snd x))"
proof -
  note inv = pg_reachable_inv [OF reach]
  have "p = q" if w: "writes_for (conn_of c p) i" "writes_for (conn_of c q) j" for p q i j
  proof -
    have "holds_lock (cl_server c) i" "holds_lock (cl_server c) j"
      using writer_okD [OF pg_invD(2) [OF inv] w(1)] writer_okD [OF pg_invD(2) [OF inv] w(2)] by simp_all
    then have "i = j" by (auto simp: holds_lock_def)
    then show ?thesis using pg_invD(3) [OF inv, of p i q] w by (simp add: writes_for_def)
  qed
  moreover have "store_version (written key doc (sv_table (cl_server c))) = store_version (sv_table (cl_server c)) + 1"
    using pg_invD(1) [OF inv, of r] by (simp add: conn_wf_def store_version_written)
  moreover have "(res = Inr () \<or> sv_table (fst x) \<noteq> sv_table (cl_server c) \<longrightarrow>
      current (conn_of c r) (seen_by c r) \<and> sv_table (fst x) = written key doc (sv_table (cl_server c)))
    \<and> (res \<noteq> Inr () \<longrightarrow> \<not> pb_is_writer (snd x))"
    using pg_invD(1,2) [OF inv] run
  proof (cases rule: persist_cases)
    case (failed z e)
    then show ?thesis using resign_moves(2) [OF movesD(1) [OF failed(2)]] resign_table [of a' z] by auto
  qed auto
  ultimately show ?thesis by (auto simp: current_def docs_of_written)
qed

theorem pg_no_lost_update_witness:
  "\<exists>x. persist_doc Ran Ran ''registry'' 5 (conn_of led_cluster 0) = (x, Inr ())
     \<and> seen_by led_cluster 0 ''registry'' = docs_of (sv_table (cl_server led_cluster)) ''registry''
     \<and> docs_of (sv_table (fst x)) = (docs_of (sv_table (cl_server led_cluster)))(''registry'' := Some 5)
     \<and> store_version (sv_table (fst x)) = store_version (sv_table (cl_server led_cluster)) + 1"
proof -
  obtain x where "persist_doc Ran Ran ''registry'' 5 (conn_of led_cluster 0) = (x, Inr ())"
    by (simp add: led_cluster_def put_conn_def persist_doc_def ensure_leader_def on_worker_def upsert_def version_of_def
        bt_get_def)
  then show ?thesis using pg_no_lost_update [OF led_reachable] by blast
qed

end
