(* ===== verification/Placement.thy ===== *)
theory Placement
  imports Registry
begin

section \<open>Placement: which nodes hold which shards and windows\<close>

text \<open>
  Models the placement half of \<open>growlerdb-controlplane/src/registry.rs\<close>: the shard and window maps, the
  compare-and-swap operations on bucket map, generation and definition, the heartbeat pool with its liveness
  grace, a node's announce, the resolution of a unit's holders, and the two sweeps. A node is its endpoint
  string; the pool maps endpoints to the time of the last heartbeat.
\<close>

subsection \<open>The pool\<close>

definition NODE_REANNOUNCE_INTERVAL_MS :: int where
  "NODE_REANNOUNCE_INTERVAL_MS = 10000"

definition NODE_HEARTBEAT_TTL_MS :: int where
  "NODE_HEARTBEAT_TTL_MS = 3 * NODE_REANNOUNCE_INTERVAL_MS"

definition INITIAL_PLACEMENT_SETTLE_MS :: int where
  "INITIAL_PLACEMENT_SETTLE_MS = NODE_REANNOUNCE_INTERVAL_MS div 2"

definition arm_grace :: "int \<Rightarrow> registry \<Rightarrow> registry" where
  "arm_grace now reg = (if r_grace_anchor_ms reg = - 1 then reg\<lparr>r_grace_anchor_ms := now\<rparr> else reg)"

definition register_node_with_capability :: "string \<Rightarrow> bool \<Rightarrow> int \<Rightarrow> registry \<Rightarrow> registry" where
  "register_node_with_capability ep capable now reg =
     arm_grace now
       (reg\<lparr>r_node_pool := bt_insert ep now (r_node_pool reg),
            r_replica_capable := (if capable then bs_insert ep (r_replica_capable reg)
                                  else bs_remove ep (r_replica_capable reg)),
            r_pool_eligible := bs_insert ep (r_pool_eligible reg)\<rparr>)"

definition register_node :: "string \<Rightarrow> int \<Rightarrow> registry \<Rightarrow> registry" where
  "register_node ep now reg = register_node_with_capability ep True now reg"

definition touch_node_liveness :: "string \<Rightarrow> int \<Rightarrow> registry \<Rightarrow> registry" where
  "touch_node_liveness ep now reg = arm_grace now (reg\<lparr>r_node_pool := bt_insert ep now (r_node_pool reg)\<rparr>)"

definition placement_grace_active :: "registry \<Rightarrow> int \<Rightarrow> bool" where
  "placement_grace_active reg now \<longleftrightarrow>
     0 \<le> r_grace_anchor_ms reg \<and> now - r_grace_anchor_ms reg \<le> NODE_HEARTBEAT_TTL_MS"

definition set_placement_grace_anchor :: "int \<Rightarrow> registry \<Rightarrow> registry" where
  "set_placement_grace_anchor a reg = reg\<lparr>r_grace_anchor_ms := a\<rparr>"

definition initial_placement_settling :: "registry \<Rightarrow> int \<Rightarrow> bool" where
  "initial_placement_settling reg now \<longleftrightarrow>
     0 \<le> r_grace_anchor_ms reg \<and> now - r_grace_anchor_ms reg < INITIAL_PLACEMENT_SETTLE_MS"

definition heartbeat_live :: "int \<Rightarrow> int \<Rightarrow> bool" where
  "heartbeat_live now t \<longleftrightarrow> now - t \<le> NODE_HEARTBEAT_TTL_MS"

definition node_alive :: "registry \<Rightarrow> string \<Rightarrow> int \<Rightarrow> bool" where
  "node_alive reg ep now \<longleftrightarrow> (case bt_get (r_node_pool reg) ep of None \<Rightarrow> False | Some t \<Rightarrow> heartbeat_live now t)"

definition owner_confidently_dead :: "registry \<Rightarrow> string \<Rightarrow> int \<Rightarrow> bool" where
  "owner_confidently_dead reg ep now \<longleftrightarrow>
     (case bt_get (r_node_pool reg) ep of
        Some t \<Rightarrow> \<not> heartbeat_live now t \<and> \<not> placement_grace_active reg now
      | None \<Rightarrow> \<not> placement_grace_active reg now)"

definition is_pool_eligible :: "registry \<Rightarrow> string \<Rightarrow> bool" where
  "is_pool_eligible reg ep \<longleftrightarrow> ep \<in> set (r_pool_eligible reg)"

definition owner_tracked_stale :: "registry \<Rightarrow> string \<Rightarrow> int \<Rightarrow> bool" where
  "owner_tracked_stale reg ep now \<longleftrightarrow>
     (case bt_get (r_node_pool reg) ep of None \<Rightarrow> False | Some t \<Rightarrow> \<not> heartbeat_live now t)
     \<and> \<not> placement_grace_active reg now"

definition live_count :: "registry \<Rightarrow> int \<Rightarrow> nat" where
  "live_count reg now = length (filter (heartbeat_live now) (bt_values (r_node_pool reg)))"

definition register_node_capped :: "string \<Rightarrow> int \<Rightarrow> nat \<Rightarrow> registry \<Rightarrow> registry \<times> (nat + unit)" where
  "register_node_capped ep now max_nodes reg =
     (if \<not> node_alive reg ep now \<and> max_nodes \<le> live_count reg now then (reg, Inl (live_count reg now))
      else (reg\<lparr>r_node_pool := bt_insert ep now (r_node_pool reg),
                r_replica_capable := bs_insert ep (r_replica_capable reg)\<rparr>, Inr ()))"

definition distinct_live_nodes :: "registry \<Rightarrow> int \<Rightarrow> nat" where
  "distinct_live_nodes reg now = live_count reg now"

text \<open>All assignments of the catalog, in the order the code walks them.\<close>

definition entry_assignments :: "index_entry \<Rightarrow> shard_assignment list" where
  "entry_assignments e = bt_values (ie_shards e) @ map wa_assignment (bt_values (ie_windows e))"

definition all_assignments :: "(string, index_entry) btree \<Rightarrow> shard_assignment list" where
  "all_assignments ixs = concat (map entry_assignments (bt_values ixs))"

definition entitlement_nodes :: "registry \<Rightarrow> int \<Rightarrow> string bset" where
  "entitlement_nodes reg now =
     bs_of_list (filter (\<lambda>p. \<not> owner_tracked_stale reg p now)
       (List.map_filter sa_primary (all_assignments (c_indexes (r_core reg)))))"

definition count_entitlement_nodes :: "registry \<Rightarrow> int \<Rightarrow> nat" where
  "count_entitlement_nodes reg now = length (entitlement_nodes reg now)"

definition live_nodes :: "registry \<Rightarrow> int \<Rightarrow> string list" where
  "live_nodes reg now = map fst (filter (\<lambda>(_, t). heartbeat_live now t) (r_node_pool reg))"

definition placement_nodes :: "registry \<Rightarrow> int \<Rightarrow> string list" where
  "placement_nodes reg now =
     map fst (filter (\<lambda>(ep, t). heartbeat_live now t \<and> ep \<in> set (r_pool_eligible reg)) (r_node_pool reg))"

subsection \<open>Shard and window maps\<close>

definition with_shard ::
    "backend_io \<Rightarrow> string \<Rightarrow> nat \<Rightarrow> (shard_assignment \<Rightarrow> shard_assignment) \<Rightarrow> registry \<Rightarrow> unit reg_result" where
  "with_shard io index shard f reg =
     (case get_entry reg index of
        None \<Rightarrow> (reg, Inl (NotFound index))
      | Some e \<Rightarrow>
          commit io (put_entry index (e\<lparr>ie_shards := bt_upsert shard empty_assignment f (ie_shards e)\<rparr>) reg) ())"

definition with_window ::
    "backend_io \<Rightarrow> string \<Rightarrow> int \<Rightarrow> (window_assignment \<Rightarrow> window_assignment) \<Rightarrow> registry \<Rightarrow> unit reg_result" where
  "with_window io index w f reg =
     (case get_entry reg index of
        None \<Rightarrow> (reg, Inl (NotFound index))
      | Some e \<Rightarrow>
          commit io (put_entry index (e\<lparr>ie_windows := bt_upsert w empty_window f (ie_windows e)\<rparr>) reg) ())"

definition assign_primary :: "backend_io \<Rightarrow> string \<Rightarrow> nat \<Rightarrow> string \<Rightarrow> registry \<Rightarrow> unit reg_result" where
  "assign_primary io index shard node reg = with_shard io index shard (\<lambda>a. a\<lparr>sa_primary := Some node\<rparr>) reg"

definition assign_primaries :: "backend_io \<Rightarrow> string \<Rightarrow> nat list \<Rightarrow> string \<Rightarrow> registry \<Rightarrow> unit reg_result" where
  "assign_primaries io index shards node reg =
     (if shards = [] then (reg, Inr ())
      else (case get_entry reg index of
              None \<Rightarrow> (reg, Inl (NotFound index))
            | Some e \<Rightarrow>
                commit io (put_entry index (e\<lparr>ie_shards :=
                  fold (\<lambda>s. bt_upsert s empty_assignment (\<lambda>a. a\<lparr>sa_primary := Some node\<rparr>)) shards (ie_shards e)\<rparr>) reg) ()))"

definition add_replica :: "backend_io \<Rightarrow> string \<Rightarrow> nat \<Rightarrow> string \<Rightarrow> registry \<Rightarrow> unit reg_result" where
  "add_replica io index shard node reg =
     with_shard io index shard
       (\<lambda>a. if sa_primary a \<noteq> Some node \<and> node \<notin> set (sa_replicas a)
            then a\<lparr>sa_replicas := sa_replicas a @ [node]\<rparr> else a) reg"

definition remove_node :: "backend_io \<Rightarrow> string \<Rightarrow> nat \<Rightarrow> string \<Rightarrow> registry \<Rightarrow> unit reg_result" where
  "remove_node io index shard node reg =
     with_shard io index shard
       (\<lambda>a. \<lparr>sa_primary = (if sa_primary a = Some node then None else sa_primary a),
             sa_replicas = filter (\<lambda>n. n \<noteq> node) (sa_replicas a)\<rparr>) reg"

text \<open>The shard's assignment is created before the checks: a refused promotion leaves it in memory.\<close>

definition promote_replica :: "backend_io \<Rightarrow> string \<Rightarrow> nat \<Rightarrow> registry \<Rightarrow> string reg_result" where
  "promote_replica io index shard reg =
     (case get_entry reg index of
        None \<Rightarrow> (reg, Inl (NotFound index))
      | Some e \<Rightarrow>
          (let a = (case bt_get (ie_shards e) shard of None \<Rightarrow> empty_assignment | Some a \<Rightarrow> a);
               put = (\<lambda>a. put_entry index (e\<lparr>ie_shards := bt_insert shard a (ie_shards e)\<rparr>) reg) in
           case sa_primary a of
             Some p \<Rightarrow> (put a, Inl (PrimaryStillAssigned index shard p))
           | None \<Rightarrow>
               (case sa_replicas a of
                  [] \<Rightarrow> (put a, Inl (NoReplica index shard))
                | n # ns \<Rightarrow> commit io (put \<lparr>sa_primary = Some n, sa_replicas = ns\<rparr>) n)))"

definition shard_map :: "registry \<Rightarrow> string \<Rightarrow> (nat, shard_assignment) btree option" where
  "shard_map reg index = map_option ie_shards (get_entry reg index)"

definition assign_window :: "backend_io \<Rightarrow> string \<Rightarrow> int \<Rightarrow> string \<Rightarrow> registry \<Rightarrow> unit reg_result" where
  "assign_window io index w node reg =
     with_window io index w (\<lambda>wa. wa\<lparr>wa_assignment := (wa_assignment wa)\<lparr>sa_primary := Some node\<rparr>\<rparr>) reg"

definition widen :: "int \<Rightarrow> int \<Rightarrow> window_assignment \<Rightarrow> window_assignment" where
  "widen mn mx wa =
     wa\<lparr>wa_event_min := Some (case wa_event_min wa of None \<Rightarrow> mn | Some m \<Rightarrow> min m mn),
        wa_event_max := Some (case wa_event_max wa of None \<Rightarrow> mx | Some m \<Rightarrow> max m mx)\<rparr>"

definition set_window_bounds ::
    "backend_io \<Rightarrow> string \<Rightarrow> int \<Rightarrow> int option \<Rightarrow> int option \<Rightarrow> registry \<Rightarrow> unit reg_result" where
  "set_window_bounds io index w mn mx reg =
     with_window io index w
       (\<lambda>wa. case (mn, mx) of (Some mn, Some mx) \<Rightarrow> widen mn mx wa | _ \<Rightarrow> wa) reg"

definition set_window_cold :: "backend_io \<Rightarrow> string \<Rightarrow> int \<Rightarrow> bool \<Rightarrow> registry \<Rightarrow> unit reg_result" where
  "set_window_cold io index w cold reg = with_window io index w (\<lambda>wa. wa\<lparr>wa_cold := cold\<rparr>) reg"

definition window_map :: "registry \<Rightarrow> string \<Rightarrow> (int, window_assignment) btree option" where
  "window_map reg index = map_option ie_windows (get_entry reg index)"


subsection \<open>Compare-and-swap operations\<close>

definition bucket_map_of :: "registry \<Rightarrow> string \<Rightarrow> bucket_map option" where
  "bucket_map_of reg index =
     (case get_entry reg index of
        None \<Rightarrow> None
      | Some e \<Rightarrow>
          if ie_bucket_owners e = [] then None
          else (case from_owners (ie_bucket_owners e) of Inl _ \<Rightarrow> None | Inr m \<Rightarrow> Some m))"

definition set_bucket_map ::
    "backend_io \<Rightarrow> string \<Rightarrow> bucket_map option \<Rightarrow> bucket_map \<Rightarrow> registry \<Rightarrow> unit reg_result" where
  "set_bucket_map io index expected m reg =
     (case get_entry reg index of
        None \<Rightarrow> (reg, Inl (NotFound index))
      | Some e \<Rightarrow>
          if ie_bucket_owners e \<noteq> (case expected of None \<Rightarrow> [] | Some x \<Rightarrow> owners x)
          then (reg, Inl (PlacementConflict (BucketMapChanged index)))
          else commit io (put_entry index (e\<lparr>ie_bucket_owners := owners m\<rparr>) reg) ())"

definition generation :: "registry \<Rightarrow> string \<Rightarrow> nat option" where
  "generation reg index = map_option ie_generation (get_entry reg index)"

definition set_generation :: "backend_io \<Rightarrow> string \<Rightarrow> nat \<Rightarrow> nat \<Rightarrow> registry \<Rightarrow> nat reg_result" where
  "set_generation io index expected new reg =
     (case get_entry reg index of
        None \<Rightarrow> (reg, Inl (NotFound index))
      | Some e \<Rightarrow>
          if ie_generation e \<noteq> expected then (reg, Inl (PlacementConflict (GenerationChanged index)))
          else commit io (put_entry index (e\<lparr>ie_generation := new\<rparr>) reg) new)"

definition commit_reindex_cutover ::
    "backend_io \<Rightarrow> string \<Rightarrow> (nat \<times> resolved_index) option \<Rightarrow> nat \<Rightarrow> nat \<Rightarrow> registry \<Rightarrow> nat reg_result" where
  "commit_reindex_cutover io index d expected_gen new_gen reg =
     (case get_entry reg index of
        None \<Rightarrow> (reg, Inl (NotFound index))
      | Some e \<Rightarrow>
          if ie_generation e \<noteq> expected_gen then (reg, Inl (PlacementConflict (GenerationChanged index)))
          else (case d of
                  None \<Rightarrow> commit io (put_entry index (e\<lparr>ie_generation := new_gen\<rparr>) reg) new_gen
                | Some (v, df) \<Rightarrow>
                    if ie_definition_version e \<noteq> v
                    then (reg, Inl (PlacementConflict (DefinitionChanged index)))
                    else commit io (put_entry index (e\<lparr>ie_generation := new_gen, ie_definition := df,
                           ie_definition_version := ie_definition_version e + 1\<rparr>) reg) new_gen))"

definition definition_version :: "registry \<Rightarrow> string \<Rightarrow> nat option" where
  "definition_version reg index = map_option ie_definition_version (get_entry reg index)"

definition set_definition ::
    "backend_io \<Rightarrow> string \<Rightarrow> nat \<Rightarrow> resolved_index \<Rightarrow> registry \<Rightarrow> nat reg_result" where
  "set_definition io index expected d reg =
     (case get_entry reg index of
        None \<Rightarrow> (reg, Inl (NotFound index))
      | Some e \<Rightarrow>
          if ie_definition_version e \<noteq> expected then (reg, Inl (PlacementConflict (DefinitionChanged index)))
          else commit io (put_entry index (e\<lparr>ie_definition := d, ie_definition_version := expected + 1\<rparr>) reg)
                 (expected + 1))"

definition adopt_bucket_map_if_absent :: "backend_io \<Rightarrow> string \<Rightarrow> nat \<Rightarrow> registry \<Rightarrow> bool reg_result" where
  "adopt_bucket_map_if_absent io index shard_count reg =
     (case get_entry reg index of
        None \<Rightarrow> (reg, Inl (NotFound index))
      | Some e \<Rightarrow>
          if ie_bucket_owners e \<noteq> [] then (reg, Inr False)
          else commit io (put_entry index (e\<lparr>ie_bucket_owners := owners (balanced (max shard_count 1))\<rparr>) reg) True)"

definition current_bucket_map :: "registry \<Rightarrow> string \<Rightarrow> registry_error + bucket_map" where
  "current_bucket_map reg index =
     (case get_entry reg index of
        None \<Rightarrow> Inl (NotFound index)
      | Some e \<Rightarrow>
          if ie_bucket_owners e = [] then Inr (balanced (max (length (ie_shards e)) 1))
          else (case from_owners (ie_bucket_owners e) of
                  Inl x \<Rightarrow> Inl (InvalidBucketMap x)
                | Inr m \<Rightarrow> Inr m))"

definition plan_reshard :: "registry \<Rightarrow> string \<Rightarrow> nat \<Rightarrow> registry_error + reassignment option" where
  "plan_reshard reg index n = res_bind (current_bucket_map reg index) (\<lambda>m. Inr (reassign m n))"

subsection \<open>Announces\<close>

text \<open>How an announce of one unit is classified: it has no primary yet, this node may write it, or this node
  is a replica reporting. A live foreign pool primary refuses the announce.\<close>

datatype announce_class = Fresh | Claim | ReplicaReport

definition classify_unit ::
    "registry \<Rightarrow> int \<Rightarrow> string \<Rightarrow> string \<Rightarrow> place_unit \<Rightarrow> shard_assignment option \<Rightarrow> registry_error + announce_class" where
  "classify_unit reg now index node unit sa =
     (case sa of
        None \<Rightarrow> Inr Fresh
      | Some a \<Rightarrow>
          (case sa_primary a of
             None \<Rightarrow> Inr Fresh
           | Some cur \<Rightarrow>
               if cur = node then Inr Claim
               else if owner_confidently_dead reg cur now \<or> \<not> is_pool_eligible reg cur then Inr Claim
               else if node \<in> set (sa_replicas a) then Inr ReplicaReport
               else Inl (PlacementConflict (HeldBy index unit cur))))"

definition entitlement_refuses :: "registry \<Rightarrow> int \<Rightarrow> string \<Rightarrow> nat \<Rightarrow> registry_error option" where
  "entitlement_refuses reg now ep entitled =
     (let nodes = entitlement_nodes reg now in
      if ep \<notin> set nodes \<and> entitled \<le> length nodes
      then Some (EntitlementExceeded (length nodes) entitled) else None)"

definition claim :: "string \<Rightarrow> shard_assignment \<Rightarrow> shard_assignment" where
  "claim node a = \<lparr>sa_primary = Some node, sa_replicas = filter (\<lambda>n. n \<noteq> node) (sa_replicas a)\<rparr>"

definition claim_changes :: "string \<Rightarrow> shard_assignment \<Rightarrow> bool" where
  "claim_changes node a \<longleftrightarrow>
     sa_primary a \<noteq> Some node \<or> length (filter (\<lambda>n. n \<noteq> node) (sa_replicas a)) \<noteq> length (sa_replicas a)"

text \<open>The writing loop over the announced shards: the shards so far and whether anything changed.\<close>

definition claim_shard ::
    "string \<Rightarrow> nat list \<Rightarrow> nat \<Rightarrow> (nat, shard_assignment) btree \<times> bool \<Rightarrow> (nat, shard_assignment) btree \<times> bool" where
  "claim_shard node skip shard = (\<lambda>(m, changed).
     if shard \<in> set skip then (m, changed)
     else (let a = (case bt_get m shard of None \<Rightarrow> empty_assignment | Some a \<Rightarrow> a) in
           (bt_insert shard (claim node a) m, changed \<or> claim_changes node a)))"

definition announce_primaries ::
    "backend_io \<Rightarrow> string \<Rightarrow> nat list \<Rightarrow> string \<Rightarrow> int \<Rightarrow> nat \<Rightarrow> registry \<Rightarrow> unit reg_result" where
  "announce_primaries io index shards ep now entitled reg =
     (if shards = [] then (reg, Inr ())
      else (case get_entry reg index of
              None \<Rightarrow> (reg, Inl (NotFound index))
            | Some e \<Rightarrow>
                (case res_map (\<lambda>s. classify_unit reg now index ep (ShardUnit s) (bt_get (ie_shards e) s)) shards of
                   Inl err \<Rightarrow> (reg, Inl err)
                 | Inr cs \<Rightarrow>
                     (case (if Fresh \<in> set cs then entitlement_refuses reg now ep entitled else None) of
                        Some err \<Rightarrow> (reg, Inl err)
                      | None \<Rightarrow>
                          (let skip = map fst (filter (\<lambda>(_, c). c = ReplicaReport) (zip shards cs));
                               (m, changed) = fold (claim_shard ep skip) shards (ie_shards e, False);
                               reg' = put_entry index (e\<lparr>ie_shards := m\<rparr>) reg in
                           if changed then commit io reg' () else (reg', Inr ()))))))"

record window_announce =
  wn_window :: int
  wn_bounds :: "(int \<times> int) option"
  wn_cold :: bool

definition claim_window :: "string \<Rightarrow> window_announce \<Rightarrow> window_assignment \<Rightarrow> window_assignment" where
  "claim_window node w wa =
     (let wa1 = wa\<lparr>wa_assignment := claim node (wa_assignment wa)\<rparr>;
          wa2 = (case wn_bounds w of None \<Rightarrow> wa1 | Some (mn, mx) \<Rightarrow> widen mn mx wa1) in
      wa2\<lparr>wa_cold := wn_cold w\<rparr>)"

definition claim_window_changes :: "string \<Rightarrow> window_announce \<Rightarrow> window_assignment \<Rightarrow> bool" where
  "claim_window_changes node w wa \<longleftrightarrow>
     claim_changes node (wa_assignment wa)
     \<or> (case wn_bounds w of
          None \<Rightarrow> False
        | Some (mn, mx) \<Rightarrow>
            (wa_event_min wa, wa_event_max wa) \<noteq> (wa_event_min (widen mn mx wa), wa_event_max (widen mn mx wa)))
     \<or> wa_cold wa \<noteq> wn_cold w"

definition claim_window_step ::
    "string \<Rightarrow> int list \<Rightarrow> window_announce \<Rightarrow> (int, window_assignment) btree \<times> bool
       \<Rightarrow> (int, window_assignment) btree \<times> bool" where
  "claim_window_step node skip w = (\<lambda>(m, changed).
     if wn_window w \<in> set skip then (m, changed)
     else (let old = bt_get m (wn_window w);
               wa = (case old of None \<Rightarrow> empty_window | Some wa \<Rightarrow> wa) in
           (bt_insert (wn_window w) (claim_window node w wa) m,
            changed \<or> old = None \<or> claim_window_changes node w wa)))"

definition announce_windows ::
    "backend_io \<Rightarrow> string \<Rightarrow> string \<Rightarrow> window_announce list \<Rightarrow> int \<Rightarrow> nat \<Rightarrow> registry \<Rightarrow> unit reg_result" where
  "announce_windows io index ep ws now entitled reg =
     (if ws = [] then (reg, Inr ())
      else (case get_entry reg index of
              None \<Rightarrow> (reg, Inl (NotFound index))
            | Some e \<Rightarrow>
                (case res_map (\<lambda>w. classify_unit reg now index ep (WindowUnit (wn_window w))
                        (map_option wa_assignment (bt_get (ie_windows e) (wn_window w)))) ws of
                   Inl err \<Rightarrow> (reg, Inl err)
                 | Inr cs \<Rightarrow>
                     (case (if Fresh \<in> set cs then entitlement_refuses reg now ep entitled else None) of
                        Some err \<Rightarrow> (reg, Inl err)
                      | None \<Rightarrow>
                          (let skip = map (wn_window \<circ> fst) (filter (\<lambda>(_, c). c = ReplicaReport) (zip ws cs));
                               (m, changed) = fold (claim_window_step ep skip) ws (ie_windows e, False);
                               reg' = put_entry index (e\<lparr>ie_windows := m\<rparr>) reg in
                           if changed then commit io reg' () else (reg', Inr ()))))))"


subsection \<open>Resolving the holders of a unit\<close>

record unit_holders =
  uh_primary :: string
  uh_replicas :: "string list"
  uh_changed :: bool
  uh_moved :: bool

definition unit_assignment :: "index_entry \<Rightarrow> place_unit \<Rightarrow> shard_assignment option" where
  "unit_assignment e u =
     (case u of
        ShardUnit k \<Rightarrow> bt_get (ie_shards e) k
      | WindowUnit w \<Rightarrow> map_option wa_assignment (bt_get (ie_windows e) w))"

definition unit_assignment_mut :: "index_entry \<Rightarrow> place_unit \<Rightarrow> shard_assignment" where
  "unit_assignment_mut e u = (case unit_assignment e u of None \<Rightarrow> empty_assignment | Some a \<Rightarrow> a)"

definition put_unit :: "place_unit \<Rightarrow> shard_assignment \<Rightarrow> index_entry \<Rightarrow> index_entry" where
  "put_unit u a e =
     (case u of
        ShardUnit k \<Rightarrow> e\<lparr>ie_shards := bt_insert k a (ie_shards e)\<rparr>
      | WindowUnit w \<Rightarrow> e\<lparr>ie_windows := bt_upsert w empty_window (\<lambda>wa. wa\<lparr>wa_assignment := a\<rparr>) (ie_windows e)\<rparr>)"

definition unit_primary :: "index_entry \<Rightarrow> place_unit \<Rightarrow> string option" where
  "unit_primary e u = (case unit_assignment e u of None \<Rightarrow> None | Some a \<Rightarrow> sa_primary a)"

type_synonym load_map = "(string, nat) btree"

definition pick_least_loaded :: "load_map \<Rightarrow> string list \<Rightarrow> string option" where
  "pick_least_loaded load exclude =
     map_option fst (first_min snd (filter (\<lambda>(ep, _). ep \<notin> set exclude) load))"

definition bump_load :: "string \<Rightarrow> load_map \<Rightarrow> load_map" where
  "bump_load n load = (case bt_get load n of None \<Rightarrow> load | Some c \<Rightarrow> bt_insert n (c + 1) load)"

definition holder_load :: "registry \<Rightarrow> int \<Rightarrow> load_map" where
  "holder_load reg now =
     fold bump_load (concat (map assignment_nodes (all_assignments (c_indexes (r_core reg)))))
       (map (\<lambda>ep. (ep, 0)) (placement_nodes reg now))"

text \<open>A fresh unit at the entitlement cap goes to a node that already holds a primary.\<close>

definition pick_primary ::
    "string \<Rightarrow> place_unit \<Rightarrow> bool \<Rightarrow> string bset \<Rightarrow> nat \<Rightarrow> load_map \<Rightarrow> registry_error + string" where
  "pick_primary index u fresh primary_nodes entitled load =
     (case pick_least_loaded load [] of
        None \<Rightarrow> Inl (NoLiveNode index u)
      | Some pick \<Rightarrow>
          if fresh \<and> entitled \<le> length primary_nodes \<and> pick \<notin> set primary_nodes then
            (case pick_least_loaded (filter (\<lambda>(ep, _). ep \<in> set primary_nodes) load) [] of
               None \<Rightarrow> Inl (EntitlementExceeded (length primary_nodes) entitled)
             | Some pick' \<Rightarrow> Inr pick')
          else Inr pick)"

text \<open>The top-up loop: it runs while fewer than \<open>r - 1\<close> replicas are held.\<close>

function top_up ::
    "nat \<Rightarrow> string list \<Rightarrow> string \<Rightarrow> load_map \<Rightarrow> string list \<Rightarrow> bool \<Rightarrow> string list \<times> bool" where
  "top_up r incapable primary load reps changed =
     (if length reps + 1 < r then
        (case pick_least_loaded load (reps @ [primary] @ incapable) of
           None \<Rightarrow> (reps, changed)
         | Some pick \<Rightarrow> top_up r incapable primary (bump_load pick load) (reps @ [pick]) True)
      else (reps, changed))"
  by pat_completeness auto
termination
  by (relation "measure (\<lambda>(r, _, _, _, reps, _). r - length reps)") auto

declare top_up.simps [simp del]

text \<open>Steps 1 and 2: prune dead replicas, clear a dead primary.\<close>

definition prune_dead :: "string list \<Rightarrow> shard_assignment \<Rightarrow> shard_assignment" where
  "prune_dead live a =
     \<lparr>sa_primary = (case sa_primary a of Some p \<Rightarrow> if p \<in> set live then Some p else None | None \<Rightarrow> None),
      sa_replicas = filter (\<lambda>n. n \<in> set live) (sa_replicas a)\<rparr>"

definition prune_changes :: "string list \<Rightarrow> shard_assignment \<Rightarrow> bool" where
  "prune_changes live a \<longleftrightarrow>
     length (sa_replicas (prune_dead live a)) \<noteq> length (sa_replicas a)
     \<or> (case sa_primary a of Some p \<Rightarrow> p \<notin> set live | None \<Rightarrow> False)"

text \<open>Steps 2b to 4 on an assignment whose holders are live; \<open>None\<close> as a primary means one is chosen.\<close>

definition choose_primary ::
    "string \<Rightarrow> place_unit \<Rightarrow> bool \<Rightarrow> string bset \<Rightarrow> nat \<Rightarrow> load_map \<Rightarrow> shard_assignment
       \<Rightarrow> registry_error + (string \<times> string list \<times> load_map \<times> bool)" where
  "choose_primary index u fresh primary_nodes entitled load a =
     (case sa_primary a of
        Some p \<Rightarrow> Inr (p, sa_replicas a, load, False)
      | None \<Rightarrow>
          (case sa_replicas a of
             n # ns \<Rightarrow> Inr (n, ns, load, True)
           | [] \<Rightarrow> res_bind (pick_primary index u fresh primary_nodes entitled load)
                    (\<lambda>pick. Inr (pick, [], bump_load pick load, True))))"

definition fill_replicas ::
    "nat \<Rightarrow> string list \<Rightarrow> string \<Rightarrow> load_map \<Rightarrow> string list \<Rightarrow> bool \<Rightarrow> string list \<times> bool" where
  "fill_replicas r incapable primary load reps changed =
     (let (reps, changed) = top_up r incapable primary load reps changed in
      if r < length reps + 1 then (take (r - 1) reps, True) else (reps, changed))"

definition incapable_nodes :: "registry \<Rightarrow> int \<Rightarrow> string list" where
  "incapable_nodes reg now = filter (\<lambda>ep. ep \<notin> set (r_replica_capable reg)) (live_nodes reg now)"

definition resolve_unit_holders ::
    "backend_io \<Rightarrow> string \<Rightarrow> place_unit \<Rightarrow> nat \<Rightarrow> nat \<Rightarrow> int \<Rightarrow> registry \<Rightarrow> unit_holders reg_result" where
  "resolve_unit_holders io index u rf entitled now reg =
     (let r = max rf 1; live = live_nodes reg now in
      case get_entry reg index of
        None \<Rightarrow> (reg, Inl (NotFound index))
      | Some e \<Rightarrow>
          (case (if placement_grace_active reg now then unit_primary e u else None) of
             Some p \<Rightarrow>
               (reg, Inr \<lparr>uh_primary = p, uh_replicas = sa_replicas (unit_assignment_mut e u),
                          uh_changed = False, uh_moved = False\<rparr>)
           | None \<Rightarrow>
               if live = [] then (reg, Inl (NoLiveNode index u))
               else
                 (let fresh = (unit_primary e u = None);
                      primary_nodes = (if fresh then entitlement_nodes reg now else []);
                      a = unit_assignment_mut e u;
                      a1 = prune_dead live a;
                      put = (\<lambda>a. put_entry index (put_unit u a e) reg) in
                  case choose_primary index u fresh primary_nodes entitled (holder_load reg now) a1 of
                    Inl err \<Rightarrow> (put a1, Inl err)
                  | Inr (p, reps, load, moved) \<Rightarrow>
                      (let (reps, changed) = fill_replicas r (incapable_nodes reg now) p load reps
                             (prune_changes live a \<or> moved);
                           reg' = put \<lparr>sa_primary = Some p, sa_replicas = reps\<rparr>;
                           h = \<lparr>uh_primary = p, uh_replicas = reps, uh_changed = changed, uh_moved = moved\<rparr> in
                       if changed then commit io reg' h else (reg', Inr h)))))"

definition resolve_unit_owner ::
    "backend_io \<Rightarrow> string \<Rightarrow> place_unit \<Rightarrow> nat \<Rightarrow> int \<Rightarrow> registry \<Rightarrow> (string \<times> bool) reg_result" where
  "resolve_unit_owner io index u entitled now reg =
     (case resolve_unit_holders io index u 1 entitled now reg of
        (reg', Inl e) \<Rightarrow> (reg', Inl e)
      | (reg', Inr h) \<Rightarrow> (reg', Inr (uh_primary h, uh_moved h)))"

definition resolve_window_owner ::
    "backend_io \<Rightarrow> string \<Rightarrow> int \<Rightarrow> nat \<Rightarrow> int \<Rightarrow> registry \<Rightarrow> (string \<times> bool) reg_result" where
  "resolve_window_owner io index w entitled now reg =
     resolve_unit_owner io index (WindowUnit w) entitled now reg"

definition role_of :: "string \<Rightarrow> shard_assignment \<Rightarrow> bool option" where
  "role_of ep a =
     (if sa_primary a = Some ep then Some True
      else if ep \<in> set (sa_replicas a) then Some False else None)"

definition node_assignments :: "registry \<Rightarrow> string \<Rightarrow> (string \<times> place_unit \<times> bool) list" where
  "node_assignments reg ep =
     concat (map (\<lambda>(name, e).
       List.map_filter (\<lambda>(k, a). map_option (\<lambda>b. (name, ShardUnit k, b)) (role_of ep a)) (ie_shards e) @
       List.map_filter (\<lambda>(w, wa). map_option (\<lambda>b. (name, WindowUnit w, b)) (role_of ep (wa_assignment wa)))
         (ie_windows e)) (c_indexes (r_core reg)))"

subsection \<open>Sweeps\<close>

definition primary_dead :: "registry \<Rightarrow> int \<Rightarrow> shard_assignment \<Rightarrow> bool" where
  "primary_dead reg now a \<longleftrightarrow> (case sa_primary a of None \<Rightarrow> False | Some p \<Rightarrow> owner_confidently_dead reg p now)"

definition dead_primary_units :: "registry \<Rightarrow> int \<Rightarrow> (string \<times> place_unit) list" where
  "dead_primary_units reg now =
     (if placement_grace_active reg now then []
      else concat (map (\<lambda>(name, e).
        map (\<lambda>(k, _). (name, ShardUnit k)) (filter (\<lambda>(_, a). primary_dead reg now a) (ie_shards e)) @
        map (\<lambda>(w, _). (name, WindowUnit w)) (filter (\<lambda>(_, wa). primary_dead reg now (wa_assignment wa)) (ie_windows e)))
        (c_indexes (r_core reg))))"

definition live_holders :: "string list \<Rightarrow> shard_assignment \<Rightarrow> nat" where
  "live_holders live a = length (filter (\<lambda>n. n \<in> set live) (assignment_nodes a))"

definition shard_needs :: "bool \<Rightarrow> string list \<Rightarrow> nat \<Rightarrow> shard_assignment option \<Rightarrow> bool" where
  "shard_needs grace live r sa =
     (case sa of
        None \<Rightarrow> True
      | Some a \<Rightarrow> if sa_primary a = None then True else \<not> grace \<and> live_holders live a < r)"

definition window_needs :: "bool \<Rightarrow> string list \<Rightarrow> nat \<Rightarrow> window_assignment \<Rightarrow> bool" where
  "window_needs grace live r wa \<longleftrightarrow>
     \<not> grace \<and> sa_primary (wa_assignment wa) \<noteq> None \<and> live_holders live (wa_assignment wa) < r"

definition units_needing_placement :: "registry \<Rightarrow> nat \<Rightarrow> int \<Rightarrow> (string \<times> place_unit) list" where
  "units_needing_placement reg rf now =
     (let r = max rf 1; grace = placement_grace_active reg now; live = live_nodes reg now in
      if initial_placement_settling reg now then []
      else concat (map (\<lambda>(name, e).
        if ri_windowing (ie_definition e) = None then
          map (\<lambda>k. (name, ShardUnit k))
            (filter (\<lambda>k. shard_needs grace live r (bt_get (ie_shards e) k)) [0..<ri_shard_count (ie_definition e)])
        else
          map (\<lambda>(w, _). (name, WindowUnit w)) (filter (\<lambda>(_, wa). window_needs grace live r wa) (ie_windows e)))
        (c_indexes (r_core reg))))"

text \<open>Both sweeps drive their work list through the resolve; they differ in what they count. Each persist gets
  its own backend answer.\<close>

fun drive_units ::
    "(unit_holders \<Rightarrow> bool) \<Rightarrow> (nat \<Rightarrow> backend_io) \<Rightarrow> nat \<Rightarrow> nat \<Rightarrow> int \<Rightarrow> (string \<times> place_unit) list \<Rightarrow> nat \<Rightarrow> registry
       \<Rightarrow> nat reg_result" where
  "drive_units counted ios rf entitled now [] n reg = (reg, Inr n)"
| "drive_units counted ios rf entitled now ((index, u) # us) n reg =
     (case resolve_unit_holders (ios (length us)) index u rf entitled now reg of
        (reg', Inr h) \<Rightarrow> drive_units counted ios rf entitled now us (if counted h then n + 1 else n) reg'
      | (reg', Inl (NotFound _)) \<Rightarrow> drive_units counted ios rf entitled now us n reg'
      | (reg', Inl (NoLiveNode _ _)) \<Rightarrow> (reg', Inr n)
      | (reg', Inl e) \<Rightarrow> (reg', Inl e))"

definition sweep_dead_primaries :: "(nat \<Rightarrow> backend_io) \<Rightarrow> nat \<Rightarrow> nat \<Rightarrow> int \<Rightarrow> registry \<Rightarrow> nat reg_result" where
  "sweep_dead_primaries ios rf entitled now reg =
     (if live_nodes reg now = [] then (reg, Inr 0)
      else drive_units uh_moved ios rf entitled now (dead_primary_units reg now) 0 reg)"

definition ensure_placement :: "(nat \<Rightarrow> backend_io) \<Rightarrow> nat \<Rightarrow> nat \<Rightarrow> int \<Rightarrow> registry \<Rightarrow> nat reg_result" where
  "ensure_placement ios rf entitled now reg =
     (if live_nodes reg now = [] then (reg, Inr 0)
      else drive_units uh_changed ios rf entitled now (units_needing_placement reg rf now) 0 reg)"

subsection \<open>Every operation keeps the invariant\<close>

lemma entry_ok_simps [simp]:
  "entry_ok (e\<lparr>ie_shards := m\<rparr>) \<longleftrightarrow> bt_ok m \<and> bt_ok (ie_windows e)"
  "entry_ok (e\<lparr>ie_windows := w\<rparr>) \<longleftrightarrow> bt_ok (ie_shards e) \<and> bt_ok w"
  "entry_ok (e\<lparr>ie_bucket_owners := bo\<rparr>) = entry_ok e"
  "entry_ok (e\<lparr>ie_generation := g\<rparr>) = entry_ok e"
  "entry_ok (e\<lparr>ie_definition := d\<rparr>) = entry_ok e"
  "entry_ok (e\<lparr>ie_definition_version := v\<rparr>) = entry_ok e"
  by (simp_all add: entry_ok_def)

lemma entry_okD: "entry_ok e \<Longrightarrow> bt_ok (ie_shards e)" "entry_ok e \<Longrightarrow> bt_ok (ie_windows e)"
  by (simp_all add: entry_ok_def)

lemma commit_put_ok: "reg_ok reg \<Longrightarrow> entry_ok e \<Longrightarrow> reg_ok (fst (commit io (put_entry n e reg) x))"
  by (simp add: reg_ok_put)

lemma with_shard_ok: "reg_ok reg \<Longrightarrow> reg_ok (fst (with_shard io n s f reg))"
  using reg_ok_entry [of reg n] by (auto simp: with_shard_def entry_okD intro!: reg_ok_put split: option.splits)

lemma with_window_ok: "reg_ok reg \<Longrightarrow> reg_ok (fst (with_window io n w f reg))"
  using reg_ok_entry [of reg n] by (auto simp: with_window_def entry_okD intro!: reg_ok_put split: option.splits)

lemma with_coherent:
  "coherent reg \<Longrightarrow> coherent (fst (with_shard io n s f reg))"
  "coherent reg \<Longrightarrow> coherent (fst (with_window io n w g reg))"
  by (auto simp: with_shard_def with_window_def split: option.splits)

lemma bt_ok_fold_upsert: "bt_ok m \<Longrightarrow> bt_ok (fold (\<lambda>s. bt_upsert s d f) ss m)"
  by (induction ss arbitrary: m) auto

lemma assign_primaries_ok: "reg_ok reg \<Longrightarrow> reg_ok (fst (assign_primaries io n ss node reg))"
  using reg_ok_entry [of reg n]
  by (auto simp: assign_primaries_def entry_okD bt_ok_fold_upsert intro!: reg_ok_put split: option.splits)

lemma promote_replica_ok: "reg_ok reg \<Longrightarrow> reg_ok (fst (promote_replica io n s reg))"
  using reg_ok_entry [of reg n]
  by (auto simp: promote_replica_def Let_def entry_okD intro!: reg_ok_put split: option.splits list.splits)

lemma cas_ok:
  "reg_ok reg \<Longrightarrow> reg_ok (fst (set_bucket_map io n ex m reg))"
  "reg_ok reg \<Longrightarrow> reg_ok (fst (set_generation io n g g' reg))"
  "reg_ok reg \<Longrightarrow> reg_ok (fst (commit_reindex_cutover io n d g g' reg))"
  "reg_ok reg \<Longrightarrow> reg_ok (fst (set_definition io n v df reg))"
  "reg_ok reg \<Longrightarrow> reg_ok (fst (adopt_bucket_map_if_absent io n c reg))"
  using reg_ok_entry [of reg n]
  by (auto simp: set_bucket_map_def set_generation_def commit_reindex_cutover_def set_definition_def
      adopt_bucket_map_if_absent_def intro!: reg_ok_put split: option.splits)

lemma cas_coherent:
  "coherent reg \<Longrightarrow> coherent (fst (set_bucket_map io n ex m reg))"
  "coherent reg \<Longrightarrow> coherent (fst (set_generation io n g g' reg))"
  "coherent reg \<Longrightarrow> coherent (fst (commit_reindex_cutover io n d g g' reg))"
  "coherent reg \<Longrightarrow> coherent (fst (set_definition io n v df reg))"
  "coherent reg \<Longrightarrow> coherent (fst (adopt_bucket_map_if_absent io n c reg))"
  by (auto simp: set_bucket_map_def set_generation_def commit_reindex_cutover_def set_definition_def
      adopt_bucket_map_if_absent_def split: option.splits)

subsection \<open>Announces\<close>

lemma claim_shard_ok: "bt_ok (fst mc) \<Longrightarrow> bt_ok (fst (claim_shard node skip s mc))"
  by (auto simp: claim_shard_def Let_def split: prod.splits)

lemma fold_claim_shard_ok: "bt_ok (fst mc) \<Longrightarrow> bt_ok (fst (fold (claim_shard node skip) ss mc))"
  by (induction ss arbitrary: mc) (auto simp: claim_shard_ok)

lemma claim_window_ok: "bt_ok (fst mc) \<Longrightarrow> bt_ok (fst (claim_window_step node skip s mc))"
  by (auto simp: claim_window_step_def Let_def split: prod.splits)

lemma fold_claim_window_ok: "bt_ok (fst mc) \<Longrightarrow> bt_ok (fst (fold (claim_window_step node skip) ss mc))"
  by (induction ss arbitrary: mc) (auto simp: claim_window_ok)

text \<open>An announce either leaves the registry alone or claims the units it may claim.\<close>

lemma announce_primaries_cases:
  obtains (same) "fst (announce_primaries io n ss ep now ent reg) = reg"
  | (claimed) e cs m ch where "get_entry reg n = Some e"
      "res_map (\<lambda>s. classify_unit reg now n ep (ShardUnit s) (bt_get (ie_shards e) s)) ss = Inr cs"
      "fold (claim_shard ep (map fst (filter (\<lambda>(_, c). c = ReplicaReport) (zip ss cs)))) ss (ie_shards e, False) = (m, ch)"
      "announce_primaries io n ss ep now ent reg =
         (if ch then commit io (put_entry n (e\<lparr>ie_shards := m\<rparr>) reg) ()
          else (put_entry n (e\<lparr>ie_shards := m\<rparr>) reg, Inr ()))"
proof (cases "ss = [] \<or> get_entry reg n = None")
  case True
  then show thesis by (intro same) (auto simp: announce_primaries_def)
next
  case False
  then obtain e where e: "get_entry reg n = Some e" "ss \<noteq> []" by auto
  show thesis
  proof (cases "res_map (\<lambda>s. classify_unit reg now n ep (ShardUnit s) (bt_get (ie_shards e) s)) ss")
    case (Inl err)
    then show thesis using e by (intro same) (simp add: announce_primaries_def)
  next
    case (Inr cs)
    obtain m ch where f: "fold (claim_shard ep (map fst (filter (\<lambda>(_, c). c = ReplicaReport) (zip ss cs)))) ss (ie_shards e, False) = (m, ch)" by fastforce
    show thesis
    proof (cases "if Fresh \<in> set cs then entitlement_refuses reg now ep ent else None")
      case None
      then show thesis using e Inr f by (intro claimed[OF e(1) Inr f]) (simp add: announce_primaries_def Let_def)
    next
      case (Some err)
      then show thesis using e Inr by (intro same) (simp add: announce_primaries_def)
    qed
  qed
qed

lemma announce_windows_cases:
  obtains (same) "fst (announce_windows io n ep ws now ent reg) = reg"
  | (claimed) e cs m ch where "get_entry reg n = Some e"
      "res_map (\<lambda>w. classify_unit reg now n ep (WindowUnit (wn_window w))
         (map_option wa_assignment (bt_get (ie_windows e) (wn_window w)))) ws = Inr cs"
      "fold (claim_window_step ep (map (wn_window \<circ> fst) (filter (\<lambda>(_, c). c = ReplicaReport) (zip ws cs)))) ws
         (ie_windows e, False) = (m, ch)"
      "announce_windows io n ep ws now ent reg =
         (if ch then commit io (put_entry n (e\<lparr>ie_windows := m\<rparr>) reg) ()
          else (put_entry n (e\<lparr>ie_windows := m\<rparr>) reg, Inr ()))"
proof (cases "ws = [] \<or> get_entry reg n = None")
  case True
  then show thesis by (intro same) (auto simp: announce_windows_def)
next
  case False
  then obtain e where e: "get_entry reg n = Some e" "ws \<noteq> []" by auto
  show thesis
  proof (cases "res_map (\<lambda>w. classify_unit reg now n ep (WindowUnit (wn_window w)) (map_option wa_assignment (bt_get (ie_windows e) (wn_window w)))) ws")
    case (Inl err)
    then show thesis using e by (intro same) (simp add: announce_windows_def)
  next
    case (Inr cs)
    obtain m ch where f: "fold (claim_window_step ep (map (wn_window \<circ> fst) (filter (\<lambda>(_, c). c = ReplicaReport) (zip ws cs)))) ws (ie_windows e, False) = (m, ch)" by fastforce
    show thesis
    proof (cases "if Fresh \<in> set cs then entitlement_refuses reg now ep ent else None")
      case None
      then show thesis using e Inr f by (intro claimed[OF e(1) Inr f]) (simp add: announce_windows_def Let_def)
    next
      case (Some err)
      then show thesis using e Inr by (intro same) (simp add: announce_windows_def)
    qed
  qed
qed

lemma announce_primaries_ok: "reg_ok reg \<Longrightarrow> reg_ok (fst (announce_primaries io n ss ep now ent reg))"
proof (cases rule: announce_primaries_cases[of io n ss ep now ent reg])
  case (claimed e cs m ch)
  assume ok: "reg_ok reg"
  have "bt_ok m"
    using fold_claim_shard_ok[of "(ie_shards e, False)"] claimed(3) reg_ok_entry[OF ok claimed(1)]
    by (metis entry_okD(1) fst_conv)
  then have "reg_ok (put_entry n (e\<lparr>ie_shards := m\<rparr>) reg)"
    using reg_ok_entry[OF ok claimed(1)] ok by (intro reg_ok_put) (simp_all add: entry_okD)
  then show ?thesis using claimed(4) by simp
qed simp

lemma announce_windows_ok: "reg_ok reg \<Longrightarrow> reg_ok (fst (announce_windows io n ep ws now ent reg))"
proof (cases rule: announce_windows_cases[of io n ep ws now ent reg])
  case (claimed e cs m ch)
  assume ok: "reg_ok reg"
  have "bt_ok m"
    using fold_claim_window_ok[of "(ie_windows e, False)"] claimed(3) reg_ok_entry[OF ok claimed(1)]
    by (metis entry_okD(2) fst_conv)
  then have "reg_ok (put_entry n (e\<lparr>ie_windows := m\<rparr>) reg)"
    using reg_ok_entry[OF ok claimed(1)] ok by (intro reg_ok_put) (simp_all add: entry_okD)
  then show ?thesis using claimed(4) by simp
qed simp

text \<open>When nothing is reported as changed, nothing is.\<close>

lemma bt_insert_same: "bt_ok m \<Longrightarrow> bt_get m k = Some v \<Longrightarrow> bt_insert k v m = m"
proof (induction m)
  case (Cons p m)
  then show ?case by (cases p) (fastforce simp: bt_ok_def bt_keys_def bt_get_def dest: map_of_SomeD)
qed (simp add: bt_get_def)

lemma filter_same_length: "length (filter P xs) = length xs \<Longrightarrow> filter P xs = xs"
  unfolding filter_id_conv using length_filter_less [of _ xs P] by fastforce

lemma claim_same: "\<not> claim_changes node a \<Longrightarrow> claim node a = a"
  using filter_same_length [of "\<lambda>n. n \<noteq> node" "sa_replicas a"] by (simp add: claim_changes_def claim_def)

lemma claim_shard_same:
  "bt_ok m \<Longrightarrow> claim_shard node skip s (m, c) = (m', False) \<Longrightarrow> m' = m \<and> \<not> c"
  by (auto simp: claim_shard_def Let_def claim_same claim_changes_def empty_assignment_def bt_insert_same
      split: option.splits if_splits)

lemma fold_claim_shard_same:
  "bt_ok m \<Longrightarrow> fold (claim_shard node skip) ss (m, c) = (m', False) \<Longrightarrow> m' = m \<and> \<not> c"
proof (induction ss arbitrary: m c)
  case (Cons s ss)
  obtain m1 c1 where s: "claim_shard node skip s (m, c) = (m1, c1)" by fastforce
  have "bt_ok m1" using claim_shard_ok[of "(m, c)" node skip s] Cons.prems(1) s by simp
  then have "m' = m1 \<and> \<not> c1" using Cons.IH[of m1 c1] Cons.prems(2) s by simp
  then show ?case using claim_shard_same[OF Cons.prems(1), of node skip s c m1] s by simp
qed simp

lemma claim_window_same: "\<not> claim_window_changes node w wa \<Longrightarrow> claim_window node w wa = wa"
  by (auto simp: claim_window_changes_def claim_window_def Let_def claim_same widen_def split: option.splits prod.splits)

lemma claim_window_step_same:
  "bt_ok m \<Longrightarrow> claim_window_step node skip s (m, c) = (m', False) \<Longrightarrow> m' = m \<and> \<not> c"
  by (auto simp: claim_window_step_def Let_def claim_window_same bt_insert_same split: option.splits if_splits)

lemma fold_claim_window_same:
  "bt_ok m \<Longrightarrow> fold (claim_window_step node skip) ss (m, c) = (m', False) \<Longrightarrow> m' = m \<and> \<not> c"
proof (induction ss arbitrary: m c)
  case (Cons s ss)
  obtain m1 c1 where s: "claim_window_step node skip s (m, c) = (m1, c1)" by fastforce
  have "bt_ok m1" using claim_window_ok[of "(m, c)" node skip s] Cons.prems(1) s by simp
  then have "m' = m1 \<and> \<not> c1" using Cons.IH[of m1 c1] Cons.prems(2) s by simp
  then show ?case using claim_window_step_same[OF Cons.prems(1), of node skip s c m1] s by simp
qed simp

lemma put_entry_same: "reg_ok reg \<Longrightarrow> get_entry reg n = Some e \<Longrightarrow> put_entry n e reg = reg"
  by (simp add: get_entry_def bt_insert_same reg_ok_def core_okD)

lemma announce_primaries_coherent:
  "reg_ok reg \<Longrightarrow> coherent reg \<Longrightarrow> coherent (fst (announce_primaries io n ss ep now ent reg))"
proof (cases rule: announce_primaries_cases[of io n ss ep now ent reg])
  case (claimed e cs m ch)
  assume ok: "reg_ok reg" "coherent reg"
  have "put_entry n (e\<lparr>ie_shards := m\<rparr>) reg = reg" if "\<not> ch"
  proof -
    have "m = ie_shards e"
      using fold_claim_shard_same[of "ie_shards e"] claimed(3) that reg_ok_entry[OF ok(1) claimed(1)]
      by (auto simp: entry_okD)
    then show ?thesis using put_entry_same[OF ok(1) claimed(1)] by simp
  qed
  then show ?thesis using claimed(4) ok(2) by (cases ch) simp_all
qed simp

lemma announce_windows_coherent:
  "reg_ok reg \<Longrightarrow> coherent reg \<Longrightarrow> coherent (fst (announce_windows io n ep ws now ent reg))"
proof (cases rule: announce_windows_cases[of io n ep ws now ent reg])
  case (claimed e cs m ch)
  assume ok: "reg_ok reg" "coherent reg"
  have "put_entry n (e\<lparr>ie_windows := m\<rparr>) reg = reg" if "\<not> ch"
  proof -
    have "m = ie_windows e"
      using fold_claim_window_same[of "ie_windows e"] claimed(3) that reg_ok_entry[OF ok(1) claimed(1)]
      by (auto simp: entry_okD)
    then show ?thesis using put_entry_same[OF ok(1) claimed(1)] by simp
  qed
  then show ?thesis using claimed(4) ok(2) by (cases ch) simp_all
qed simp

subsection \<open>Units\<close>

lemma unit_assignment_put [simp]:
  "unit_assignment (put_unit u a e) u' = (if u' = u then Some a else unit_assignment e u')"
  by (cases u; cases u') (auto simp: unit_assignment_def put_unit_def split: option.splits)

lemma entry_ok_put_unit [simp]: "entry_ok e \<Longrightarrow> entry_ok (put_unit u a e)"
  by (cases u) (simp_all add: put_unit_def entry_okD)

lemma put_unit_same: "entry_ok e \<Longrightarrow> unit_assignment e u = Some a \<Longrightarrow> put_unit u a e = e"
proof (cases u)
  case (WindowUnit w)
  assume e: "entry_ok e" "unit_assignment e u = Some a"
  then obtain wa where "bt_get (ie_windows e) w = Some wa" "wa_assignment wa = a"
    using WindowUnit by (auto simp: unit_assignment_def)
  then have "bt_upsert w empty_window (\<lambda>wa. wa\<lparr>wa_assignment := a\<rparr>) (ie_windows e) = ie_windows e"
    using e(1) by (simp add: bt_upsert_def entry_okD bt_insert_same)
  then show ?thesis by (simp add: put_unit_def WindowUnit)
qed (simp add: put_unit_def unit_assignment_def bt_insert_same entry_okD)

text \<open>The units of a catalog and the assignments the code walks are the same.\<close>

definition unit_of :: "registry \<Rightarrow> string \<Rightarrow> place_unit \<Rightarrow> shard_assignment option" where
  "unit_of reg n u = Option.bind (get_entry reg n) (\<lambda>e. unit_assignment e u)"

lemma ex_place_unit: "(\<exists>u. P u) \<longleftrightarrow> (\<exists>k. P (ShardUnit k)) \<or> (\<exists>w. P (WindowUnit w))"
  by (metis place_unit.exhaust)

lemma entry_assignments_mem:
  assumes "entry_ok e"
  shows "a \<in> set (entry_assignments e) \<longleftrightarrow> (\<exists>u. unit_assignment e u = Some a)"
proof -
  have "a \<in> set (bt_values (ie_shards e)) \<longleftrightarrow> (\<exists>k. bt_get (ie_shards e) k = Some a)"
    using assms by (simp add: bt_values_mem entry_okD)
  moreover have "a \<in> wa_assignment ` set (bt_values (ie_windows e)) \<longleftrightarrow>
      (\<exists>w. map_option wa_assignment (bt_get (ie_windows e) w) = Some a)"
    using assms by (auto simp: image_iff Bex_def bt_values_mem entry_okD)
  ultimately show ?thesis by (simp add: entry_assignments_def unit_assignment_def ex_place_unit)
qed

lemma all_assignments_mem:
  assumes ok: "reg_ok reg"
  shows "a \<in> set (all_assignments (c_indexes (r_core reg))) \<longleftrightarrow> (\<exists>n u. unit_of reg n u = Some a)"
proof -
  have bt: "bt_ok (c_indexes (r_core reg))" using ok by (simp add: reg_ok_def core_okD)
  have "a \<in> set (all_assignments (c_indexes (r_core reg))) \<longleftrightarrow>
      (\<exists>e \<in> set (bt_values (c_indexes (r_core reg))). a \<in> set (entry_assignments e))"
    by (simp add: all_assignments_def)
  also have "\<dots> \<longleftrightarrow> (\<exists>n e. get_entry reg n = Some e \<and> a \<in> set (entry_assignments e))"
    unfolding Bex_def bt_values_mem[OF bt] get_entry_def by blast
  also have "\<dots> \<longleftrightarrow> (\<exists>n e u. get_entry reg n = Some e \<and> unit_assignment e u = Some a)"
    using entry_assignments_mem reg_ok_entry[OF ok] by blast
  also have "\<dots> \<longleftrightarrow> (\<exists>n u. unit_of reg n u = Some a)"
    by (simp add: unit_of_def bind_eq_Some_conv) blast
  finally show ?thesis .
qed

lemma get_entry_put [simp]: "get_entry (put_entry n e reg) m = (if m = n then Some e else get_entry reg m)"
  by (simp add: get_entry_def)

lemma unit_of_put:
  "get_entry reg n = Some e \<Longrightarrow>
     unit_of (put_entry n (put_unit u a e) reg) m v = (if m = n \<and> v = u then Some a else unit_of reg m v)"
  by (auto simp: unit_of_def)

subsection \<open>Load maps\<close>

lemma bt_keys_bump [simp]: "set (bt_keys (bump_load n load)) = set (bt_keys load)"
  by (auto simp: bump_load_def bt_keys_get split: option.splits if_splits)

lemma bt_keys_fold_bump [simp]: "set (bt_keys (fold bump_load ns load)) = set (bt_keys load)"
  by (induction ns arbitrary: load) simp_all

lemma holder_load_keys: "set (bt_keys (holder_load reg now)) = set (placement_nodes reg now)"
  by (simp add: holder_load_def) (simp add: bt_keys_def comp_def)

lemma placement_live: "set (placement_nodes reg now) \<subseteq> set (live_nodes reg now)"
  by (auto simp: placement_nodes_def live_nodes_def)

lemma pick_Some:
  assumes "pick_least_loaded load ex = Some x"
  shows "x \<in> set (bt_keys load)" "x \<notin> set ex"
proof -
  obtain d where d: "first_min snd (filter (\<lambda>(ep, _). ep \<notin> set ex) load) = Some (x, d)"
    using assms by (auto simp: pick_least_loaded_def)
  have "(x, d) \<in> set (filter (\<lambda>(ep, _). ep \<notin> set ex) load)" using first_min_Some[OF d] by blast
  then show "x \<in> set (bt_keys load)" "x \<notin> set ex" by (force simp: bt_keys_def)+
qed

lemma pick_least:
  assumes "bt_ok load" "pick_least_loaded load ex = Some x" "y \<notin> set ex" "bt_get load y = Some c"
  shows "\<exists>d \<le> c. bt_get load x = Some d"
proof -
  obtain d where d: "first_min snd (filter (\<lambda>(ep, _). ep \<notin> set ex) load) = Some (x, d)"
    using assms(2) by (auto simp: pick_least_loaded_def)
  have "(y, c) \<in> set (filter (\<lambda>(ep, _). ep \<notin> set ex) load)"
    using assms by (simp add: bt_mem_get)
  then have "d \<le> c" "(x, d) \<in> set load" using first_min_Some[OF d] by auto
  then show ?thesis using assms(1) by (auto simp: bt_mem_get)
qed

lemma pick_None: "pick_least_loaded load ex = None \<longleftrightarrow> set (bt_keys load) \<subseteq> set ex"
  by (auto simp: pick_least_loaded_def bt_keys_def filter_empty_conv)

subsection \<open>Topping up\<close>

lemma top_up_extends:
  "top_up r inc p load reps ch = (reps', ch') \<Longrightarrow>
     \<exists>ext. reps' = reps @ ext \<and> (ch' \<longleftrightarrow> ch \<or> ext \<noteq> []) \<and> length reps' \<le> max (length reps) (r - 1)
       \<and> set ext \<subseteq> set (bt_keys load) - set inc - {p}
       \<and> (distinct reps \<longrightarrow> distinct reps')
       \<and> (r \<le> length reps' + 1 \<or> set (bt_keys load) \<subseteq> set reps' \<union> {p} \<union> set inc)"
proof (induction r inc p load reps ch arbitrary: reps' ch' rule: top_up.induct)
  case (1 r inc p load reps ch)
  show ?case
  proof (cases "length reps + 1 < r")
    case False
    then show ?thesis using "1.prems" by (simp add: top_up.simps)
  next
    case True
    show ?thesis
    proof (cases "pick_least_loaded load (reps @ [p] @ inc)")
      case None
      then have "set (bt_keys load) \<subseteq> set (reps @ [p] @ inc)" by (simp only: pick_None)
      moreover have "reps' = reps" "ch' = ch" using "1.prems" True None by (simp_all add: top_up.simps[of r])
      ultimately show ?thesis by auto
    next
      case (Some x)
      then have rec: "top_up r inc p (bump_load x load) (reps @ [x]) True = (reps', ch')"
        using "1.prems" True by (simp add: top_up.simps[of r inc p load])
      have x: "x \<in> set (bt_keys load)" "x \<notin> set reps" "x \<noteq> p" "x \<notin> set inc"
        using pick_Some[OF Some] by auto
      from "1.IH"[OF True Some rec] obtain ext where E: "reps' = (reps @ [x]) @ ext" "ch' \<longleftrightarrow> True \<or> ext \<noteq> []"
          "length reps' \<le> max (length (reps @ [x])) (r - 1)"
          "set ext \<subseteq> set (bt_keys (bump_load x load)) - set inc - {p}" "distinct (reps @ [x]) \<longrightarrow> distinct reps'"
          "r \<le> length reps' + 1 \<or> set (bt_keys (bump_load x load)) \<subseteq> set reps' \<union> {p} \<union> set inc"
        by blast
      show ?thesis
      proof (intro exI[of _ "x # ext"] conjI)
        show "length reps' \<le> max (length reps) (r - 1)" using E(3) True by auto
        show "set (x # ext) \<subseteq> set (bt_keys load) - set inc - {p}" using E(4) x by auto
        show "distinct reps \<longrightarrow> distinct reps'" using E(5) x(2) by simp
        show "r \<le> length reps' + 1 \<or> set (bt_keys load) \<subseteq> set reps' \<union> {p} \<union> set inc" using E(6) by simp
      qed (use E(1,2) in simp_all)
    qed
  qed
qed

lemma fill_replicas_spec:
  assumes "fill_replicas r inc p load reps ch = (reps', ch')" "1 \<le> r" "distinct (p # reps)"
  shows "distinct (p # reps')" "length reps' \<le> r - 1" "set reps' \<subseteq> set reps \<union> (set (bt_keys load) - set inc)"
    "r \<le> length reps' + 1 \<or> set (bt_keys load) \<subseteq> set reps' \<union> {p} \<union> set inc"
    "\<not> ch' \<Longrightarrow> reps' = reps \<and> \<not> ch"
proof -
  obtain reps1 ch1 where t: "top_up r inc p load reps ch = (reps1, ch1)" by fastforce
  obtain ext where e: "reps1 = reps @ ext" "ch1 \<longleftrightarrow> ch \<or> ext \<noteq> []" "length reps1 \<le> max (length reps) (r - 1)"
      "set ext \<subseteq> set (bt_keys load) - set inc - {p}" "distinct reps1"
      "r \<le> length reps1 + 1 \<or> set (bt_keys load) \<subseteq> set reps1 \<union> {p} \<union> set inc"
    using top_up_extends[OF t] assms(3) by auto
  have r: "(reps', ch') = (if r < length reps1 + 1 then (take (r - 1) reps1, True) else (reps1, ch1))"
    using assms(1) t by (simp add: fill_replicas_def)
  have sub: "set reps' \<subseteq> set reps1" using r by (auto dest: in_set_takeD split: if_splits)
  show "distinct (p # reps')"
  proof -
    have "distinct reps'" using r e(5) by (auto split: if_splits)
    moreover have "p \<notin> set reps'" using sub e(1,4) assms(3) by auto
    ultimately show ?thesis by simp
  qed
  show "length reps' \<le> r - 1" using r assms(2) by (auto split: if_splits)
  show "set reps' \<subseteq> set reps \<union> (set (bt_keys load) - set inc)" using sub e(1,4) by auto
  show "r \<le> length reps' + 1 \<or> set (bt_keys load) \<subseteq> set reps' \<union> {p} \<union> set inc"
    using r e(6) assms(2) by (auto split: if_splits)
  show "reps' = reps \<and> \<not> ch" if "\<not> ch'" using r e(1,2) that by (auto split: if_splits)
qed

subsection \<open>Resolving holders\<close>

definition resolve_choice ::
    "registry \<Rightarrow> int \<Rightarrow> string \<Rightarrow> place_unit \<Rightarrow> index_entry \<Rightarrow> nat
       \<Rightarrow> registry_error + (string \<times> string list \<times> load_map \<times> bool)" where
  "resolve_choice reg now n u e ent =
     choose_primary n u (unit_primary e u = None) (if unit_primary e u = None then entitlement_nodes reg now else [])
       ent (holder_load reg now) (prune_dead (live_nodes reg now) (unit_assignment_mut e u))"

lemma resolve_cases:
  obtains (missing) "get_entry reg n = None" "resolve_unit_holders io n u rf ent now reg = (reg, Inl (NotFound n))"
  | (kept) e p where "get_entry reg n = Some e" "placement_grace_active reg now" "unit_primary e u = Some p"
      "resolve_unit_holders io n u rf ent now reg =
         (reg, Inr \<lparr>uh_primary = p, uh_replicas = sa_replicas (unit_assignment_mut e u), uh_changed = False, uh_moved = False\<rparr>)"
  | (no_live) e where "get_entry reg n = Some e" "live_nodes reg now = []"
      "resolve_unit_holders io n u rf ent now reg = (reg, Inl (NoLiveNode n u))"
  | (failed) e err where "get_entry reg n = Some e" "\<not> placement_grace_active reg now \<or> unit_primary e u = None"
      "live_nodes reg now \<noteq> []" "resolve_choice reg now n u e ent = Inl err"
      "resolve_unit_holders io n u rf ent now reg =
         (put_entry n (put_unit u (prune_dead (live_nodes reg now) (unit_assignment_mut e u)) e) reg, Inl err)"
  | (placed) e p reps0 load moved reps ch where "get_entry reg n = Some e"
      "\<not> placement_grace_active reg now \<or> unit_primary e u = None" "live_nodes reg now \<noteq> []"
      "resolve_choice reg now n u e ent = Inr (p, reps0, load, moved)"
      "fill_replicas (max rf 1) (incapable_nodes reg now) p load reps0
         (prune_changes (live_nodes reg now) (unit_assignment_mut e u) \<or> moved) = (reps, ch)"
      "resolve_unit_holders io n u rf ent now reg =
         (if ch then commit io (put_entry n (put_unit u \<lparr>sa_primary = Some p, sa_replicas = reps\<rparr> e) reg)
            \<lparr>uh_primary = p, uh_replicas = reps, uh_changed = ch, uh_moved = moved\<rparr>
          else (put_entry n (put_unit u \<lparr>sa_primary = Some p, sa_replicas = reps\<rparr> e) reg,
            Inr \<lparr>uh_primary = p, uh_replicas = reps, uh_changed = ch, uh_moved = moved\<rparr>))"
proof (cases "get_entry reg n")
  case None
  then show thesis by (intro missing) (simp_all add: resolve_unit_holders_def)
next
  case e: (Some e)
  show thesis
  proof (cases "if placement_grace_active reg now then unit_primary e u else None")
    case (Some p)
    then show thesis using e by (intro kept[of e p]) (simp_all add: resolve_unit_holders_def split: if_splits)
  next
    case nk: None
    then have ng: "\<not> placement_grace_active reg now \<or> unit_primary e u = None" by (simp split: if_splits)
    show thesis
    proof (cases "live_nodes reg now = []")
      case True
      then show thesis using e nk by (intro no_live[of e]) (simp_all add: resolve_unit_holders_def)
    next
      case live: False
      show thesis
      proof (cases "resolve_choice reg now n u e ent")
        case (Inl err)
        then show thesis using e nk live
          by (intro failed[OF e ng live Inl]) (simp add: resolve_unit_holders_def resolve_choice_def Let_def)
      next
        case (Inr q)
        obtain p reps0 load moved where q: "resolve_choice reg now n u e ent = Inr (p, reps0, load, moved)"
          using Inr by (cases q) auto
        obtain reps ch where f: "fill_replicas (max rf 1) (incapable_nodes reg now) p load reps0
            (prune_changes (live_nodes reg now) (unit_assignment_mut e u) \<or> moved) = (reps, ch)" by fastforce
        show thesis using e nk live q f
          by (intro placed[OF e ng live q f]) (simp add: resolve_unit_holders_def resolve_choice_def Let_def)
      qed
    qed
  qed
qed

lemma resolve_unit_ok: "reg_ok reg \<Longrightarrow> reg_ok (fst (resolve_unit_holders io n u rf ent now reg))"
proof (cases rule: resolve_cases[of reg n io u rf ent now])
  case (failed e err)
  assume ok: "reg_ok reg"
  then show ?thesis using failed reg_ok_entry[OF ok failed(1)] by (simp add: reg_ok_put)
next
  case (placed e p reps0 load moved reps ch)
  assume ok: "reg_ok reg"
  then show ?thesis using placed reg_ok_entry[OF ok placed(1)] by (simp add: reg_ok_put Let_def)
qed simp_all

lemma resolve_frame:
  "r_node_pool (fst (resolve_unit_holders io n u rf ent now reg)) = r_node_pool reg"
  "r_replica_capable (fst (resolve_unit_holders io n u rf ent now reg)) = r_replica_capable reg"
  "r_pool_eligible (fst (resolve_unit_holders io n u rf ent now reg)) = r_pool_eligible reg"
  "r_grace_anchor_ms (fst (resolve_unit_holders io n u rf ent now reg)) = r_grace_anchor_ms reg"
  by (cases rule: resolve_cases[of reg n io u rf ent now]; simp add: commit_fst Let_def)+

lemma pool_queries_cong:
  assumes "r_node_pool reg' = r_node_pool reg" "r_grace_anchor_ms reg' = r_grace_anchor_ms reg"
  shows "live_nodes reg' now = live_nodes reg now" "placement_grace_active reg' now = placement_grace_active reg now"
    "owner_confidently_dead reg' ep now = owner_confidently_dead reg ep now"
    "owner_tracked_stale reg' ep now = owner_tracked_stale reg ep now"
proof -
  show g: "placement_grace_active reg' now = placement_grace_active reg now" for now
    using assms by (simp add: placement_grace_active_def)
  show "live_nodes reg' now = live_nodes reg now" "owner_confidently_dead reg' ep now = owner_confidently_dead reg ep now"
    "owner_tracked_stale reg' ep now = owner_tracked_stale reg ep now"
    unfolding live_nodes_def owner_confidently_dead_def owner_tracked_stale_def g assms(1) by (rule refl)+
qed

lemma placement_nodes_cong:
  assumes "r_node_pool reg' = r_node_pool reg" "r_pool_eligible reg' = r_pool_eligible reg"
  shows "placement_nodes reg' now = placement_nodes reg now"
  using assms by (simp add: placement_nodes_def)

lemma unit_assignment_mut_of: "get_entry reg n = Some e \<Longrightarrow>
    unit_assignment_mut e u = (case unit_of reg n u of None \<Rightarrow> empty_assignment | Some a \<Rightarrow> a)"
  by (simp add: unit_assignment_mut_def unit_of_def)

definition assignment_ok :: "shard_assignment \<Rightarrow> bool" where
  "assignment_ok a \<longleftrightarrow> distinct (assignment_nodes a)"

lemma assignment_ok_empty [simp]: "assignment_ok empty_assignment"
  by (simp add: assignment_ok_def empty_assignment_def assignment_nodes_def)

lemma assignment_ok_iff:
  "assignment_ok a \<longleftrightarrow> distinct (sa_replicas a) \<and> (\<forall>p. sa_primary a = Some p \<longrightarrow> p \<notin> set (sa_replicas a))"
  by (auto simp: assignment_ok_def assignment_nodes_def split: option.splits)

lemma pick_primary_mem:
  assumes "pick_primary n u fresh pn ent load = Inr p"
  shows "p \<in> set (bt_keys load)" "fresh \<Longrightarrow> ent \<le> length pn \<Longrightarrow> p \<in> set pn"
proof -
  obtain q where q: "pick_least_loaded load [] = Some q"
    using assms by (auto simp: pick_primary_def split: option.splits)
  have "p \<in> set (bt_keys load) \<and> (fresh \<longrightarrow> ent \<le> length pn \<longrightarrow> p \<in> set pn)"
  proof (cases "fresh \<and> ent \<le> length pn \<and> q \<notin> set pn")
    case True
    then have "pick_least_loaded (filter (\<lambda>(ep, _). ep \<in> set pn) load) [] = Some p"
      using assms q by (simp add: pick_primary_def split: option.splits)
    then have "p \<in> set (bt_keys (filter (\<lambda>(ep, _). ep \<in> set pn) load))" by (rule pick_Some(1))
    then show ?thesis by (auto simp: bt_keys_def)
  next
    case False
    then have "p = q" using assms q by (auto simp: pick_primary_def)
    then show ?thesis using False pick_Some(1)[OF q] by blast
  qed
  then show "p \<in> set (bt_keys load)" "fresh \<Longrightarrow> ent \<le> length pn \<Longrightarrow> p \<in> set pn" by blast+
qed

text \<open>What is chosen is live, distinct, and drawn from the live holders and the pool.\<close>

lemma resolve_choice_spec:
  assumes "resolve_choice reg now n u e ent = Inr (p, reps, load, moved)"
    "assignment_ok (unit_assignment_mut e u)"
  shows "p \<in> set (live_nodes reg now)" "distinct (p # reps)" "set reps \<subseteq> set (live_nodes reg now)"
    "set (bt_keys load) = set (placement_nodes reg now)"
    "\<not> moved \<Longrightarrow> unit_primary e u = Some p"
proof -
  let ?a = "prune_dead (live_nodes reg now) (unit_assignment_mut e u)"
  have ok: "assignment_ok ?a" using assms(2) by (auto simp: assignment_ok_iff prune_dead_def split: option.splits if_splits)
  have live: "set (sa_replicas ?a) \<subseteq> set (live_nodes reg now)" "\<And>p. sa_primary ?a = Some p \<Longrightarrow> p \<in> set (live_nodes reg now)"
    by (auto simp: prune_dead_def split: option.splits if_splits)
  note c = assms(1)[unfolded resolve_choice_def choose_primary_def]
  have "p \<in> set (live_nodes reg now) \<and> distinct (p # reps) \<and> set reps \<subseteq> set (live_nodes reg now)
      \<and> set (bt_keys load) = set (placement_nodes reg now) \<and> (\<not> moved \<longrightarrow> sa_primary ?a = Some p)"
  proof (cases "sa_primary ?a")
    case (Some q)
    then show ?thesis using c ok live by (auto simp: assignment_ok_iff holder_load_keys)
  next
    case nop: None
    show ?thesis
    proof (cases "sa_replicas ?a")
      case (Cons q qs)
      then show ?thesis using c nop ok live by (auto simp: assignment_ok_iff holder_load_keys)
    next
      case Nil
      then have pick: "pick_primary n u (unit_primary e u = None)
          (if unit_primary e u = None then entitlement_nodes reg now else []) ent (holder_load reg now) = Inr p"
        and r: "reps = []" "load = bump_load p (holder_load reg now)" "moved"
        using c nop by (auto simp: res_bind_Inr_iff)
      have "p \<in> set (bt_keys (holder_load reg now))" by (rule pick_primary_mem(1)[OF pick])
      then show ?thesis using r placement_live by (auto simp: holder_load_keys)
    qed
  qed
  moreover have "sa_primary ?a = Some p \<Longrightarrow> unit_primary e u = Some p"
    by (auto simp: prune_dead_def unit_primary_def unit_assignment_mut_def empty_assignment_def split: option.splits if_splits)
  ultimately show "p \<in> set (live_nodes reg now)" "distinct (p # reps)" "set reps \<subseteq> set (live_nodes reg now)"
    "set (bt_keys load) = set (placement_nodes reg now)" "\<not> moved \<Longrightarrow> unit_primary e u = Some p"
    by blast+
qed

lemma commit_Inr_core: "commit io reg x = (reg', Inr y) \<Longrightarrow> r_core reg' = r_core reg \<and> y = x"
  using commit_Inr_iff[of io reg x y] persist_Inr(1)[of io reg] commit_fst[of io reg x] by auto

lemma get_entry_core: "r_core reg' = r_core reg \<Longrightarrow> get_entry reg' n = get_entry reg n"
  by (simp add: get_entry_def)

lemma unit_of_core: "r_core reg' = r_core reg \<Longrightarrow> unit_of reg' n u = unit_of reg n u"
  by (simp add: unit_of_def get_entry_def)

text \<open>The result of a resolve that placed something, whether or not a persist was needed.\<close>

lemma resolve_placed_result:
  assumes "res = (if ch then commit io (put_entry n (put_unit u a e) reg) h else (put_entry n (put_unit u a e) reg, Inr h))"
    "res = (reg', Inr h')" "get_entry reg n = Some e"
  shows "h' = h" "r_core reg' = r_core (put_entry n (put_unit u a e) reg)"
    "unit_of reg' m v = (if m = n \<and> v = u then Some a else unit_of reg m v)"
proof -
  show "h' = h" and c: "r_core reg' = r_core (put_entry n (put_unit u a e) reg)"
    using assms(1,2) commit_Inr_core[of io "put_entry n (put_unit u a e) reg" h reg' h']
    by (auto split: if_splits)
  show "unit_of reg' m v = (if m = n \<and> v = u then Some a else unit_of reg m v)"
    unfolding unit_of_core[OF c] by (rule unit_of_put[OF assms(3)])
qed

definition holders_wf :: "registry \<Rightarrow> int \<Rightarrow> nat \<Rightarrow> string \<Rightarrow> string list \<Rightarrow> bool" where
  "holders_wf reg now r p reps \<longleftrightarrow>
     p \<in> set (live_nodes reg now) \<and> distinct (p # reps) \<and> set reps \<subseteq> set (live_nodes reg now) \<and> length reps + 1 \<le> r
     \<and> (length reps + 1 = r \<or>
        (\<forall>ep \<in> set (placement_nodes reg now). ep \<in> set (r_replica_capable reg) \<longrightarrow> ep \<in> set (p # reps)))"

lemma unit_primary_of: "get_entry reg n = Some e \<Longrightarrow> unit_primary e u = Option.bind (unit_of reg n u) sa_primary"
  by (auto simp: unit_primary_def unit_of_def split: option.splits)

lemma assignment_ok_mut:
  assumes "get_entry reg n = Some e" "\<And>a. unit_of reg n u = Some a \<Longrightarrow> assignment_ok a"
  shows "assignment_ok (unit_assignment_mut e u)"
  using assms by (auto simp: unit_assignment_mut_def unit_of_def split: option.splits)

lemma placed_holders_wf:
  assumes ch: "resolve_choice reg now n u e ent = Inr (p, reps0, load, moved)"
    and fl: "fill_replicas (max rf 1) (incapable_nodes reg now) p load reps0 c = (reps, ch)"
    and ok: "assignment_ok (unit_assignment_mut e u)"
  shows "holders_wf reg now (max rf 1) p reps"
proof -
  note cs = resolve_choice_spec[OF ch ok]
  note fs = fill_replicas_spec[OF fl max.cobounded2 cs(2)]
  have "length reps + 1 \<le> max rf 1" using fs(2) by linarith
  moreover have "set reps \<subseteq> set (live_nodes reg now)" using fs(3) cs(3,4) placement_live by fastforce
  moreover have "ep \<in> set (p # reps)"
    if "length reps + 1 \<noteq> max rf 1" "ep \<in> set (placement_nodes reg now)" "ep \<in> set (r_replica_capable reg)" for ep
  proof -
    have "set (placement_nodes reg now) \<subseteq> set reps \<union> {p} \<union> set (incapable_nodes reg now)"
      using fs(4) that(1) \<open>length reps + 1 \<le> max rf 1\<close> unfolding cs(4) by (metis le_antisym)
    moreover have "ep \<notin> set (incapable_nodes reg now)" using that(3) by (simp add: incapable_nodes_def)
    ultimately show ?thesis using that(2) by auto
  qed
  ultimately show ?thesis using cs(1) fs(1) unfolding holders_wf_def by auto
qed

lemma resolve_result:
  assumes res: "resolve_unit_holders io n u rf ent now reg = (reg', Inr h)"
    and ok: "\<And>a. unit_of reg n u = Some a \<Longrightarrow> assignment_ok a"
    and ng: "\<not> placement_grace_active reg now \<or> Option.bind (unit_of reg n u) sa_primary = None"
  shows "holders_wf reg now (max rf 1) (uh_primary h) (uh_replicas h) \<and>
    unit_of reg' m v = (if m = n \<and> v = u then Some \<lparr>sa_primary = Some (uh_primary h), sa_replicas = uh_replicas h\<rparr>
       else unit_of reg m v)"
proof (cases rule: resolve_cases[of reg n io u rf ent now])
  case (kept e p)
  then show ?thesis using ng unit_primary_of[OF kept(1), of u] by auto
next
  case (placed e p reps0 load moved reps ch)
  note r = resolve_placed_result[OF placed(6) res placed(1)]
  show ?thesis
    using placed_holders_wf[OF placed(4,5) assignment_ok_mut[OF placed(1) ok]] r(1) r(3)[of m v] by simp
qed (use res in auto)

text \<open>A second resolve at the same time finds nothing to do.\<close>

lemma prune_live: "p \<in> set live \<Longrightarrow> set reps \<subseteq> set live \<Longrightarrow>
    prune_dead live \<lparr>sa_primary = Some p, sa_replicas = reps\<rparr> = \<lparr>sa_primary = Some p, sa_replicas = reps\<rparr>"
  by (auto simp: prune_dead_def intro!: filter_True)

lemma top_up_full:
  "r \<le> length reps + 1 \<or> set (bt_keys load) \<subseteq> set (reps @ [p] @ inc) \<Longrightarrow> top_up r inc p load reps ch = (reps, ch)"
  unfolding pick_None[symmetric] by (auto simp: top_up.simps[of r inc p load reps])

lemma resolve_settled:
  assumes e: "get_entry reg n = Some e" "unit_assignment e u = Some \<lparr>sa_primary = Some p, sa_replicas = reps\<rparr>"
    and ok: "reg_ok reg" and wf: "holders_wf reg now (max rf 1) p reps"
  shows "resolve_unit_holders io n u rf ent now reg =
    (reg, Inr \<lparr>uh_primary = p, uh_replicas = reps, uh_changed = False, uh_moved = False\<rparr>)"
proof -
  let ?a = "\<lparr>sa_primary = Some p, sa_replicas = reps\<rparr>" and ?live = "live_nodes reg now"
  have mut: "unit_assignment_mut e u = ?a" and prim: "unit_primary e u = Some p"
    using e(2) by (simp_all add: unit_assignment_mut_def unit_primary_def)
  have live: "p \<in> set ?live" "set reps \<subseteq> set ?live" "?live \<noteq> []" using wf by (auto simp: holders_wf_def)
  note pr = prune_live[OF live(1,2)]
  have nch: "\<not> prune_changes ?live ?a" using live(1) pr by (simp add: prune_changes_def)
  have full: "max rf 1 \<le> length reps + 1 \<or>
      set (bt_keys (holder_load reg now)) \<subseteq> set (reps @ [p] @ incapable_nodes reg now)"
    using wf placement_live[of reg now]
    by (auto simp: holders_wf_def holder_load_keys incapable_nodes_def)
  have fill: "fill_replicas (max rf 1) (incapable_nodes reg now) p (holder_load reg now) reps False = (reps, False)"
  proof -
    have "\<not> max rf 1 < length reps + 1" using wf unfolding holders_wf_def not_less by blast
    then show ?thesis using top_up_full[OF full] by (simp add: fill_replicas_def)
  qed
  have put: "put_entry n (put_unit u ?a e) reg = reg"
    using put_unit_same[OF reg_ok_entry[OF ok e(1)] e(2)] put_entry_same[OF ok e(1)] by simp
  show ?thesis
    using e(1) mut prim pr nch fill put live(3)
    by (simp add: resolve_unit_holders_def choose_primary_def Let_def)
qed

lemma reg_resolve_ok:
  "reg_ok reg \<Longrightarrow> resolve_unit_holders io n u rf ent now reg = (reg', r) \<Longrightarrow> reg_ok reg'"
  using resolve_unit_ok[of reg io n u rf ent now] by simp

lemma resolve_pool_frame:
  assumes "resolve_unit_holders io n u rf ent now reg = (reg', r)"
  shows "live_nodes reg' now' = live_nodes reg now'" "placement_grace_active reg' now' = placement_grace_active reg now'"
    "owner_confidently_dead reg' ep now' = owner_confidently_dead reg ep now'"
    "owner_tracked_stale reg' ep now' = owner_tracked_stale reg ep now'"
    "placement_nodes reg' now' = placement_nodes reg now'" "r_replica_capable reg' = r_replica_capable reg"
  using resolve_frame[of io n u rf ent now reg] assms pool_queries_cong[of reg' reg] placement_nodes_cong[of reg' reg]
  by auto

lemma holders_wf_cong:
  "live_nodes reg' now = live_nodes reg now \<Longrightarrow> placement_nodes reg' now = placement_nodes reg now
     \<Longrightarrow> r_replica_capable reg' = r_replica_capable reg \<Longrightarrow> holders_wf reg' now r p reps = holders_wf reg now r p reps"
  by (simp add: holders_wf_def)

lemma unit_of_Some: "unit_of reg n u = Some a \<longleftrightarrow> (\<exists>e. get_entry reg n = Some e \<and> unit_assignment e u = Some a)"
  by (auto simp: unit_of_def bind_eq_Some_conv)

lemma resolve_idempotent_lemma:
  assumes ok: "reg_ok reg" and res: "resolve_unit_holders io n u rf ent now reg = (reg', Inr h)"
    and aok: "\<And>a. unit_of reg n u = Some a \<Longrightarrow> assignment_ok a"
  shows "resolve_unit_holders io' n u rf ent' now reg' = (reg', Inr (h\<lparr>uh_changed := False, uh_moved := False\<rparr>))"
proof (cases "placement_grace_active reg now \<and> Option.bind (unit_of reg n u) sa_primary \<noteq> None")
  case True
  then obtain a p where a: "unit_of reg n u = Some a" "sa_primary a = Some p" by (auto simp: bind_eq_Some_conv)
  then obtain e where e: "get_entry reg n = Some e" "unit_assignment e u = Some a" by (auto simp: unit_of_Some)
  have "resolve_unit_holders io'' n u rf ent'' now reg =
      (reg, Inr \<lparr>uh_primary = p, uh_replicas = sa_replicas a, uh_changed = False, uh_moved = False\<rparr>)" for io'' ent''
    using True a e by (simp add: resolve_unit_holders_def unit_primary_def unit_assignment_mut_def)
  then show ?thesis using res by auto
next
  case False
  then have ng: "\<not> placement_grace_active reg now \<or> Option.bind (unit_of reg n u) sa_primary = None" by blast
  note r = resolve_result[OF res aok ng]
  note fr = resolve_pool_frame[OF res]
  have wf: "holders_wf reg' now (max rf 1) (uh_primary h) (uh_replicas h)"
    using r holders_wf_cong[OF fr(1,5,6)] by blast
  have "unit_of reg' n u = Some \<lparr>sa_primary = Some (uh_primary h), sa_replicas = uh_replicas h\<rparr>"
    using r[of n u] by simp
  then show ?thesis
    using resolve_settled[OF _ _ reg_resolve_ok[OF ok res] wf] by (auto simp: unit_of_Some)
qed

subsection \<open>The dead-owner sweep\<close>

lemma dead_units_mem:
  assumes ok: "reg_ok reg"
  shows "(n, u) \<in> set (dead_primary_units reg now) \<longleftrightarrow>
    \<not> placement_grace_active reg now \<and> (\<exists>a. unit_of reg n u = Some a \<and> primary_dead reg now a)"
proof -
  have bt: "bt_ok (c_indexes (r_core reg))" using ok by (simp add: reg_ok_def core_okD)
  have e: "bt_ok (ie_shards e)" "bt_ok (ie_windows e)" if "(n, e) \<in> set (c_indexes (r_core reg))" for n e
    using reg_ok_entry[OF ok, of n e] that bt by (simp_all add: get_entry_def bt_mem_get entry_okD)
  have "(n, u) \<in> set (dead_primary_units reg now) \<longleftrightarrow> \<not> placement_grace_active reg now \<and>
      (\<exists>e. (n, e) \<in> set (c_indexes (r_core reg)) \<and>
        ((\<exists>k a. u = ShardUnit k \<and> (k, a) \<in> set (ie_shards e) \<and> primary_dead reg now a) \<or>
         (\<exists>w wa. u = WindowUnit w \<and> (w, wa) \<in> set (ie_windows e) \<and> primary_dead reg now (wa_assignment wa))))"
    by (force simp: dead_primary_units_def)
  also have "\<dots> \<longleftrightarrow> \<not> placement_grace_active reg now \<and>
      (\<exists>e. (n, e) \<in> set (c_indexes (r_core reg)) \<and> (\<exists>a. unit_assignment e u = Some a \<and> primary_dead reg now a))"
    using e by (cases u) (fastforce simp: unit_assignment_def bt_mem_get)+
  also have "\<dots> \<longleftrightarrow> \<not> placement_grace_active reg now \<and> (\<exists>a. unit_of reg n u = Some a \<and> primary_dead reg now a)"
    using bt by (auto simp: unit_of_Some get_entry_def bt_mem_get)
  finally show ?thesis .
qed

lemma live_not_dead: "bt_ok (r_node_pool reg) \<Longrightarrow> p \<in> set (live_nodes reg now) \<Longrightarrow> \<not> owner_confidently_dead reg p now"
  by (auto simp: live_nodes_def owner_confidently_dead_def bt_mem_get split: option.splits)

lemma dead_not_live: "bt_ok (r_node_pool reg) \<Longrightarrow> owner_confidently_dead reg p now \<Longrightarrow> p \<notin> set (live_nodes reg now)"
  using live_not_dead by blast

lemma commit_Persisted:
  "io_persist io = Persisted \<Longrightarrow> \<not> r_rollback_failed reg \<Longrightarrow>
     commit io reg x = (notify_if_placement_changed io (reg\<lparr>r_store := r_core reg\<rparr>), Inr x)"
  by (simp add: commit_def persist_snapshot_def)

text \<open>Re-placing a unit that has a primary never fails while the pool has a live node and writes succeed.\<close>

lemma resolve_replaces:
  assumes ok: "reg_ok reg" and io: "io_persist io = Persisted" "\<not> r_rollback_failed reg"
    and a: "unit_of reg n u = Some a" "sa_primary a \<noteq> None" and pool: "placement_nodes reg now \<noteq> []"
  shows "\<exists>reg' h. resolve_unit_holders io n u rf ent now reg = (reg', Inr h) \<and> \<not> r_rollback_failed reg'"
proof (cases rule: resolve_cases[of reg n io u rf ent now])
  case missing
  then show ?thesis using a(1) by (simp add: unit_of_Some)
next
  case (kept e p)
  then show ?thesis using io(2) by simp
next
  case (no_live e)
  then show ?thesis using pool placement_live[of reg now] by (cases "placement_nodes reg now") auto
next
  case (failed e err)
  have "unit_primary e u \<noteq> None" using a failed(1) unit_primary_of[OF failed(1), of u] by simp
  moreover obtain q where "pick_least_loaded (holder_load reg now) [] = Some q"
    using pool pick_None[of "holder_load reg now" "[]"] holder_load_keys[of reg now]
    by (cases "pick_least_loaded (holder_load reg now) []") auto
  ultimately show ?thesis using failed(4)
    by (auto simp: resolve_choice_def choose_primary_def pick_primary_def split: option.splits list.splits)
next
  case (placed e p reps0 load moved reps ch)
  then show ?thesis using io by (cases ch) (simp_all add: commit_Persisted)
qed


lemma resolve_clears_dead:
  assumes ok: "reg_ok reg" and res: "resolve_unit_holders io n u rf ent now reg = (reg', Inr h)"
    and a: "unit_of reg n u = Some a" "assignment_ok a" and ng: "\<not> placement_grace_active reg now"
  shows "set (dead_primary_units reg' now) = set (dead_primary_units reg now) - {(n, u)}"
    "\<And>m v b. unit_of reg' m v = Some b \<Longrightarrow> (m, v) \<noteq> (n, u) \<Longrightarrow> unit_of reg m v = Some b"
    "unit_of reg' n u = Some \<lparr>sa_primary = Some (uh_primary h), sa_replicas = uh_replicas h\<rparr>"
    "assignment_ok \<lparr>sa_primary = Some (uh_primary h), sa_replicas = uh_replicas h\<rparr>"
proof -
  have aok: "\<And>b. unit_of reg n u = Some b \<Longrightarrow> assignment_ok b" using a by simp
  note r = resolve_result[OF res aok, OF _ disjI1[OF ng]]
  note fr = resolve_pool_frame[OF res]
  note ok' = reg_resolve_ok[OF ok res]
  have wf: "holders_wf reg now (max rf 1) (uh_primary h) (uh_replicas h)" using r by blast
  have "\<not> owner_confidently_dead reg (uh_primary h) now"
    using wf ok live_not_dead[of reg] by (auto simp: holders_wf_def reg_ok_def pool_ok_def)
  moreover have pd: "primary_dead reg' now b = primary_dead reg now b" for b
    using fr(3) by (simp add: primary_dead_def split: option.splits)
  ultimately have "((m, v) \<in> set (dead_primary_units reg' now)) =
      ((m, v) \<in> set (dead_primary_units reg now) - {(n, u)})" for m v
    using r[of m v] ng fr(2) a by (auto simp: dead_units_mem[OF ok'] dead_units_mem[OF ok] primary_dead_def)
  then show "set (dead_primary_units reg' now) = set (dead_primary_units reg now) - {(n, u)}" by auto
  show "unit_of reg m v = Some b" if "unit_of reg' m v = Some b" "(m, v) \<noteq> (n, u)" for m v b
    using r[of m v] that by auto
  show "unit_of reg' n u = Some \<lparr>sa_primary = Some (uh_primary h), sa_replicas = uh_replicas h\<rparr>" using r[of n u] by simp
  show "assignment_ok \<lparr>sa_primary = Some (uh_primary h), sa_replicas = uh_replicas h\<rparr>"
    using wf by (simp add: holders_wf_def assignment_ok_iff)
qed

definition units_ok :: "registry \<Rightarrow> bool" where
  "units_ok reg \<longleftrightarrow> (\<forall>n u a. unit_of reg n u = Some a \<longrightarrow> assignment_ok a)"

lemma resolve_units_ok:
  assumes ok: "reg_ok reg" and u: "units_ok reg" and res: "resolve_unit_holders io n u' rf ent now reg = (reg', Inr h)"
  shows "units_ok reg'"
proof (cases "placement_grace_active reg now \<and> Option.bind (unit_of reg n u') sa_primary \<noteq> None")
  case True
  then have "reg' = reg"
    using res by (cases rule: resolve_cases[of reg n io u' rf ent now]) (auto simp: unit_primary_of)
  then show ?thesis using u by simp
next
  case False
  then have ng: "\<not> placement_grace_active reg now \<or> Option.bind (unit_of reg n u') sa_primary = None" by blast
  have aok: "\<And>b. unit_of reg n u' = Some b \<Longrightarrow> assignment_ok b" using u by (simp add: units_ok_def)
  note r = resolve_result[OF res aok ng]
  have "assignment_ok \<lparr>sa_primary = Some (uh_primary h), sa_replicas = uh_replicas h\<rparr>"
    using r by (simp add: holders_wf_def assignment_ok_iff)
  then show ?thesis using u r unfolding units_ok_def by (metis option.inject)
qed

lemma drive_clears_dead:
  assumes "reg_ok reg" "units_ok reg" "\<And>k. io_persist (ios k) = Persisted" "\<not> r_rollback_failed reg"
    "\<not> placement_grace_active reg now" "placement_nodes reg now \<noteq> []"
    "set (dead_primary_units reg now) \<subseteq> set us" "\<And>n u. (n, u) \<in> set us \<Longrightarrow> \<exists>a. unit_of reg n u = Some a \<and> sa_primary a \<noteq> None"
  shows "\<exists>reg' k. drive_units cnt ios rf ent now us c reg = (reg', Inr k) \<and> dead_primary_units reg' now = []
    \<and> units_ok reg'"
  using assms
proof (induction us arbitrary: reg c)
  case Nil
  then show ?case by simp
next
  case (Cons p us)
  obtain n u where p: "p = (n, u)" by fastforce
  obtain a where a: "unit_of reg n u = Some a" "sa_primary a \<noteq> None" using Cons.prems(8)[of n u] p by auto
  obtain reg1 h where r: "resolve_unit_holders (ios (length us)) n u rf ent now reg = (reg1, Inr h)"
    and rb: "\<not> r_rollback_failed reg1"
    using resolve_replaces[OF Cons.prems(1) Cons.prems(3) Cons.prems(4) a Cons.prems(6)] by blast
  note fr = resolve_pool_frame[OF r]
  have aok: "assignment_ok a" using Cons.prems(2) a(1) by (simp add: units_ok_def)
  note cl = resolve_clears_dead[OF Cons.prems(1) r a(1) aok Cons.prems(5)]
  have rest: "\<exists>b. unit_of reg1 m v = Some b \<and> sa_primary b \<noteq> None" if mem: "(m, v) \<in> set us" for m v
  proof (cases "(m, v) = (n, u)")
    case True
    then show ?thesis using cl(3) by simp
  next
    case False
    obtain b where "unit_of reg m v = Some b" "sa_primary b \<noteq> None" using Cons.prems(8)[of m v] mem by auto
    moreover have "unit_of reg1 m v = unit_of reg m v"
      using resolve_result[OF r _ disjI1[OF Cons.prems(5)], of m v] aok a(1) False by auto
    ultimately show ?thesis by simp
  qed
  have sub: "set (dead_primary_units reg1 now) \<subseteq> set us" using cl(1) Cons.prems(7) p by auto
  have ng: "\<not> placement_grace_active reg1 now" "placement_nodes reg1 now \<noteq> []" using Cons.prems(5,6) fr(2,5) by simp_all
  note ih = Cons.IH[OF reg_resolve_ok[OF Cons.prems(1) r] resolve_units_ok[OF Cons.prems(1,2) r] Cons.prems(3) rb ng sub rest]
  have "\<exists>reg' k. drive_units cnt ios rf ent now us (if cnt h then c + 1 else c) reg1 = (reg', Inr k)
      \<and> dead_primary_units reg' now = [] \<and> units_ok reg'"
    by (rule ih)
  then show ?case using r p by simp
qed

subsection \<open>Entitlement\<close>

lemma entitlement_nodes_set:
  "reg_ok reg \<Longrightarrow> set (entitlement_nodes reg now) =
     {p. \<not> owner_tracked_stale reg p now \<and> (\<exists>n u a. unit_of reg n u = Some a \<and> sa_primary a = Some p)}"
proof -
  assume ok: "reg_ok reg"
  have mf: "set (List.map_filter sa_primary as) = {p. \<exists>a \<in> set as. sa_primary a = Some p}" for as
    by (force simp: List.map_filter_def)
  show ?thesis unfolding entitlement_nodes_def set_bs_of_list set_filter mf
    using all_assignments_mem[OF ok] by blast
qed

lemma entitlement_nodes_length: "length (entitlement_nodes reg now) = card (set (entitlement_nodes reg now))"
  by (simp add: entitlement_nodes_def bs_ok_length)

lemma resolve_entitlement:
  assumes ok: "reg_ok reg" and res: "resolve_unit_holders io n u rf ent now reg = (reg', Inr h)"
    and fresh: "Option.bind (unit_of reg n u) sa_primary = None"
    and norep: "\<And>a. unit_of reg n u = Some a \<Longrightarrow> assignment_ok a \<and> set (sa_replicas a) \<inter> set (live_nodes reg now) = {}"
  shows "set (entitlement_nodes reg' now) = set (entitlement_nodes reg now) \<union> {uh_primary h}"
    "ent \<le> count_entitlement_nodes reg now \<Longrightarrow> uh_primary h \<in> set (entitlement_nodes reg now)"
proof -
  note r = resolve_result[OF res conjunct1[OF norep] disjI2[OF fresh]]
  note fr = resolve_pool_frame[OF res]
  have "uh_primary h \<in> set (live_nodes reg now)" using r by (simp add: holders_wf_def)
  then have ns: "\<not> owner_tracked_stale reg (uh_primary h) now"
    using ok by (auto simp: owner_tracked_stale_def live_nodes_def reg_ok_def pool_ok_def bt_mem_get split: option.splits)
  have "(\<exists>m v b. unit_of reg' m v = Some b \<and> sa_primary b = Some p) \<longleftrightarrow>
      p = uh_primary h \<or> (\<exists>m v b. unit_of reg m v = Some b \<and> sa_primary b = Some p)" for p
  proof
    assume "\<exists>m v b. unit_of reg' m v = Some b \<and> sa_primary b = Some p"
    then show "p = uh_primary h \<or> (\<exists>m v b. unit_of reg m v = Some b \<and> sa_primary b = Some p)"
      using r by (auto split: if_splits)
  next
    assume *: "p = uh_primary h \<or> (\<exists>m v b. unit_of reg m v = Some b \<and> sa_primary b = Some p)"
    have "unit_of reg' m v = Some b" if "unit_of reg m v = Some b" "sa_primary b = Some p" for m v b
      using r[of m v] fresh that by auto
    then show "\<exists>m v b. unit_of reg' m v = Some b \<and> sa_primary b = Some p"
      using * r[of n u] by fastforce
  qed
  then show "set (entitlement_nodes reg' now) = set (entitlement_nodes reg now) \<union> {uh_primary h}"
    using ns by (auto simp: entitlement_nodes_set[OF ok] entitlement_nodes_set[OF reg_resolve_ok[OF ok res]] fr(4))
  show "uh_primary h \<in> set (entitlement_nodes reg now)" if full: "ent \<le> count_entitlement_nodes reg now"
  proof (cases rule: resolve_cases[of reg n io u rf ent now])
    case (kept e p)
    then show ?thesis using fresh unit_primary_of[OF kept(1), of u] by simp
  next
    case (placed e p reps0 load moved reps ch)
    have h: "uh_primary h = p" using resolve_placed_result(1)[OF placed(6) res placed(1)] by simp
    have prim: "unit_primary e u = None" using fresh unit_primary_of[OF placed(1), of u] by simp
    have "sa_replicas (prune_dead (live_nodes reg now) (unit_assignment_mut e u)) = []"
      "sa_primary (prune_dead (live_nodes reg now) (unit_assignment_mut e u)) = None"
      using norep prim placed(1)
      by (auto simp: prune_dead_def unit_assignment_mut_def unit_primary_def unit_of_def empty_assignment_def
          filter_empty_conv split: option.splits)
    then have "pick_primary n u True (entitlement_nodes reg now) ent (holder_load reg now) = Inr p"
      using placed(4) prim by (auto simp: resolve_choice_def choose_primary_def res_bind_Inr_iff)
    then show ?thesis
      using pick_primary_mem(2) full h by (simp add: count_entitlement_nodes_def)
  qed (use res in auto)
qed

lemma resolve_entitlement_count:
  assumes "reg_ok reg" "resolve_unit_holders io n u rf ent now reg = (reg', Inr h)"
    "Option.bind (unit_of reg n u) sa_primary = None"
    "\<And>a. unit_of reg n u = Some a \<Longrightarrow> assignment_ok a \<and> set (sa_replicas a) \<inter> set (live_nodes reg now) = {}"
  shows "count_entitlement_nodes reg' now \<le> max (count_entitlement_nodes reg now) ent"
proof -
  note e = resolve_entitlement[OF assms]
  have "card (set (entitlement_nodes reg' now)) \<le> card (set (entitlement_nodes reg now)) + 1"
    using card_Un_le[of "set (entitlement_nodes reg now)" "{uh_primary h}"] e(1) by simp
  then show ?thesis
    using e(1,2) by (cases "ent \<le> count_entitlement_nodes reg now")
      (auto simp: count_entitlement_nodes_def entitlement_nodes_length insert_absorb)
qed

subsection \<open>Announces never take a live pool primary\<close>

lemma res_map_zip: "res_map f xs = Inr ys \<Longrightarrow> x \<in> set xs \<Longrightarrow> \<exists>y. (x, y) \<in> set (zip xs ys) \<and> f x = Inr y"
  by (induction xs arbitrary: ys) (auto simp: res_bind_Inr_iff)

lemma fold_claim_shard_get:
  "bt_get (fst (fold (claim_shard node skip) ss mc)) s =
     (if s \<in> set ss \<and> s \<notin> set skip
      then Some (claim node (case bt_get (fst mc) s of None \<Rightarrow> empty_assignment | Some a \<Rightarrow> a))
      else bt_get (fst mc) s)"
proof (induction ss arbitrary: mc)
  case (Cons x ss)
  have cc: "claim node (claim node a) = claim node a" for a by (simp add: claim_def)
  show ?case
    unfolding fold.simps comp_def Cons.IH
    by (auto simp: claim_shard_def Let_def cc split: prod.splits option.splits)
qed simp

lemma announce_primaries_unit:
  assumes ok: "reg_ok reg" and res: "announce_primaries io n ss ep now ent reg = (reg', Inr ())"
    and a: "unit_of reg m v = Some a" "sa_primary a = Some p" "p \<noteq> ep"
    and alive: "\<not> owner_confidently_dead reg p now" "is_pool_eligible reg p"
  shows "unit_of reg' m v = Some a"
proof (cases rule: announce_primaries_cases[of io n ss ep now ent reg])
  case same
  then show ?thesis using res a(1) by simp
next
  case (claimed e cs m' ch)
  let ?skip = "map fst (filter (\<lambda>(_, c). c = ReplicaReport) (zip ss cs))"
  have core: "r_core reg' = r_core (put_entry n (e\<lparr>ie_shards := m'\<rparr>) reg)"
    using claimed(4) res commit_Inr_core[of io "put_entry n (e\<lparr>ie_shards := m'\<rparr>) reg" "()" reg' "()"]
    by (auto split: if_splits)
  have "bt_get m' s = Some a" if s: "bt_get (ie_shards e) s = Some a" for s
  proof -
    have "s \<in> set ?skip" if mem: "s \<in> set ss"
    proof -
      obtain c where "(s, c) \<in> set (zip ss cs)" "classify_unit reg now n ep (ShardUnit s) (Some a) = Inr c"
        using res_map_zip[OF claimed(2) mem] s by auto
      then have "(s, ReplicaReport) \<in> set (zip ss cs)"
        using a(2,3) alive by (auto simp: classify_unit_def split: if_splits)
      then show ?thesis by force
    qed
    then have "\<not> (s \<in> set ss \<and> s \<notin> set ?skip)" by blast
    then show ?thesis
      using fold_claim_shard_get[of ep ?skip ss "(ie_shards e, False)" s] s
      by (simp only: claimed(3) fst_conv if_False)
  qed
  then have "unit_of (put_entry n (e\<lparr>ie_shards := m'\<rparr>) reg) m v = Some a"
    using a(1) claimed(1) by (cases v) (auto simp: unit_of_Some unit_assignment_def)
  then show ?thesis using unit_of_core[OF core] by simp
qed

lemma fold_claim_window_get:
  "s \<in> set skip \<or> s \<notin> wn_window ` set ws \<Longrightarrow>
     bt_get (fst (fold (claim_window_step node skip) ws mc)) s = bt_get (fst mc) s"
proof (induction ws arbitrary: mc)
  case (Cons w ws)
  have "bt_get (fst (claim_window_step node skip w mc)) s = bt_get (fst mc) s"
    using Cons.prems by (auto simp: claim_window_step_def Let_def split: prod.splits)
  moreover have "s \<in> set skip \<or> s \<notin> wn_window ` set ws" using Cons.prems by auto
  ultimately show ?case using Cons.IH[of "claim_window_step node skip w mc"] by simp
qed simp

lemma announce_windows_unit:
  assumes ok: "reg_ok reg" and res: "announce_windows io n ep ws now ent reg = (reg', Inr ())"
    and a: "unit_of reg m v = Some a" "sa_primary a = Some p" "p \<noteq> ep"
    and alive: "\<not> owner_confidently_dead reg p now" "is_pool_eligible reg p"
  shows "unit_of reg' m v = Some a"
proof (cases rule: announce_windows_cases[of io n ep ws now ent reg])
  case same
  then show ?thesis using res a(1) by simp
next
  case (claimed e cs m' ch)
  let ?skip = "map (wn_window \<circ> fst) (filter (\<lambda>(_, c). c = ReplicaReport) (zip ws cs))"
  have core: "r_core reg' = r_core (put_entry n (e\<lparr>ie_windows := m'\<rparr>) reg)"
    using claimed(4) res commit_Inr_core[of io "put_entry n (e\<lparr>ie_windows := m'\<rparr>) reg" "()" reg' "()"]
    by (auto split: if_splits)
  have "bt_get m' s = Some wa" if s: "bt_get (ie_windows e) s = Some wa" "wa_assignment wa = a" for s wa
  proof -
    have "s \<in> set ?skip" if mem: "s \<in> wn_window ` set ws"
    proof -
      obtain w where w: "w \<in> set ws" "wn_window w = s" using mem by auto
      obtain c where "(w, c) \<in> set (zip ws cs)" "classify_unit reg now n ep (WindowUnit s) (Some a) = Inr c"
        using res_map_zip[OF claimed(2) w(1)] s w(2) by auto
      then have "(w, ReplicaReport) \<in> set (zip ws cs)"
        using a(2,3) alive by (auto simp: classify_unit_def split: if_splits)
      then show ?thesis using w(2) by force
    qed
    then have "s \<in> set ?skip \<or> s \<notin> wn_window ` set ws" by blast
    from fold_claim_window_get[OF this, of ep "(ie_windows e, False)"] show ?thesis
      using s(1) by (simp only: claimed(3) fst_conv)
  qed
  then have "unit_of (put_entry n (e\<lparr>ie_windows := m'\<rparr>) reg) m v = Some a"
    using a(1) claimed(1) by (cases v) (auto simp: unit_of_Some unit_assignment_def)
  then show ?thesis using unit_of_core[OF core] by simp
qed

subsection \<open>Compare-and-swap\<close>

text \<open>A cell of an index entry that is replaced only by an operation naming the value it expects.\<close>

locale cas_cell =
  fixes read :: "registry \<Rightarrow> string \<Rightarrow> 'v option"
    and swap :: "backend_io \<Rightarrow> string \<Rightarrow> 'v \<Rightarrow> 'p \<Rightarrow> registry \<Rightarrow> 'r reg_result"
    and advance :: "'v \<Rightarrow> 'p \<Rightarrow> 'v"
  assumes swap_hit: "swap io n v p reg = (reg', Inr x) \<Longrightarrow> read reg n = Some v \<and> read reg' n = Some (advance v p)"
    and swap_miss: "read reg n = Some w \<Longrightarrow> w \<noteq> v \<Longrightarrow> \<exists>c. swap io n v p reg = (reg, Inl (PlacementConflict c))"
begin

lemma second_swap_refused:
  "swap io n v p reg = (reg', Inr x) \<Longrightarrow> advance v p \<noteq> v \<Longrightarrow>
     \<exists>c. swap io' n v q reg' = (reg', Inl (PlacementConflict c))"
  using swap_hit swap_miss by blast

lemma swaps_chain:
  "swap io n v p reg = (reg', Inr x) \<Longrightarrow> swap io' n w q reg' = (reg'', Inr y) \<Longrightarrow> w = advance v p"
  using swap_hit[of io n v p reg reg' x] swap_hit[of io' n w q reg' reg'' y] by simp

end

lemma put_entry_result:
  "commit io (put_entry n e reg) x = (reg', Inr y) \<Longrightarrow> get_entry reg' n = Some e"
  using commit_Inr_core[of io "put_entry n e reg" x reg' y] by (simp add: get_entry_def)

interpretation gen: cas_cell generation set_generation "\<lambda>_ g. g"
  by unfold_locales
    (auto simp: set_generation_def generation_def dest: put_entry_result split: option.splits if_splits)

interpretation defn: cas_cell definition_version set_definition "\<lambda>v _. v + 1"
  by unfold_locales
    (auto simp: set_definition_def definition_version_def dest: put_entry_result split: option.splits if_splits)

interpretation cutover: cas_cell generation
  "\<lambda>io n g (d, g') reg. commit_reindex_cutover io n d g g' reg" "\<lambda>_ (_, g'). g'"
  by unfold_locales
    (auto simp: commit_reindex_cutover_def generation_def dest: put_entry_result split: option.splits if_splits prod.splits)

definition stored_owners :: "registry \<Rightarrow> string \<Rightarrow> nat list option" where
  "stored_owners reg n = map_option ie_bucket_owners (get_entry reg n)"

interpretation buckets: cas_cell stored_owners
  "\<lambda>io n v m reg. set_bucket_map io n (if v = [] then None else Some \<lparr>owners = v\<rparr>) m reg" "\<lambda>_ m. owners m"
  by unfold_locales
    (auto simp: set_bucket_map_def stored_owners_def dest: put_entry_result split: option.splits if_splits)

end
