(* ===== verification/Control_Plane.thy ===== *)
theory Control_Plane
  imports Placement
begin

text \<open>
  The registry as a state machine: one step per operation of the theories \<open>Registry\<close> and \<open>Placement\<close>, with any
  backend answer, and the properties of every reachable registry. A sweep is a run of resolve steps. The flag
  \<open>strict\<close> leaves out the refused promotions and resolves, which change memory without a write.
\<close>

section \<open>The registry as a state machine\<close>

definition leaves_residue :: "registry_error \<Rightarrow> bool" where
  "leaves_residue e \<longleftrightarrow>
     (case e of NoReplica _ _ \<Rightarrow> True | PrimaryStillAssigned _ _ _ \<Rightarrow> True | NoLiveNode _ _ \<Rightarrow> True
      | EntitlementExceeded _ _ \<Rightarrow> True | _ \<Rightarrow> False)"

definition clean :: "bool \<Rightarrow> 'a reg_result \<Rightarrow> bool" where
  "clean strict r \<longleftrightarrow> (strict \<longrightarrow> (case snd r of Inl e \<Rightarrow> \<not> leaves_residue e | Inr _ \<Rightarrow> True))"

definition persisted_ok :: "persisted \<Rightarrow> bool" where
  "persisted_ok s \<longleftrightarrow> core_ok (ps_core s) \<and> jobs_ok (ps_jobs s) \<and> activity_ok (ps_activity s)"

inductive reg_step :: "bool \<Rightarrow> registry \<Rightarrow> registry \<Rightarrow> bool" for strict :: bool where
  step_create: "reg_step strict reg (fst (create io d reg))"
| step_activate: "reg_step strict reg (fst (activate io n reg))"
| step_drop_index: "reg_step strict reg (fst (drop_index io n reg))"
| step_set_alias: "reg_step strict reg (fst (set_alias io a ts reg))"
| step_drop_alias: "reg_step strict reg (fst (drop_alias io a reg))"
| step_save_query: "reg_step strict reg (fst (save_saved_query io t1 t2 q ow reg))"
| step_delete_query: "reg_step strict reg (fst (delete_saved_query io i ow reg))"
| step_roles: "reg_step strict reg (fst (set_user_roles io now s vs reg))"
| step_indexes: "reg_step strict reg (fst (set_user_indexes io now s vs reg))"
| step_create_token: "reg_step strict reg (fst (create_token io now t reg))"
| step_revoke_token: "reg_step strict reg (fst (revoke_token io i reg))"
| step_token_id: "reg_step strict reg (fst (next_token_id now reg))"
| step_set_credential: "reg_step strict reg (fst (set_credential io ar salt s p reg))"
| step_remove_credential: "reg_step strict reg (fst (remove_credential io now s reg))"
| step_revoke_sessions: "reg_step strict reg (fst (revoke_sessions io now s reg))"
| step_activity: "reg_step strict reg (record_activity io now nf ix k m reg)"
| step_create_job: "create_job io now k ix us reg = Some (reg', j) \<Longrightarrow> reg_step strict reg reg'"
| step_mutate_job: "(\<And>j. jb_id (f j) = jb_id j) \<Longrightarrow> reg_step strict reg (fst (mutate_job io now i f reg))"
| step_cancel_job: "reg_step strict reg (fst (request_job_cancel io now i reg))"
| step_reload: "persisted_ok s \<Longrightarrow> reg_step strict reg (fst (reload io s reg))"
| step_with_shard: "reg_step strict reg (fst (with_shard io n k f reg))"
| step_with_window: "reg_step strict reg (fst (with_window io n w g reg))"
| step_assign_primaries: "reg_step strict reg (fst (assign_primaries io n ss node reg))"
| step_promote: "clean strict (promote_replica io n k reg) \<Longrightarrow> reg_step strict reg (fst (promote_replica io n k reg))"
| step_bucket_map: "reg_step strict reg (fst (set_bucket_map io n ex m reg))"
| step_generation: "reg_step strict reg (fst (set_generation io n g g' reg))"
| step_cutover: "reg_step strict reg (fst (commit_reindex_cutover io n df g g' reg))"
| step_definition: "reg_step strict reg (fst (set_definition io n v d reg))"
| step_adopt: "reg_step strict reg (fst (adopt_bucket_map_if_absent io n c reg))"
| step_announce: "reg_step strict reg (fst (announce_primaries io n ss ep now ent reg))"
| step_announce_windows: "reg_step strict reg (fst (announce_windows io n ep ws now ent reg))"
| step_register: "reg_step strict reg (register_node_with_capability ep cap now reg)"
| step_register_capped: "reg_step strict reg (fst (register_node_capped ep now mx reg))"
| step_touch: "reg_step strict reg (touch_node_liveness ep now reg)"
| step_anchor: "reg_step strict reg (set_placement_grace_anchor t reg)"
| step_resolve: "clean strict (resolve_unit_holders io n u rf ent now reg) \<Longrightarrow>
    reg_step strict reg (fst (resolve_unit_holders io n u rf ent now reg))"

inductive reg_reachable :: "bool \<Rightarrow> registry \<Rightarrow> bool" for strict :: bool where
  reach_load: "persisted_ok s \<Longrightarrow> reg_reachable strict (with_backend io s)"
| reach_step: "reg_reachable strict reg \<Longrightarrow> reg_step strict reg reg' \<Longrightarrow> reg_reachable strict reg'"

lemma with_backend_ok: "persisted_ok s \<Longrightarrow> reg_ok (with_backend io s)"
  by (simp add: persisted_ok_def reg_ok_def with_backend_def token_idx_ok_def pool_ok_def jobs_ok_fail bs_ok_def)

lemma reload_ok: "reg_ok reg \<Longrightarrow> persisted_ok s \<Longrightarrow> reg_ok (fst (reload io s reg))"
  by (auto simp: reload_def persisted_ok_def reg_ok_def token_idx_ok_def pool_ok_def jobs_ok_fail split: option.splits)

lemma pool_steps_ok:
  "reg_ok reg \<Longrightarrow> reg_ok (register_node_with_capability ep cap now reg)"
  "reg_ok reg \<Longrightarrow> reg_ok (fst (register_node_capped ep now mx reg))"
  "reg_ok reg \<Longrightarrow> reg_ok (touch_node_liveness ep now reg)"
  "reg_ok reg \<Longrightarrow> reg_ok (set_placement_grace_anchor t reg)"
  "reg_ok reg \<Longrightarrow> reg_ok (fst (next_token_id now reg))"
  by (auto simp: register_node_with_capability_def register_node_capped_def touch_node_liveness_def
      set_placement_grace_anchor_def arm_grace_def next_token_id_def reg_ok_def token_idx_ok_def pool_ok_def)

lemmas step_ok_lemmas = op_ok reload_ok pool_steps_ok with_shard_ok with_window_ok assign_primaries_ok promote_replica_ok
  cas_ok announce_primaries_ok announce_windows_ok resolve_unit_ok

lemma reg_step_ok: "reg_step strict reg reg' \<Longrightarrow> reg_ok reg \<Longrightarrow> reg_ok reg'"
  by (induction rule: reg_step.induct) (simp_all add: step_ok_lemmas)

lemma reachable_ok: "reg_reachable strict reg \<Longrightarrow> reg_ok reg"
  by (induction rule: reg_reachable.induct) (auto simp: with_backend_ok intro: reg_step_ok)

lemma coherent_fields:
  "r_core reg' = r_core reg \<Longrightarrow> r_store reg' = r_store reg \<Longrightarrow> r_rollback_failed reg' = r_rollback_failed reg
     \<Longrightarrow> coherent reg \<Longrightarrow> coherent reg'"
  by (simp add: coherent_def)

lemma revoke_sessions_core [simp]:
  "r_core (fst (revoke_sessions io now s reg)) = r_core reg"
  "r_store (fst (revoke_sessions io now s reg)) = r_store reg"
  "r_rollback_failed (fst (revoke_sessions io now s reg)) = r_rollback_failed reg"
  by (auto simp: revoke_sessions_def Let_def split: persist_answer.splits)

lemma revoke_sessions_coherent: "coherent reg \<Longrightarrow> coherent (fst (revoke_sessions io now s reg))"
  by (rule coherent_fields) simp_all

lemma catalog_coherent:
  "coherent reg \<Longrightarrow> coherent (fst (create io d reg))"
  "coherent reg \<Longrightarrow> coherent (fst (activate io n reg))"
  "coherent reg \<Longrightarrow> coherent (fst (drop_index io n reg))"
  "coherent reg \<Longrightarrow> coherent (fst (set_alias io a ts reg))"
  "coherent reg \<Longrightarrow> coherent (fst (drop_alias io a reg))"
  "coherent reg \<Longrightarrow> coherent (fst (save_saved_query io t1 t2 q ow reg))"
  "coherent reg \<Longrightarrow> coherent (fst (delete_saved_query io i ow reg))"
  "coherent reg \<Longrightarrow> coherent (fst (create_token io now t reg))"
  "coherent reg \<Longrightarrow> coherent (fst (revoke_token io i reg))"
  "coherent reg \<Longrightarrow> coherent (fst (set_credential io ar salt s p reg))"
  "coherent reg \<Longrightarrow> coherent (fst (assign_primaries io n ss node reg))"
  by (auto simp: create_def activate_def drop_index_def set_alias_def drop_alias_def save_saved_query_def Let_def
      delete_saved_query_def create_token_def revoke_token_def set_credential_def assign_primaries_def
      split: option.splits sum.splits)

lemma subject_coherent:
  "coherent reg \<Longrightarrow> coherent (fst (set_user_roles io now s vs reg))"
  "coherent reg \<Longrightarrow> coherent (fst (set_user_indexes io now s vs reg))"
  "coherent reg \<Longrightarrow> coherent (fst (remove_credential io now s reg))"
  by (auto simp: set_user_roles_def set_user_indexes_def remove_credential_def reg_then_fst
      intro!: revoke_sessions_coherent split: sum.splits)

lemma sidecar_coherent:
  "coherent reg \<Longrightarrow> coherent (record_activity io now nf ix k m reg)"
  "coherent reg \<Longrightarrow> create_job io now jk ix us reg = Some (reg', j) \<Longrightarrow> coherent reg'"
  "coherent reg \<Longrightarrow> coherent (fst (mutate_job io now i f reg))"
  "coherent reg \<Longrightarrow> coherent (fst (request_job_cancel io now i reg))"
  "coherent reg \<Longrightarrow> coherent (fst (reload io s reg))"
  "coherent reg \<Longrightarrow> coherent (register_node_with_capability ep cap now reg)"
  "coherent reg \<Longrightarrow> coherent (fst (register_node_capped ep now mx reg))"
  "coherent reg \<Longrightarrow> coherent (touch_node_liveness ep now reg)"
  "coherent reg \<Longrightarrow> coherent (set_placement_grace_anchor t reg)"
  "coherent reg \<Longrightarrow> coherent (fst (next_token_id now reg))"
  by (auto simp: record_activity_def flush_activity_def create_job_def mutate_job_def request_job_cancel_def flush_jobs_def
      reload_def register_node_with_capability_def register_node_capped_def touch_node_liveness_def arm_grace_def
      set_placement_grace_anchor_def next_token_id_def Let_def coherent_def split: option.splits)

lemma promote_coherent:
  "coherent reg \<Longrightarrow> clean True (promote_replica io n k reg) \<Longrightarrow> coherent (fst (promote_replica io n k reg))"
  by (auto simp: promote_replica_def Let_def clean_def leaves_residue_def split: option.splits list.splits)

lemma fill_replicas_same:
  assumes "fill_replicas r inc p load reps c = (reps', False)"
  shows "reps' = reps \<and> \<not> c"
proof -
  obtain reps1 c1 where t: "top_up r inc p load reps c = (reps1, c1)" by fastforce
  then have "reps' = reps1" "\<not> c1" using assms by (auto simp: fill_replicas_def split: if_splits)
  then show ?thesis using top_up_extends[OF t] by auto
qed

lemma prune_unchanged:
  assumes "\<not> prune_changes live a"
  shows "prune_dead live a = a"
  using assms filter_same_length[of "\<lambda>n. n \<in> set live" "sa_replicas a"]
  by (cases "sa_primary a") (simp_all add: prune_changes_def prune_dead_def)

lemma resolve_choice_kept:
  "resolve_choice reg now n u e ent = Inr (p, reps, load, False) \<Longrightarrow>
     \<not> prune_changes (live_nodes reg now) (unit_assignment_mut e u) \<Longrightarrow>
     unit_assignment e u = Some \<lparr>sa_primary = Some p, sa_replicas = reps\<rparr>"
  by (auto simp: resolve_choice_def choose_primary_def prune_unchanged unit_assignment_mut_def empty_assignment_def
      res_bind_Inr_iff split: option.splits list.splits)

lemma resolve_unchanged:
  assumes "reg_ok reg" "get_entry reg n = Some e"
    "resolve_choice reg now n u e ent = Inr (p, reps0, load, moved)"
    "fill_replicas r inc p load reps0 (prune_changes (live_nodes reg now) (unit_assignment_mut e u) \<or> moved) = (reps, False)"
  shows "put_entry n (put_unit u \<lparr>sa_primary = Some p, sa_replicas = reps\<rparr> e) reg = reg"
proof -
  have "reps = reps0" "\<not> moved" "\<not> prune_changes (live_nodes reg now) (unit_assignment_mut e u)"
    using fill_replicas_same[OF assms(4)] by auto
  then have "unit_assignment e u = Some \<lparr>sa_primary = Some p, sa_replicas = reps\<rparr>"
    using resolve_choice_kept assms(3) by auto
  then show ?thesis
    using put_unit_same[OF reg_ok_entry[OF assms(1,2)]] put_entry_same[OF assms(1,2)] by simp
qed

lemma choice_error: "resolve_choice reg now n u e ent = Inl err \<Longrightarrow> leaves_residue err"
  by (auto simp: resolve_choice_def choose_primary_def pick_primary_def leaves_residue_def res_bind_def
      split: option.splits list.splits if_splits sum.splits)

lemma resolve_coherent:
  assumes "reg_ok reg" "coherent reg" "clean True (resolve_unit_holders io n u rf ent now reg)"
  shows "coherent (fst (resolve_unit_holders io n u rf ent now reg))"
proof (cases rule: resolve_cases[of reg n io u rf ent now])
  case (failed e err)
  then show ?thesis using choice_error[OF failed(4)] assms(3) by (simp add: clean_def)
next
  case (placed e p reps0 load moved reps ch)
  show ?thesis
  proof (cases ch)
    case False
    then show ?thesis using resolve_unchanged[OF assms(1) placed(1,4)] placed(5,6) assms(2) by simp
  qed (use placed(6) in simp)
qed (use assms(2) in simp_all)

lemmas step_coherent_lemmas = catalog_coherent subject_coherent sidecar_coherent revoke_sessions_coherent
  with_coherent cas_coherent announce_primaries_coherent announce_windows_coherent promote_coherent resolve_coherent

lemma reg_step_coherent: "reg_step True reg reg' \<Longrightarrow> reg_ok reg \<Longrightarrow> coherent reg \<Longrightarrow> coherent reg'"
  by (induction rule: reg_step.induct) (simp_all add: step_coherent_lemmas)

lemma reachable_coherent: "reg_reachable True reg \<Longrightarrow> coherent reg"
proof (induction rule: reg_reachable.induct)
  case (reach_load s io)
  then show ?case by (simp add: coherent_def with_backend_def)
next
  case (reach_step reg reg')
  then show ?case using reg_step_coherent reachable_ok by blast
qed

subsection \<open>A small catalog for the witnesses\<close>

definition ok_io :: backend_io where
  "ok_io = \<lparr>io_persist = Persisted, io_load = None, io_sidecar = Persisted, io_hash = (\<lambda>rows. of_nat (length rows))\<rparr>"

definition down_io :: backend_io where
  "down_io = ok_io\<lparr>io_persist := Refused (Backend ''disk full'')\<rparr>"

definition empty_persisted :: persisted where
  "empty_persisted = \<lparr>ps_core = empty_core, ps_activity = [], ps_session_epochs = [], ps_jobs = []\<rparr>"

definition demo_index :: "string \<Rightarrow> resolved_index" where
  "demo_index n = \<lparr>ri_name = n, ri_source = Iceberg \<lparr>is_catalog = ''lake'', is_table = ''t'', is_scan = Changelog\<rparr>,
     ri_key = \<lparr>rk_partition_fields = [], rk_identifier_fields = [''id'']\<rparr>, ri_fields = [],
     ri_equality_deletes = NoEqualityDeletes, ri_warnings = [], ri_shard_count = 2, ri_tenant_field = None,
     ri_windowing = None\<rparr>"

definition demo_registry :: registry where
  "demo_registry = fst (create ok_io (demo_index ''docs'') (with_backend ok_io empty_persisted))"

lemma empty_persisted_ok: "persisted_ok empty_persisted"
  by (simp add: persisted_ok_def empty_persisted_def empty_core_def core_ok_def aliases_ok_def jobs_ok_def activity_ok_def)

lemma demo_reachable: "reg_reachable strict demo_registry"
  unfolding demo_registry_def by (rule reach_step[OF reach_load[OF empty_persisted_ok] step_create])

lemma demo_step: "reg_step strict demo_registry reg \<Longrightarrow> reg_reachable strict reg"
  by (rule reach_step[OF demo_reachable])

section \<open>Properties\<close>





text \<open>C23. A name never resolves to an index that is not registered: alias targets are pruned when an index is dropped
  and checked when an alias is set, in every reachable state.\<close>

theorem resolve_only_registered:
  assumes "reg_reachable strict reg"
  shows "set (resolve_name reg name) \<subseteq> set (bt_keys (c_indexes (r_core reg)))"
  using resolve_name_registered[OF reachable_ok[OF assms]] by (auto simp: bt_keys_get)

theorem resolve_only_registered_witness:
  "set (resolve_name demo_registry ''do*'') \<subseteq> set (bt_keys (c_indexes (r_core demo_registry)))
   \<and> resolve_name demo_registry ''do*'' = [''docs'']"
proof -
  have "resolve_name demo_registry ''do*'' = [''docs'']" by code_simp
  then show ?thesis using resolve_only_registered[OF demo_reachable[of True], of "''do*''"] by blast
qed

text \<open>C27. An index may be created under a name that is already an alias, although an alias may not be set to the name
  of an index; the alias then shadows it, and its own name resolves to the alias's members.\<close>

theorem index_shadowed_by_alias:
  assumes "alias_targets reg (ri_name d) = Some ts" "\<not> bt_contains (c_indexes (r_core reg)) (ri_name d)"
    "validate_index_name (ri_name d) = Inr ()" "io_persist io = Persisted" "\<not> r_rollback_failed reg"
  shows "\<exists>reg'. create io d reg = (reg', Inr ()) \<and> get_entry reg' (ri_name d) = Some (new_entry d)
    \<and> resolve_name reg' (ri_name d) = ts"
  using assms by (simp add: create_def commit_Persisted get_entry_def resolve_name_def alias_targets_def)

theorem index_shadowed_by_alias_witness:
  "\<exists>reg'. create ok_io (demo_index ''all'') (fst (set_alias ok_io ''all'' [''docs''] demo_registry)) = (reg', Inr ())
     \<and> resolve_name reg' ''all'' = [''docs'']"
proof -
  let ?r = "fst (set_alias ok_io ''all'' [''docs''] demo_registry)"
  have "alias_targets ?r ''all'' = Some [''docs'']" "\<not> bt_contains (c_indexes (r_core ?r)) ''all''"
    "validate_index_name ''all'' = Inr ()" "\<not> r_rollback_failed ?r"
    by code_simp+
  then show ?thesis
    using index_shadowed_by_alias[of ?r "demo_index ''all''" "[''docs'']" ok_io] by (auto simp: demo_index_def ok_io_def)
qed

text \<open>C24. A token authenticates exactly while it is stored, its hash matches and it has not expired, in every reachable
  state whose stored hashes are distinct: the derived index never hides a stored token and never serves a revoked
  one.\<close>

theorem find_token_exact:
  assumes "reg_reachable strict reg" "distinct_hashes (c_tokens (r_core reg))"
  shows "find_token reg now h = Some t \<longleftrightarrow>
    (\<exists>i. bt_get (c_tokens (r_core reg)) i = Some t \<and> tk_hash t = h \<and> \<not> is_expired t now)"
  by (rule find_token_iff[OF reachable_ok[OF assms(1)] assms(2)])

definition demo_token :: api_token where
  "demo_token = \<lparr>tk_id = ''tok-1'', tk_label = ''ci'', tk_prefix = ''gdb'', tk_hash = ''h1'', tk_roles = [''reader''],
     tk_owner = ''ann'', tk_created_at_ms = 5, tk_expires_at_ms = Some 100\<rparr>"

theorem find_token_exact_witness:
  "find_token (fst (create_token ok_io 5 demo_token demo_registry)) 50 ''h1'' = Some demo_token
   \<and> find_token (fst (create_token ok_io 5 demo_token demo_registry)) 100 ''h1'' \<noteq> Some demo_token"
proof -
  let ?r = "fst (create_token ok_io 5 demo_token demo_registry)"
  have tk: "c_tokens (r_core ?r) = [(''tok-1'', demo_token)]" by code_simp
  have "distinct_hashes (c_tokens (r_core ?r))" unfolding tk by (simp add: distinct_hashes_def bt_get_def)
  note ex = find_token_exact[OF demo_step[of True, OF step_create_token[of True demo_registry ok_io 5 demo_token]] this]
  show ?thesis unfolding ex tk by (simp add: bt_get_def demo_token_def is_expired_def)
qed

text \<open>C25. Creating a job always returns: in every reachable state the pruning loop ends. It keeps every running job,
  removes only finished jobs that are no newer than every finished job it keeps, never shrinks below the cap, and
  ends at or below the cap unless only running jobs remain.\<close>

theorem create_job_returns:
  assumes "reg_reachable strict reg"
  shows "\<exists>reg'. create_job io now kind index units reg = Some (reg', new_job now (r_next_job reg) kind index units)
    \<and> pruned_to (bt_insert (job_id_of now (r_next_job reg)) (new_job now (r_next_job reg) kind index units) (r_jobs reg))
        (r_jobs reg')"
proof -
  let ?j = "new_job now (r_next_job reg) kind index units"
  have id: "jb_id ?j = job_id_of now (r_next_job reg)" by (simp add: new_job_def)
  have "jobs_ok (bt_insert (jb_id ?j) ?j (r_jobs reg))"
    using jobs_ok_insert reg_ok_jobsD[OF reachable_ok[OF assms]] by blast
  from prune_jobs_prunes[OF this] show ?thesis
    by (auto simp: create_job_def Let_def flush_jobs_def id)
qed

theorem create_job_returns_witness:
  "\<exists>reg'. create_job ok_io 7 ReindexKind ''docs'' [(0, 0, ''n1'')] demo_registry
     = Some (reg', new_job 7 (r_next_job demo_registry) ReindexKind ''docs'' [(0, 0, ''n1'')])"
  using create_job_returns[OF demo_reachable[of True], of ok_io 7 ReindexKind "''docs''" "[(0, 0, ''n1'')]"] by blast

text \<open>C28. A refused promotion is not free of effect: asked to promote a shard that does not exist, the registry reports
  that it has no replica but keeps the empty shard in memory, unknown to the store, so an index that routes by its
  shard count now plans over one shard more.\<close>

theorem promote_refusal_adds_shard:
  assumes "get_entry reg n = Some e" "bt_get (ie_shards e) k = None" "ie_bucket_owners e = []"
  shows "\<exists>reg'. promote_replica io n k reg = (reg', Inl (NoReplica n k)) \<and> r_store reg' = r_store reg
    \<and> shard_map reg' n = Some (bt_insert k empty_assignment (ie_shards e))
    \<and> current_bucket_map reg' n = Inr (balanced (length (ie_shards e) + 1))"
proof -
  have "length (bt_insert k v m) = length m + 1" if "bt_get m k = None" for v and m :: "(nat, shard_assignment) btree"
    using that by (induction m) (auto simp: bt_get_def split: if_splits)
  then show ?thesis
    using assms by (simp add: promote_replica_def empty_assignment_def Let_def shard_map_def current_bucket_map_def)
qed

theorem promote_refusal_adds_shard_witness:
  "\<exists>reg'. promote_replica ok_io ''docs'' 7 demo_registry = (reg', Inl (NoReplica ''docs'' 7))
     \<and> current_bucket_map reg' ''docs'' = Inr (balanced 1)"
proof -
  have e: "get_entry demo_registry ''docs'' = Some (new_entry (demo_index ''docs''))" by code_simp
  show ?thesis
    using promote_refusal_adds_shard[OF e, of 7 ok_io] by (auto simp: new_entry_def bt_get_def)
qed

text \<open>C16. A cutover is a compare-and-swap on the routing generation: of two reindexes planned from the same generation
  the second is refused and changes nothing, and the definition the first committed stays in force.\<close>

theorem second_cutover_refused:
  assumes "commit_reindex_cutover io n d g g' reg = (reg', Inr x)" "g' \<noteq> g"
  shows "\<exists>c. commit_reindex_cutover io' n d' g g'' reg' = (reg', Inl (PlacementConflict c))"
  using cutover.second_swap_refused[of io n g "(d, g')" reg reg' x io' "(d', g'')"] assms by simp

theorem second_cutover_refused_witness:
  "\<exists>c. snd (commit_reindex_cutover ok_io ''docs'' None 0 1
        (fst (commit_reindex_cutover ok_io ''docs'' (Some (0, demo_index ''docs'')) 0 1 demo_registry)))
     = Inl (PlacementConflict c)"
proof -
  have "snd (commit_reindex_cutover ok_io ''docs'' (Some (0, demo_index ''docs'')) 0 1 demo_registry) = Inr 1" by code_simp
  then have "commit_reindex_cutover ok_io ''docs'' (Some (0, demo_index ''docs'')) 0 1 demo_registry =
      (fst (commit_reindex_cutover ok_io ''docs'' (Some (0, demo_index ''docs'')) 0 1 demo_registry), Inr 1)"
    by (simp add: prod_eq_iff)
  from second_cutover_refused[OF this, of ok_io None 1] show ?thesis by auto
qed

definition demo_pool :: registry where
  "demo_pool = register_node ''n2'' 40000 (register_node ''n1'' 40000 (register_node ''n0'' 0 demo_registry))"

lemma demo_pool_reachable: "reg_reachable strict demo_pool"
  unfolding demo_pool_def register_node_def
  by (rule reach_step[OF reach_step[OF reach_step[OF demo_reachable step_register] step_register] step_register])


lemma demo_resolve:
  "resolve_unit_holders ok_io ''docs'' (ShardUnit 0) 2 5 40000 demo_pool =
     (fst (resolve_unit_holders ok_io ''docs'' (ShardUnit 0) 2 5 40000 demo_pool),
      Inr \<lparr>uh_primary = ''n1'', uh_replicas = [''n2''], uh_changed = True, uh_moved = True\<rparr>)"
proof -
  have "snd (resolve_unit_holders ok_io ''docs'' (ShardUnit 0) 2 5 40000 demo_pool) =
      Inr \<lparr>uh_primary = ''n1'', uh_replicas = [''n2''], uh_changed = True, uh_moved = True\<rparr>" by code_simp
  then show ?thesis by (simp add: prod_eq_iff)
qed

lemma demo_pool_facts: "\<not> placement_grace_active demo_pool 40000" "unit_of demo_pool ''docs'' (ShardUnit 0) = None"
  by code_simp+


text \<open>C22. Resolving is idempotent: a second resolve at the same moment, whatever the entitlement then, returns the same
  holders, reports no change, writes nothing and leaves the registry exactly as it is.\<close>

theorem resolve_idempotent:
  assumes "reg_reachable strict reg" "resolve_unit_holders io n u rf ent now reg = (reg', Inr h)"
    "\<forall>a. unit_of reg n u = Some a \<longrightarrow> distinct (assignment_nodes a)"
  shows "resolve_unit_holders io' n u rf ent' now reg' = (reg', Inr (h\<lparr>uh_changed := False, uh_moved := False\<rparr>))"
  using resolve_idempotent_lemma[OF reachable_ok[OF assms(1)] assms(2)] assms(3) by (simp add: assignment_ok_def)

theorem resolve_idempotent_witness:
  "snd (resolve_unit_holders down_io ''docs'' (ShardUnit 0) 2 0 40000
        (fst (resolve_unit_holders ok_io ''docs'' (ShardUnit 0) 2 5 40000 demo_pool)))
   = Inr \<lparr>uh_primary = ''n1'', uh_replicas = [''n2''], uh_changed = False, uh_moved = False\<rparr>"
  using resolve_idempotent[OF demo_pool_reachable[of True] demo_resolve, of down_io 0] demo_pool_facts(2) by simp

text \<open>C15. The entitlement cap holds: placing a unit that has neither a primary nor a live replica never raises the number
  of counted primary-holding nodes above the cap, or above what it already was.\<close>

theorem resolve_respects_entitlement:
  assumes "reg_reachable strict reg" "resolve_unit_holders io n u rf ent now reg = (reg', Inr h)"
    "unit_of reg n u = None"
  shows "count_entitlement_nodes reg' now \<le> max (count_entitlement_nodes reg now) ent"
  using resolve_entitlement_count[OF reachable_ok[OF assms(1)] assms(2)] assms(3) by simp

theorem resolve_respects_entitlement_witness:
  "count_entitlement_nodes (fst (resolve_unit_holders ok_io ''docs'' (ShardUnit 0) 2 5 40000 demo_pool)) 40000
     \<le> max (count_entitlement_nodes demo_pool 40000) 5"
  by (rule resolve_respects_entitlement[OF demo_pool_reachable[of True] demo_resolve demo_pool_facts(2)])

text \<open>C7. Failover completes: with a live pool node, writes that succeed and the grace over, one dead-owner sweep
  returns and leaves no unit whose primary is dead, even when every node that held units is gone.\<close>

theorem sweep_leaves_no_dead_primary:
  assumes "reg_reachable strict reg" "units_ok reg" "\<forall>k. io_persist (ios k) = Persisted" "\<not> r_rollback_failed reg"
    "\<not> placement_grace_active reg now" "placement_nodes reg now \<noteq> []"
  shows "\<exists>reg' k. sweep_dead_primaries ios rf ent now reg = (reg', Inr k) \<and> dead_primary_units reg' now = []"
proof -
  note ok = reachable_ok[OF assms(1)]
  have "\<exists>a. unit_of reg n u = Some a \<and> sa_primary a \<noteq> None" if "(n, u) \<in> set (dead_primary_units reg now)" for n u
    using that by (auto simp: dead_units_mem[OF ok] primary_dead_def split: option.splits)
  then have "\<exists>reg' k. drive_units uh_moved ios rf ent now (dead_primary_units reg now) 0 reg = (reg', Inr k)
      \<and> dead_primary_units reg' now = [] \<and> units_ok reg'"
    using assms(2-6) ok by (intro drive_clears_dead) auto
  moreover have "live_nodes reg now \<noteq> []"
    using assms(6) placement_live[of reg now] by (cases "placement_nodes reg now") auto
  ultimately show ?thesis by (auto simp: sweep_dead_primaries_def)
qed

definition demo_orphan :: registry where
  "demo_orphan = fst (assign_primary ok_io ''docs'' 1 ''gone'' demo_pool)"

theorem sweep_leaves_no_dead_primary_witness:
  "dead_primary_units demo_orphan 40000 = [(''docs'', ShardUnit 1)] \<and>
   (\<exists>reg' k. sweep_dead_primaries (\<lambda>_. ok_io) 1 0 40000 demo_orphan = (reg', Inr k) \<and> dead_primary_units reg' 40000 = [])"
proof -
  have r: "reg_reachable True demo_orphan"
    unfolding demo_orphan_def assign_primary_def by (rule reach_step[OF demo_pool_reachable step_with_shard])
  have e: "get_entry demo_orphan n = (if n = ''docs'' then Some ((new_entry (demo_index ''docs''))\<lparr>ie_shards := [(1, \<lparr>sa_primary = Some ''gone'', sa_replicas = []\<rparr>)]\<rparr>) else None)" for n
  proof -
    have "c_indexes (r_core demo_orphan) = [(''docs'', (new_entry (demo_index ''docs''))\<lparr>ie_shards := [(1, \<lparr>sa_primary = Some ''gone'', sa_replicas = []\<rparr>)]\<rparr>)]"
      by code_simp
    then show ?thesis by (simp add: get_entry_def bt_get_def)
  qed
  have "assignment_ok a" if "unit_of demo_orphan n u = Some a" for n u a
    using that by (cases u) (auto simp: unit_of_Some e unit_assignment_def new_entry_def bt_get_def assignment_ok_iff split: if_splits)
  then have "units_ok demo_orphan" by (simp add: units_ok_def)
  moreover have "\<not> r_rollback_failed demo_orphan" "\<not> placement_grace_active demo_orphan 40000"
    "placement_nodes demo_orphan 40000 \<noteq> []" "dead_primary_units demo_orphan 40000 = [(''docs'', ShardUnit 1)]"
    by code_simp+
  moreover have "\<forall>k::nat. io_persist ((\<lambda>_. ok_io) k) = Persisted" by (simp add: ok_io_def)
  ultimately show ?thesis
    using sweep_leaves_no_dead_primary[OF r, where ios = "\<lambda>_. ok_io" and now = 40000 and rf = 1 and ent = 0] by simp
qed

text \<open>C12. Announces are first-wins: no accepted announce of shards or windows changes a unit whose primary is a
  pool-assigned node that is not confidently dead, unless the announcer is that primary itself. An announce that
  claims such a shard without being one of its replicas changes nothing.\<close>

theorem announce_keeps_live_primary:
  assumes "reg_reachable strict reg" "unit_of reg m v = Some a" "sa_primary a = Some p" "p \<noteq> ep"
    "\<not> owner_confidently_dead reg p now" "is_pool_eligible reg p"
  shows "(announce_primaries io n shards ep now ent reg = (reg', Inr ()) \<longrightarrow> unit_of reg' m v = Some a)
    \<and> (announce_windows io n ep windows now ent reg = (reg', Inr ()) \<longrightarrow> unit_of reg' m v = Some a)
    \<and> (m = n \<longrightarrow> v = ShardUnit k \<longrightarrow> k \<in> set shards \<longrightarrow> ep \<notin> set (sa_replicas a) \<longrightarrow>
        fst (announce_primaries io n shards ep now ent reg) = reg)"
proof (intro conjI impI)
  note ok = reachable_ok[OF assms(1)]
  show "unit_of reg' m v = Some a" if "announce_primaries io n shards ep now ent reg = (reg', Inr ())"
    using announce_primaries_unit[OF ok that assms(2-6)] .
  show "unit_of reg' m v = Some a" if "announce_windows io n ep windows now ent reg = (reg', Inr ())"
    using announce_windows_unit[OF ok that assms(2-6)] .
  assume k: "m = n" "v = ShardUnit k" "k \<in> set shards" "ep \<notin> set (sa_replicas a)"
  show "fst (announce_primaries io n shards ep now ent reg) = reg"
  proof (cases rule: announce_primaries_cases[of io n shards ep now ent reg])
    case (claimed e cs mm ch)
    then have "bt_get (ie_shards e) k = Some a"
      using assms(2) k by (auto simp: unit_of_Some unit_assignment_def)
    then obtain c where "classify_unit reg now n ep (ShardUnit k) (Some a) = Inr c"
      using res_map_zip[OF claimed(2) k(3)] by auto
    then show ?thesis using assms(3-6) k(4) by (simp add: classify_unit_def)
  qed
qed

definition demo_placed :: registry where
  "demo_placed = fst (resolve_unit_holders ok_io ''docs'' (ShardUnit 0) 2 5 40000 demo_pool)"

theorem announce_keeps_live_primary_witness:
  "fst (announce_primaries ok_io ''docs'' [0] ''thief'' 40000 9 demo_placed) = demo_placed"
proof -
  have r: "reg_reachable False demo_placed"
    unfolding demo_placed_def by (rule reach_step[OF demo_pool_reachable step_resolve]) (simp add: clean_def)
  have u: "unit_of demo_placed ''docs'' (ShardUnit 0) = Some \<lparr>sa_primary = Some ''n1'', sa_replicas = [''n2'']\<rparr>"
    "\<not> owner_confidently_dead demo_placed ''n1'' 40000" "is_pool_eligible demo_placed ''n1''"
    by code_simp+
  show ?thesis
    using announce_keeps_live_primary[OF r u(1) _ _ u(2,3), where ep = "''thief''" and n = "''docs''" and k = 0
        and shards = "[0]" and io = ok_io and ent = 9] by simp
qed

text \<open>A password check succeeds only for a subject with a stored credential: an unknown subject is refused whatever
  the dummy hash accepts. Where hashing and verifying agree, the password just set is accepted, a wrong one is not,
  and no other subject's check changes.\<close>

lemma credential_check_exact:
  assumes "io_persist io = Persisted" "\<not> r_rollback_failed reg" "ar_hash ar pw salt = Inr h" "ar_parse ar h"
    "\<forall>q. ar_verify ar q h = (q = pw)"
  shows "\<exists>reg'. set_credential io ar salt s pw reg = (reg', Inr ())
      \<and> (\<forall>q. verify_credential ar reg' s q = (q = pw))
      \<and> (\<forall>s' q. s' \<noteq> s \<longrightarrow> verify_credential ar reg' s' q = verify_credential ar reg s' q)
      \<and> (\<forall>s' q. s' \<noteq> s \<longrightarrow> \<not> has_credential reg s' \<longrightarrow> \<not> verify_credential ar reg' s' q)"
  using assms by (simp add: set_credential_def commit_Persisted verify_credential_def Let_def has_credential_def
      bt_contains_iff split: option.splits)

definition toy_argon :: argon where
  "toy_argon = \<lparr>ar_hash = (\<lambda>p s. Inr (s @ ''$'' @ p)), ar_parse = (\<lambda>_. True),
     ar_verify = (\<lambda>p h. h = ''x$'' @ p), ar_dummy = ''x$guess''\<rparr>"

lemma credential_check_exact_witness:
  "\<exists>reg'. set_credential ok_io toy_argon ''x'' ''ann'' ''pw'' demo_registry = (reg', Inr ())
     \<and> verify_credential toy_argon reg' ''ann'' ''pw'' \<and> \<not> verify_credential toy_argon reg' ''bob'' ''guess''"
proof -
  have "\<not> r_rollback_failed demo_registry" "\<not> has_credential demo_registry ''bob''" by code_simp+
  moreover have "io_persist ok_io = Persisted" by (simp add: ok_io_def)
  moreover have "ar_hash toy_argon ''pw'' ''x'' = Inr ''x$pw''" "ar_parse toy_argon ''x$pw''"
    "\<forall>q. ar_verify toy_argon q ''x$pw'' = (q = ''pw'')" by (auto simp: toy_argon_def)
  ultimately obtain reg' where "set_credential ok_io toy_argon ''x'' ''ann'' ''pw'' demo_registry = (reg', Inr ())"
      "\<forall>q. verify_credential toy_argon reg' ''ann'' q = (q = ''pw'')"
      "\<forall>s' q. s' \<noteq> ''ann'' \<longrightarrow> \<not> has_credential demo_registry s' \<longrightarrow> \<not> verify_credential toy_argon reg' s' q"
    using credential_check_exact[of ok_io demo_registry toy_argon "''pw''" "''x''" "''x$pw''" "''ann''"] by blast
  then show ?thesis using \<open>\<not> has_credential demo_registry ''bob''\<close> by auto
qed

text \<open>C26. Changing a subject's roles takes effect at once: when the call succeeds the new binding is durable and every session issued before now is stale, in memory and in the store; when
  the epoch cannot be stored the call fails and the epoch in memory is the old one.\<close>

theorem role_change_revokes_sessions:
  assumes "set_user_roles io now s roles reg = (reg', r)" "trim s \<noteq> []"
  shows "(r = Inr () \<longrightarrow> roles_for reg' s = dedup_trimmed [] roles \<and> r_store reg' = r_core reg' \<and> session_epoch reg' s = now
        \<and> bt_get (r_stored_epochs reg') s = Some now)
    \<and> (r \<noteq> Inr () \<longrightarrow> session_epoch reg' t = session_epoch reg t)"
proof -
  let ?c = "(r_core reg)\<lparr>c_role_bindings := bind_subject s (dedup_trimmed [] roles) (c_role_bindings (r_core reg))\<rparr>"
  let ?p = "persist_snapshot io (reg\<lparr>r_core := ?c\<rparr>)"
  have s: "s \<noteq> []" using assms(2) by (auto simp: trim_def)
  have e: "r_session_epochs (fst ?p) = r_session_epochs reg" by simp
  show ?thesis
  proof (cases "snd ?p")
    case (Inl err)
    then have "(reg', r) = (fst ?p, Inl err)"
      using assms by (simp add: set_user_roles_def reg_then_def split: prod.splits)
    then show ?thesis using e by (simp add: session_epoch_def)
  next
    case (Inr x)
    then have R: "(reg', r) = revoke_sessions io now s (fst ?p)"
      using assms by (simp add: set_user_roles_def reg_then_def split: prod.splits)
    note P = persist_Inr[of io "reg\<lparr>r_core := ?c\<rparr>"]
    have "r_core (fst ?p) = ?c" "r_store (fst ?p) = ?c" using P Inr by simp_all
    then show ?thesis
      using R s e by (auto simp: revoke_sessions_def Let_def roles_for_def lookup_binding_def bind_subject_def session_epoch_def
          split: persist_answer.splits option.splits)
  qed
qed

theorem role_change_revokes_sessions_witness:
  "session_epoch (fst (set_user_roles ok_io 77 ''ann'' ['' admin '', ''admin''] demo_registry)) ''ann'' = 77
   \<and> roles_for (fst (set_user_roles ok_io 77 ''ann'' ['' admin '', ''admin''] demo_registry)) ''ann'' = [''admin'']"
proof -
  let ?x = "set_user_roles ok_io 77 ''ann'' ['' admin '', ''admin''] demo_registry"
  have s: "snd ?x = Inr ()" "trim ''ann'' \<noteq> []" "dedup_trimmed [] ['' admin '', ''admin''] = [''admin'']" by code_simp+
  have "?x = (fst ?x, Inr ())" using s(1) by (simp add: prod_eq_iff)
  then show ?thesis using role_change_revokes_sessions[OF _ s(2), of ok_io 77 _ demo_registry "fst ?x"] s(3) by auto
qed

end
