(* ===== verification/Rbac.thy ===== *)
theory Rbac
  imports Rust_Str Ordered_Map
begin

section \<open>Authorization\<close>

text \<open>
  Models \<open>growlerdb-engine/src/rbac.rs\<close> and the authorization seam of \<open>auth.rs\<close>: the scope a method needs, the
  policy that maps roles to scopes, the check that a caller may hand out roles, and the decision on a request
  from its metadata. Request metadata is a map from keys to the values that are readable as text. The wording
  of denials is not modelled; which check denied is.
\<close>

subsection \<open>Scopes\<close>

datatype scope = SearchScope | IndexReadScope | IndexWriteScope | AdminScope | OpsScope

definition scope_str :: "scope \<Rightarrow> string" where
  "scope_str s =
     (case s of SearchScope \<Rightarrow> ''search'' | IndexReadScope \<Rightarrow> ''index.read'' | IndexWriteScope \<Rightarrow> ''index.write''
      | AdminScope \<Rightarrow> ''admin'' | OpsScope \<Rightarrow> ''ops'')"

definition ASSIGNABLE_ROLES :: "string list" where
  "ASSIGNABLE_ROLES = [''reader'', ''operator'', ''admin'']"

definition scope_for_method :: "string \<Rightarrow> scope option" where
  "scope_for_method method =
     (if method \<in> {''Search'', ''Suggest'', ''Aggregate'', ''GetByKey'', ''Explain'', ''OpenPit'', ''ClosePit'',
        ''Export'', ''ListSavedQueries'', ''SaveSavedQuery'', ''DeleteSavedQuery''} then Some SearchScope
      else if method \<in> {''DescribeIndex'', ''GetIndex'', ''ListIndexes'', ''ListAliases'', ''DescribeSource'',
        ''IngestionStatus'', ''GetCheckpoint'', ''ListRoles'', ''ListActivity'', ''GetLicense'', ''GetReindexJob'',
        ''ListReindexJobs'', ''ReindexStatus''} then Some IndexReadScope
      else if method = ''Write'' then Some IndexWriteScope
      else if method \<in> {''CreateIndex'', ''DropIndex'', ''AlterIndex'', ''ReindexIndex'', ''StartReindexJob'',
        ''CancelReindexJob'', ''CancelReindex'', ''SetAlias'', ''DropAlias'', ''SetUserRoles'', ''CreateToken'',
        ''ListTokens'', ''RevokeToken'', ''ListUsers''} then Some AdminScope
      else if method \<in> {''PlanReshard'', ''ApplyReshard'', ''MoveBucket'', ''RegisterServedIndex'', ''RegisterNode'',
        ''ResolveUnitOwner'', ''SubscribeAssignments''} then Some OpsScope
      else None)"

subsection \<open>Policies\<close>

text \<open>The map from roles to their set of scopes.\<close>

type_synonym rbac_policy = "(string, scope set) btree"

definition grant :: "string \<Rightarrow> scope list \<Rightarrow> rbac_policy \<Rightarrow> rbac_policy" where
  "grant role scopes p =
     bt_insert role ((case bt_get p role of None \<Rightarrow> {} | Some s \<Rightarrow> s) \<union> set scopes) p"

definition with_default_roles :: rbac_policy where
  "with_default_roles =
     grant ''service'' [SearchScope, IndexReadScope, IndexWriteScope, AdminScope, OpsScope]
    (grant ''index-admin'' [SearchScope, IndexReadScope, IndexWriteScope, AdminScope]
    (grant ''viewer'' [SearchScope, IndexReadScope]
    (grant ''admin'' [SearchScope, IndexReadScope, IndexWriteScope, AdminScope, OpsScope]
    (grant ''operator'' [SearchScope, IndexReadScope, OpsScope]
    (grant ''reader'' [SearchScope, IndexReadScope] [])))))"

definition grants :: "rbac_policy \<Rightarrow> string list \<Rightarrow> scope \<Rightarrow> bool" where
  "grants p roles sc \<longleftrightarrow> list_ex (\<lambda>r. case bt_get p r of None \<Rightarrow> False | Some s \<Rightarrow> sc \<in> s) roles"

definition scopes_of :: "rbac_policy \<Rightarrow> string \<Rightarrow> scope set" where
  "scopes_of p role = (case bt_get p role of None \<Rightarrow> {} | Some s \<Rightarrow> s)"

definition effective_scopes :: "rbac_policy \<Rightarrow> string list \<Rightarrow> scope set" where
  "effective_scopes p roles = \<Union> (set (map (\<lambda>r. case bt_get p r of None \<Rightarrow> {} | Some s \<Rightarrow> s) roles))"

datatype assign_error = NotAssignable string | BeyondCaller string

fun check_roles :: "rbac_policy \<Rightarrow> scope set \<Rightarrow> string list \<Rightarrow> assign_error + unit" where
  "check_roles catalog caller [] = Inr ()"
| "check_roles catalog caller (role # roles) =
     (if role \<notin> set ASSIGNABLE_ROLES then Inl (NotAssignable role)
      else if \<not> scopes_of catalog role \<subseteq> caller then Inl (BeyondCaller role)
      else check_roles catalog caller roles)"

definition check_assignable :: "string list \<Rightarrow> string list \<Rightarrow> assign_error + unit" where
  "check_assignable caller_roles requested_roles =
     (let catalog = with_default_roles in
      check_roles catalog (effective_scopes catalog caller_roles) requested_roles)"

subsection \<open>Requests\<close>

record auth_context =
  ax_method :: string
  ax_principal :: "string option"
  ax_tenant :: "string option"
  ax_roles :: "string list"
  ax_index :: "string option"
  ax_allowed_indexes :: "string list"

datatype auth_denied = UnknownMethod string | IndexNotAllowed string | ScopeMissing string scope

definition rbac_authorize :: "rbac_policy \<Rightarrow> auth_context \<Rightarrow> auth_denied + unit" where
  "rbac_authorize p ctx =
     (case scope_for_method (ax_method ctx) of
        None \<Rightarrow> Inl (UnknownMethod (ax_method ctx))
      | Some required \<Rightarrow>
          (case (if ax_allowed_indexes ctx \<noteq> [] then ax_index ctx else None) of
             Some target \<Rightarrow>
               if target \<notin> set (ax_allowed_indexes ctx) then Inl (IndexNotAllowed target)
               else if grants p (ax_roles ctx) required then Inr () else Inl (ScopeMissing (ax_method ctx) required)
           | None \<Rightarrow>
               if grants p (ax_roles ctx) required then Inr () else Inl (ScopeMissing (ax_method ctx) required)))"

datatype auth_hook = AllowAll | Policy rbac_policy

definition hook_authorize :: "auth_hook \<Rightarrow> auth_context \<Rightarrow> auth_denied + unit" where
  "hook_authorize h ctx = (case h of AllowAll \<Rightarrow> Inr () | Policy p \<Rightarrow> rbac_authorize p ctx)"

definition is_authorizing :: "auth_hook \<Rightarrow> bool" where
  "is_authorizing h = (case h of AllowAll \<Rightarrow> False | Policy _ \<Rightarrow> True)"

definition split_csv :: "(string \<Rightarrow> string option) \<Rightarrow> string \<Rightarrow> string list" where
  "split_csv md key =
     (case md key of None \<Rightarrow> [] | Some s \<Rightarrow> filter (\<lambda>r. r \<noteq> []) (map trim (split_char (CHR '','') s)))"

definition request_context :: "string \<Rightarrow> string option \<Rightarrow> (string \<Rightarrow> string option) \<Rightarrow> auth_context" where
  "request_context method index md =
     \<lparr>ax_method = method, ax_principal = md ''x-growlerdb-principal'', ax_tenant = md ''x-growlerdb-tenant'',
      ax_roles = split_csv md ''x-growlerdb-roles'', ax_index = index,
      ax_allowed_indexes = split_csv md ''x-growlerdb-indexes''\<rparr>"

definition authorize_index ::
    "auth_hook \<Rightarrow> string \<Rightarrow> string option \<Rightarrow> (string \<Rightarrow> string option) \<Rightarrow> auth_denied + unit" where
  "authorize_index h method index md = hook_authorize h (request_context method index md)"

definition authorize :: "auth_hook \<Rightarrow> string \<Rightarrow> (string \<Rightarrow> string option) \<Rightarrow> auth_denied + unit" where
  "authorize h method md = authorize_index h method None md"

definition tenant_of :: "(string \<Rightarrow> string option) \<Rightarrow> string option" where
  "tenant_of md = md ''x-growlerdb-tenant''"

text \<open>The target of a request at the gateway (\<open>guard_and_resolve\<close>): the index it names, or the default index.\<close>

definition gateway_target :: "string option \<Rightarrow> string \<Rightarrow> string option" where
  "gateway_target default_index index = (if trim index = [] then default_index else Some (trim index))"

subsection \<open>Lemmas\<close>

lemma get_grant [simp]:
  "bt_get (grant role scopes p) r =
     (if r = role then Some ((case bt_get p role of None \<Rightarrow> {} | Some s \<Rightarrow> s) \<union> set scopes) else bt_get p r)"
  by (simp add: grant_def)

lemma grants_effective: "grants p roles sc \<longleftrightarrow> sc \<in> effective_scopes p roles"
  by (auto simp: grants_def effective_scopes_def list_ex_iff split: option.splits)

lemma effective_scopes_of: "effective_scopes p roles = \<Union> (scopes_of p ` set roles)"
  by (simp add: effective_scopes_def scopes_of_def)

lemma check_roles_ok:
  "check_roles p caller roles = Inr () \<longleftrightarrow> set roles \<subseteq> set ASSIGNABLE_ROLES \<and> effective_scopes p roles \<subseteq> caller"
  by (induction roles) (auto simp: effective_scopes_of)

lemma rbac_authorize_ok:
  "rbac_authorize p ctx = Inr () \<longleftrightarrow>
     (\<exists>sc. scope_for_method (ax_method ctx) = Some sc \<and> sc \<in> effective_scopes p (ax_roles ctx))
     \<and> (ax_allowed_indexes ctx = [] \<or> ax_index ctx = None \<or> the (ax_index ctx) \<in> set (ax_allowed_indexes ctx))"
  by (auto simp: rbac_authorize_def grants_effective split: option.splits)



text \<open>C29. The methods of index maintenance that the gateway and the nodes authorize under their own names are unknown to
  the policy: under every policy and for every role the request is denied.\<close>

theorem maintenance_always_denied:
  assumes "method \<in> {''CompactIndex'', ''BackupIndex'', ''BackupStatus'', ''ReconcileIndex'', ''ReindexPrecheck''}"
  shows "authorize_index (Policy p) method index md = Inl (UnknownMethod method)"
proof -
  have "scope_for_method method = None" using assms by (elim insertE emptyE) (simp_all add: scope_for_method_def)
  then show ?thesis by (simp add: authorize_index_def hook_authorize_def request_context_def rbac_authorize_def)
qed

theorem maintenance_always_denied_witness:
  "authorize_index (Policy with_default_roles) ''CompactIndex'' (Some ''logs'')
     [''x-growlerdb-roles'' \<mapsto> ''admin,service''] = Inl (UnknownMethod ''CompactIndex'')"
  by (rule maintenance_always_denied) simp

end
